(* ===== verification/Prelude.thy ===== *)
theory Prelude
  imports Main "HOL-Library.Word" "HOL-Library.AList" "HOL-Library.List_Lexorder"
    "HOL-Library.Code_Target_Nat"
begin

text \<open>
  What the component theories share.

  \<^item> Machine integers: Go's \<open>uint8\<close>, \<open>uint32\<close> and \<open>uint64\<close> are \<open>8 word\<close>,
    \<open>32 word\<close> and \<open>64 word\<close>; \<open>+\<close>, \<open>-\<close> and \<open>*\<close> wrap as in Go. Lengths and
    slice indices (Go's \<open>int\<close>) are \<open>nat\<close>; a conversion \<open>uint64(len(xs))\<close> is
    \<open>of_nat\<close>.
  \<^item> Fixed-size arrays \<open>[n]byte\<close> are the type \<open>n bytes\<close>: byte lists of length \<open>n\<close>, with
    the lexicographic order of \<open>bytes.Compare\<close> as their \<open>linorder\<close> instance.
  \<^item> Go maps are association lists with distinct keys. The order of the list is the order in
    which one \<open>range\<close> statement visits the entries; Go leaves that order open, so
    components state where a result does not depend on it.
  \<^item> Fallible code returns \<open>'e + 'a\<close>, with \<open>Inl\<close> for the error.
\<close>

subsection \<open>Machine integers\<close>

type_synonym byte = "8 word"
type_synonym u32 = "32 word"
type_synonym u64 = "64 word"

lemma unat_lt_2_64 [simp]: "unat (x :: u64) < 18446744073709551616"
  using unsigned_less [of x, where ?'a = nat] by simp

lemma unat_of_nat_u64 [simp]:
  "n < 18446744073709551616 \<Longrightarrow> unat (of_nat n :: u64) = n"
  by (simp add: unat_of_nat)

lemma unat_Suc_u64:
  assumes "(x :: u64) < y"
  shows "unat (x + 1) = Suc (unat x)"
proof -
  have "unat x < 18446744073709551615"
    using assms unat_lt_2_64 [of y] unfolding word_less_nat_alt by linarith
  then show ?thesis by (simp add: unat_plus_if')
qed

lemma unat_diff_u64: "(y :: u64) \<le> x \<Longrightarrow> unat (x - y) = unat x - unat y"
  by (rule unat_sub)

subsection \<open>Fixed-size byte arrays\<close>

typedef (overloaded) 'n::len bytes = "{bs :: byte list. length bs = LENGTH('n)}"
  morphisms list_of_bytes Abs_bytes
  by (rule exI [of _ "replicate LENGTH('n) 0"]) simp

text \<open>
  \<open>bytes_of bs\<close> is a zeroed array into which \<open>copy\<close> has copied \<open>bs\<close>: at most as many
  bytes as the array has, the rest left zero.
\<close>

definition bytes_of :: "byte list \<Rightarrow> 'n::len bytes" where
  "bytes_of bs = Abs_bytes (take LENGTH('n) (bs @ replicate LENGTH('n) 0))"

lemma Abs_bytes_list_of_bytes [code abstype]: "Abs_bytes (list_of_bytes b) = b"
  by (rule list_of_bytes_inverse)

lemma list_of_bytes_bytes_of [code abstract]:
  "list_of_bytes (bytes_of bs :: 'n::len bytes) = take LENGTH('n) (bs @ replicate LENGTH('n) 0)"
  by (simp add: bytes_of_def Abs_bytes_inverse)

lemma length_list_of_bytes [simp]: "length (list_of_bytes (b :: 'n::len bytes)) = LENGTH('n)"
  using list_of_bytes [of b] by simp

lemma bytes_of_list_of_bytes [simp]: "bytes_of (list_of_bytes b) = b"
  by (simp add: bytes_of_def list_of_bytes_inverse)

lemma list_of_bytes_of_exact [simp]:
  "length bs = LENGTH('n::len) \<Longrightarrow> list_of_bytes (bytes_of bs :: 'n bytes) = bs"
  by (simp add: list_of_bytes_bytes_of)

lemma bytes_eq_iff: "a = b \<longleftrightarrow> list_of_bytes a = list_of_bytes b"
  by (simp add: list_of_bytes_inject)

instantiation bytes :: (len) equal
begin

definition equal_bytes :: "'a bytes \<Rightarrow> 'a bytes \<Rightarrow> bool" where
  "equal_bytes a b \<longleftrightarrow> list_of_bytes a = list_of_bytes b"

instance
  by standard (simp add: equal_bytes_def list_of_bytes_inject)

end

instantiation bytes :: (len) linorder
begin

definition less_eq_bytes :: "'a bytes \<Rightarrow> 'a bytes \<Rightarrow> bool" where
  "a \<le> b \<longleftrightarrow> list_of_bytes a \<le> list_of_bytes b"

definition less_bytes :: "'a bytes \<Rightarrow> 'a bytes \<Rightarrow> bool" where
  "a < b \<longleftrightarrow> list_of_bytes a < list_of_bytes b"

instance
  by standard (auto simp: less_eq_bytes_def less_bytes_def bytes_eq_iff)

end

text \<open>Hash roots, public keys and XMSS signatures.\<close>

type_synonym root = "32 bytes"
type_synonym pubkey = "52 bytes"
type_synonym signature = "3112 bytes"

subsection \<open>Results\<close>

definition and_then :: "'e + 'a \<Rightarrow> ('a \<Rightarrow> 'e + 'b) \<Rightarrow> 'e + 'b" where
  "and_then r f = (case r of Inl e \<Rightarrow> Inl e | Inr x \<Rightarrow> f x)"

lemma and_then_simps [simp]:
  "and_then (Inl e) f = Inl e"
  "and_then (Inr x) f = f x"
  by (simp_all add: and_then_def)

lemma and_then_eq_Inr_iff:
  "and_then r f = Inr y \<longleftrightarrow> (\<exists>x. r = Inr x \<and> f x = Inr y)"
  by (cases r) auto

lemma and_then_eq_Inl_iff:
  "and_then r f = Inl e \<longleftrightarrow> r = Inl e \<or> (\<exists>x. r = Inr x \<and> f x = Inl e)"
  by (cases r) auto

subsection \<open>Association lists\<close>

lemma update_update_same [simp]: "AList.update k v (AList.update k v' m) = AList.update k v m"
  by (induction m) auto

lemma map_of_update [simp]: "map_of (AList.update k v m) = (map_of m)(k \<mapsto> v)"
  by (rule update_conv')

lemma map_of_delete [simp]: "map_of (AList.delete k m) = (map_of m)(k := None)"
  by (rule delete_conv')

lemma distinct_keys_update [simp]:
  "distinct (map fst m) \<Longrightarrow> distinct (map fst (AList.update k v m))"
  by (rule distinct_update)

lemma distinct_keys_delete [simp]:
  "distinct (map fst m) \<Longrightarrow> distinct (map fst (AList.delete k m))"
  by (rule distinct_delete)

lemma set_keys_map_of: "set (map fst m) = dom (map_of m)"
  by (simp add: dom_map_of_conv_image_fst)

subsection \<open>Lists\<close>

text \<open>Two lists that are split at the first element satisfying \<open>P\<close> are split alike.\<close>

lemma split_at_first:
  assumes "xs @ m # r = ys @ m' # r'" and "P m" and "P m'"
    and "\<forall>x \<in> set xs. \<not> P x" and "\<forall>y \<in> set ys. \<not> P y"
  shows "xs = ys \<and> m = m' \<and> r = r'"
  using assms(1,4,5)
proof (induction xs arbitrary: ys)
  case Nil
  then show ?case using assms(2) by (cases ys) auto
next
  case (Cons x xs)
  then show ?case using assms(3) by (cases ys) auto
qed

text \<open>Encodings of fixed positive width are injective on lists.\<close>

lemma concat_map_fixed_inj:
  assumes "\<And>x. length (g x) = Suc k" and "inj g"
    and "concat (map g xs) = concat (map g ys)"
  shows "xs = ys"
  using assms(3)
proof (induction xs arbitrary: ys)
  case Nil
  then show ?case using assms(1) by (cases ys) (auto simp: length_0_conv [symmetric] simp del: length_0_conv)
next
  case (Cons x xs)
  then obtain y ys' where ys: "ys = y # ys'"
    using assms(1) [of x] by (cases ys) auto
  then have "g x = g y \<and> concat (map g xs) = concat (map g ys')"
    using Cons.prems assms(1) by (simp add: append_eq_append_conv)
  then show ?case using Cons.IH assms(2) by (simp add: ys inj_eq)
qed

lemma fold_concat_map: "fold (\<lambda>x. fold g (h x)) xs = fold g (concat (map h xs))"
  by (induction xs) (simp_all add: fun_eq_iff)

lemma length_concat_equal: "\<forall>xs \<in> set xss. length xs = n \<Longrightarrow> length (concat xss) = length xss * n"
  by (induction xss) auto

lemma nth_concat_equal:
  assumes "\<forall>xs \<in> set xss. length xs = n" and "i < length xss" and "j < n"
  shows "concat xss ! (i * n + j) = xss ! i ! j"
  using assms
proof (induction xss arbitrary: i)
  case (Cons xs xss)
  then show ?case by (cases i) (auto simp: nth_append)
qed simp

end
