(* ===== verification/Types.thy ===== *)
theory Types
  imports Prelude
begin

text \<open>
  The data of package \<open>types\<close>: one record per Go struct, with the struct's fields in its order.
  Field names carry a prefix because Isabelle's record fields are global. A pointer field that every
  constructor and decoder of the repository fills is modelled by its value; the one pointer the code
  tests for \<open>nil\<close> as a case of its own, \<open>BlockWithAttestation.ProposerAttestation\<close>, is an
  \<open>option\<close>.
\<close>

subsection \<open>Constants\<close>

definition SecondsPerSlot :: u64 where "SecondsPerSlot = 4"
definition IntervalsPerSlot :: u64 where "IntervalsPerSlot = 4"
definition SecondsPerInterval :: u64 where "SecondsPerInterval = SecondsPerSlot div IntervalsPerSlot"
definition JustificationLookback :: nat where "JustificationLookback = 3"
definition MaxRequestBlocks :: nat where "MaxRequestBlocks = 1024"
definition XMSSSignatureSize :: nat where "XMSSSignatureSize = 3112"
definition HistoricalRootsLimit :: nat where "HistoricalRootsLimit = 2 ^ 18"
definition ValidatorRegistryLimit :: nat where "ValidatorRegistryLimit = 2 ^ 12"
definition JustificationValsLimit :: nat where
  "JustificationValsLimit = HistoricalRootsLimit * ValidatorRegistryLimit"

definition ZeroHash :: root where
  "ZeroHash = bytes_of []"

subsection \<open>Checkpoints and votes\<close>

record Checkpoint =
  cp_root :: root
  cp_slot :: u64

record Config =
  cfg_genesis_time :: u64

record AttestationData =
  ad_slot :: u64
  ad_head :: Checkpoint
  ad_target :: Checkpoint
  ad_source :: Checkpoint

record Attestation =
  att_validator :: u64
  att_data :: AttestationData

record SignedAttestation =
  sa_validator :: u64
  sa_message :: AttestationData
  sa_signature :: signature

record AggregatedAttestation =
  agg_data :: AttestationData
  agg_bits :: "byte list"
  agg_signature :: "byte list"

subsection \<open>Blocks\<close>

record BlockHeader =
  bh_slot :: u64
  bh_proposer :: u64
  bh_parent_root :: root
  bh_state_root :: root
  bh_body_root :: root

record BlockBody =
  body_attestations :: "Attestation list"

record Block =
  b_slot :: u64
  b_proposer :: u64
  b_parent_root :: root
  b_state_root :: root
  b_body :: BlockBody

record BlockWithAttestation =
  bwa_block :: Block
  bwa_proposer_attestation :: "Attestation option"

record SignedBlockWithAttestation =
  sb_message :: BlockWithAttestation
  sb_signature :: "signature list"

subsection \<open>The consensus state\<close>

record Validator =
  val_pubkey :: pubkey
  val_index :: u64

record State =
  st_config :: Config
  st_slot :: u64
  st_latest_block_header :: BlockHeader
  st_latest_justified :: Checkpoint
  st_latest_finalized :: Checkpoint
  st_historical_block_hashes :: "root list"
  st_justified_slots :: "byte list"
  st_validators :: "Validator list"
  st_justifications_roots :: "root list"
  st_justifications_validators :: "byte list"

text \<open>
  \<open>State.Copy\<close> rebuilds the state field by field. In a model of values it is the identity;
  in the code it is what makes the later in-place updates of the copy invisible to the original,
  and so what allows the model to pass states by value.
\<close>

definition State_Copy :: "State \<Rightarrow> State" where
  "State_Copy s =
     \<lparr>st_config = \<lparr>cfg_genesis_time = cfg_genesis_time (st_config s)\<rparr>,
      st_slot = st_slot s,
      st_latest_block_header = st_latest_block_header s,
      st_latest_justified =
        \<lparr>cp_root = cp_root (st_latest_justified s), cp_slot = cp_slot (st_latest_justified s)\<rparr>,
      st_latest_finalized =
        \<lparr>cp_root = cp_root (st_latest_finalized s), cp_slot = cp_slot (st_latest_finalized s)\<rparr>,
      st_historical_block_hashes = st_historical_block_hashes s,
      st_justified_slots = st_justified_slots s,
      st_validators =
        map (\<lambda>v. \<lparr>val_pubkey = val_pubkey v, val_index = val_index v\<rparr>) (st_validators s),
      st_justifications_roots = st_justifications_roots s,
      st_justifications_validators = st_justifications_validators s\<rparr>"

lemma State_Copy_id [simp]: "State_Copy s = s"
  by (simp add: State_Copy_def map_idI)

end
