(* ===== verification/Bitlist.thy ===== *)
theory Bitlist
  imports Prelude
begin

unbundle bit_operations_syntax

text \<open>
  The SSZ bitlist helpers of \<open>chain/statetransition/bitlist.go\<close>. A bitlist is a byte
  slice that holds its data bits from the least significant bit of the first byte upwards, and
  after them one sentinel bit that marks the length.

  The abstract value of a bitlist is the list of its data bits, \<open>bits_of\<close>; a bitlist is
  well formed (\<open>bitlist_wf\<close>) when its last byte is not zero, that is, when it has a
  sentinel. The lemmas show that each operation implements the list operation it is named after.
\<close>

subsection \<open>The operations\<close>

text \<open>
  \<open>bl[i/8] |= 1 << (i%8)\<close> and \<open>bl[i/8] &^= 1 << (i%8)\<close>, the two updates the helpers
  and \<open>flattenVotes\<close> are made of. Every use below is within the slice.
\<close>

definition or_bit :: "byte list \<Rightarrow> nat \<Rightarrow> byte list" where
  "or_bit bl i = bl[i div 8 := bl ! (i div 8) OR push_bit (i mod 8) 1]"

definition andnot_bit :: "byte list \<Rightarrow> nat \<Rightarrow> byte list" where
  "andnot_bit bl i = bl[i div 8 := bl ! (i div 8) AND NOT (push_bit (i mod 8) 1)]"

text \<open>The loop \<open>for b := lastByte; b > 0; b >>= 1 { msb++ }\<close>.\<close>

function msb_loop :: "byte \<Rightarrow> nat \<Rightarrow> nat" where
  "msb_loop b msb = (if b > 0 then msb_loop (drop_bit 1 b) (msb + 1) else msb)"
  by pat_completeness auto
termination
  by (relation "measure (\<lambda>(b, _). unat b)")
    (auto simp: unat_drop_bit_eq drop_bit_eq_div word_greater_zero_iff unat_div unat_gt_0)

declare msb_loop.simps [simp del]

definition BitlistLen :: "byte list \<Rightarrow> nat" where
  "BitlistLen bl =
     (if length bl = 0 then 0
      else let lastByte = bl ! (length bl - 1) in
        if lastByte = 0 then 0
        else (length bl - 1) * 8 + msb_loop lastByte 0 - 1)"

definition GetBit :: "byte list \<Rightarrow> u64 \<Rightarrow> bool" where
  "GetBit bl idx =
     (let byteIdx = idx div 8; bitIdx = idx mod 8 in
      if unat byteIdx \<ge> length bl then False
      else (bl ! unat byteIdx) AND push_bit (unat bitIdx) 1 \<noteq> 0)"

definition SetBit :: "byte list \<Rightarrow> u64 \<Rightarrow> bool \<Rightarrow> byte list" where
  "SetBit bl idx val =
     (let byteIdx = idx div 8; bitIdx = idx mod 8 in
      if unat byteIdx \<ge> length bl then bl
      else if val
        then bl[unat byteIdx := bl ! unat byteIdx OR push_bit (unat bitIdx) 1]
        else bl[unat byteIdx := bl ! unat byteIdx AND NOT (push_bit (unat bitIdx) 1)])"

definition AppendBit :: "byte list \<Rightarrow> bool \<Rightarrow> byte list" where
  "AppendBit bl val =
     (let n = BitlistLen bl;
          newLen = n + 1;
          neededBytes = (newLen + 1 + 7) div 8;
          bl1 = take neededBytes (bl @ replicate (neededBytes - length bl) 0);
          bl2 = (if n > 0 \<and> n div 8 < length bl1 then andnot_bit bl1 n else bl1);
          bl3 = (if val then or_bit bl2 n else andnot_bit bl2 n)
      in or_bit bl3 newLen)"

definition MakeBitlist :: "u64 \<Rightarrow> byte list" where
  "MakeBitlist numBits =
     (if numBits = 0 then [0x01]
      else let numBytes = (numBits + 1 + 7) div 8 in
        or_bit (replicate (unat numBytes) 0) (unat numBits))"

definition CloneBitlist :: "byte list \<Rightarrow> byte list" where
  "CloneBitlist src =
     (let dst = replicate (length src) 0 in take (length dst) src @ drop (length src) dst)"

subsection \<open>Bits of a byte slice\<close>

text \<open>The bit at position \<open>i\<close> of a byte slice, \<open>False\<close> beyond its end.\<close>

definition bit_at :: "byte list \<Rightarrow> nat \<Rightarrow> bool" where
  "bit_at bl i \<longleftrightarrow> i div 8 < length bl \<and> bit (bl ! (i div 8)) (i mod 8)"

definition bits_of :: "byte list \<Rightarrow> bool list" where
  "bits_of bl = map (bit_at bl) [0..<BitlistLen bl]"

definition bitlist_wf :: "byte list \<Rightarrow> bool" where
  "bitlist_wf bl \<longleftrightarrow> bl \<noteq> [] \<and> last bl \<noteq> 0"

lemma length_or_bit [simp]: "length (or_bit bl i) = length bl"
  by (simp add: or_bit_def)

lemma length_andnot_bit [simp]: "length (andnot_bit bl i) = length bl"
  by (simp add: andnot_bit_def)

lemma div_mod_8_eq: "i div 8 = j div 8 \<Longrightarrow> i mod 8 = j mod 8 \<longleftrightarrow> i = (j :: nat)"
  by (metis div_mult_mod_eq)

lemma bit_byte_exp_iff: "n < 8 \<Longrightarrow> bit ((2 :: byte) ^ n) m \<longleftrightarrow> m = n"
  by (auto simp: bit_exp_iff possible_bit_word)

lemmas byte_update_simps = bit_or_iff bit_and_iff bit_not_iff bit_byte_exp_iff possible_bit_word

lemma bit_at_or_bit:
  "bit_at (or_bit bl i) j \<longleftrightarrow> bit_at bl j \<or> (i = j \<and> i div 8 < length bl)"
  by (cases "i div 8 = j div 8")
    (auto simp: bit_at_def or_bit_def byte_update_simps dest: div_mod_8_eq)

lemma bit_at_andnot_bit: "bit_at (andnot_bit bl i) j \<longleftrightarrow> bit_at bl j \<and> i \<noteq> j"
  by (cases "i div 8 = j div 8")
    (auto simp: bit_at_def andnot_bit_def byte_update_simps dest: div_mod_8_eq)

lemma bit_at_replicate_0 [simp]: "\<not> bit_at (replicate n 0) i"
  by (auto simp: bit_at_def)

lemma bit_at_append_0: "bit_at (bl @ replicate n 0) i \<longleftrightarrow> bit_at bl i"
  by (auto simp: bit_at_def nth_append)

lemma bit_at_take: "bit_at (take n bl) i \<longleftrightarrow> bit_at bl i \<and> i div 8 < n"
  by (auto simp: bit_at_def)

subsection \<open>The sentinel\<close>

lemma msb_loop_bits:
  "b \<noteq> 0 \<Longrightarrow> m < msb_loop b m \<and> bit b (msb_loop b m - m - 1) \<and> (\<forall>j. bit b j \<longrightarrow> j \<le> msb_loop b m - m - 1)"
proof (induction b m rule: msb_loop.induct)
  case (1 b m)
  have b: "b > 0" using "1.prems" by (simp add: word_greater_zero_iff)
  show ?case
  proof (cases "drop_bit 1 b = 0")
    case True
    then have "msb_loop b m = m + 1"
      using b by (simp add: msb_loop.simps [of b] msb_loop.simps [of 0])
    moreover have only0: "bit b j \<Longrightarrow> j = 0" for j
      using True bit_drop_bit_eq [of 1 b] by (cases j) (auto simp: fun_eq_iff)
    moreover obtain j where "bit b j"
      using "1.prems" by (auto simp: bit_eq_iff)
    ultimately show ?thesis by fastforce
  next
    case False
    let ?r = "msb_loop (drop_bit 1 b) (m + 1)"
    have eq: "msb_loop b m = ?r" using b by (simp add: msb_loop.simps [of b])
    have ih: "m + 1 < ?r" "bit (drop_bit 1 b) (?r - (m + 1) - 1)"
      "\<forall>j. bit (drop_bit 1 b) j \<longrightarrow> j \<le> ?r - (m + 1) - 1"
      using "1.IH" [OF b False] by blast+
    have "j \<le> ?r - m - 1" if "bit b j" for j
      using that ih(1,3) by (cases j) (auto simp: bit_drop_bit_eq)
    moreover have "bit b (?r - m - 1)"
      using ih(1,2) by (simp add: bit_drop_bit_eq Suc_diff_Suc)
    ultimately show ?thesis using ih(1) eq by auto
  qed
qed

text \<open>The length of a well-formed bitlist is the position of its highest bit.\<close>

lemma BitlistLen_sentinel:
  assumes "bitlist_wf bl"
  shows "bit_at bl (BitlistLen bl)" and "\<And>j. bit_at bl j \<Longrightarrow> j \<le> BitlistLen bl"
    and "BitlistLen bl div 8 = length bl - 1"
proof -
  let ?b = "bl ! (length bl - 1)" and ?m = "msb_loop (bl ! (length bl - 1)) 0"
  have b: "?b \<noteq> 0" "bl \<noteq> []"
    using assms by (auto simp: bitlist_wf_def last_conv_nth)
  have m: "0 < ?m" "bit ?b (?m - 1)" "\<And>j. bit ?b j \<Longrightarrow> j \<le> ?m - 1"
    using msb_loop_bits [OF b(1), of 0] by auto
  have lt: "?m - 1 < 8" using bit_imp_le_length [OF m(2)] by simp
  have len: "BitlistLen bl = (length bl - 1) * 8 + (?m - 1)"
    using b m(1) by (simp add: BitlistLen_def)
  show div: "BitlistLen bl div 8 = length bl - 1"
    using lt by (simp add: len)
  show "bit_at bl (BitlistLen bl)"
    using b(2) lt m(2) by (simp add: bit_at_def len)
  show "j \<le> BitlistLen bl" if j: "bit_at bl j" for j
  proof (cases "j div 8 = length bl - 1")
    case True
    then have "j mod 8 \<le> ?m - 1" using j m(3) by (simp add: bit_at_def)
    then show ?thesis using True len div_mult_mod_eq [of j 8] by linarith
  next
    case False
    then have "j div 8 < length bl - 1" using j by (auto simp: bit_at_def)
    then show ?thesis using div by (metis div_le_mono leD le_cases)
  qed
qed

lemma bitlist_wf_by_sentinel:
  assumes "bit_at bl n" and "length bl = n div 8 + 1"
  shows "bitlist_wf bl"
proof -
  have "bl \<noteq> []" using assms(2) by auto
  moreover have "last bl \<noteq> 0"
    using assms by (auto simp: bit_at_def last_conv_nth \<open>bl \<noteq> []\<close>)
  ultimately show ?thesis by (simp add: bitlist_wf_def)
qed

lemma BitlistLen_by_sentinel:
  assumes "bit_at bl n" and "length bl = n div 8 + 1" and "\<And>j. bit_at bl j \<Longrightarrow> j \<le> n"
  shows "BitlistLen bl = n"
proof -
  have wf: "bitlist_wf bl" using assms(1,2) by (rule bitlist_wf_by_sentinel)
  show ?thesis
    using BitlistLen_sentinel(1,2) [OF wf] assms(1,3) by (meson le_antisym)
qed

lemma length_bits_of [simp]: "length (bits_of bl) = BitlistLen bl"
  by (simp add: bits_of_def)

lemma nth_bits_of [simp]: "i < BitlistLen bl \<Longrightarrow> bits_of bl ! i = bit_at bl i"
  by (simp add: bits_of_def)

subsection \<open>What the operations do to the data bits\<close>

lemma GetBit_bit_at: "GetBit bl idx = bit_at bl (unat idx)"
  by (auto simp: GetBit_def bit_at_def Let_def unat_div unat_mod bit_iff_and_push_bit_not_eq_0)

lemma SetBit_bit_at:
  "bit_at (SetBit bl idx val) j =
     (if j = unat idx \<and> unat idx div 8 < length bl then val else bit_at bl j)"
proof -
  have "SetBit bl idx val =
    (if unat idx div 8 \<ge> length bl then bl
     else if val then or_bit bl (unat idx) else andnot_bit bl (unat idx))"
    by (simp add: SetBit_def Let_def unat_div unat_mod or_bit_def andnot_bit_def)
  then show ?thesis
    by (auto simp: bit_at_or_bit bit_at_andnot_bit)
qed

lemma length_SetBit [simp]: "length (SetBit bl idx val) = length bl"
  by (simp add: SetBit_def Let_def)

lemma CloneBitlist_id [simp]: "CloneBitlist src = src"
  by (simp add: CloneBitlist_def)

lemma bits_of_eqI:
  assumes "BitlistLen bl = length bs" and "\<And>i. i < length bs \<Longrightarrow> bit_at bl i = bs ! i"
  shows "bits_of bl = bs"
  using assms by (intro nth_equalityI) auto

lemma bitlist_len_div: "bitlist_wf bl \<Longrightarrow> length bl = BitlistLen bl div 8 + 1"
  using BitlistLen_sentinel(3) [of bl] by (cases bl) (auto simp: bitlist_wf_def)

text \<open>Setting a data bit of a well-formed bitlist leaves the sentinel alone.\<close>

lemma SetBit_data:
  assumes wf: "bitlist_wf bl" and idx: "unat idx < BitlistLen bl"
  shows "bitlist_wf (SetBit bl idx val)" and "BitlistLen (SetBit bl idx val) = BitlistLen bl"
    and "bits_of (SetBit bl idx val) = (bits_of bl)[unat idx := val]"
proof -
  note sent = BitlistLen_sentinel [OF wf] and len = bitlist_len_div [OF wf]
  have s: "bit_at (SetBit bl idx val) (BitlistLen bl)"
    using sent(1) idx by (simp add: SetBit_bit_at)
  have le: "unat idx div 8 < length bl"
    using len idx div_le_mono [of "unat idx" "BitlistLen bl" 8] by linarith
  have top: "j \<le> BitlistLen bl" if "bit_at (SetBit bl idx val) j" for j
    using that sent(2) idx by (auto simp: SetBit_bit_at split: if_splits)
  show "bitlist_wf (SetBit bl idx val)"
    using s len by (auto intro: bitlist_wf_by_sentinel)
  show l: "BitlistLen (SetBit bl idx val) = BitlistLen bl"
    using s len top by (auto intro: BitlistLen_by_sentinel)
  show "bits_of (SetBit bl idx val) = (bits_of bl)[unat idx := val]"
    using idx le by (intro bits_of_eqI) (auto simp: l SetBit_bit_at nth_list_update)
qed

text \<open>
  The slice after \<open>AppendBit\<close> has grown its storage: the old sentinel is cleared, the new
  data bit written at its place, the new sentinel one position higher. The same holds for the
  empty slice, which \<open>BitlistLen\<close> reads as the empty bitlist.
\<close>

lemma AppendBit_bit_at:
  assumes "bitlist_wf bl \<or> bl = []"
  shows "length (AppendBit bl val) = (BitlistLen bl + 1) div 8 + 1"
    and "bit_at (AppendBit bl val) j \<longleftrightarrow>
      j < BitlistLen bl \<and> bit_at bl j \<or> j = BitlistLen bl \<and> val \<or> j = BitlistLen bl + 1"
proof -
  let ?n = "BitlistLen bl"
  define nb where "nb = (?n + 1 + 1 + 7) div 8"
  define bl1 where "bl1 = take nb (bl @ replicate (nb - length bl) 0)"
  define bl2 where "bl2 = (if ?n > 0 \<and> ?n div 8 < length bl1 then andnot_bit bl1 ?n else bl1)"
  define bl3 where "bl3 = (if val then or_bit bl2 ?n else andnot_bit bl2 ?n)"
  have app: "AppendBit bl val = or_bit bl3 (?n + 1)"
    by (simp only: AppendBit_def bl3_def bl2_def bl1_def nb_def Let_def)
  have nb: "nb = (?n + 1) div 8 + 1" by (simp add: nb_def)
  have len: "length bl \<le> ?n div 8 + 1"
    using assms bitlist_len_div by fastforce
  have top: "bit_at bl i \<Longrightarrow> i \<le> ?n" for i
    using assms BitlistLen_sentinel(2) [of bl] by (auto simp: bit_at_def)
  have len1: "length bl1 = nb" by (simp add: bl1_def)
  then have lens: "length bl2 = nb" "length bl3 = nb" by (auto simp: bl2_def bl3_def)
  then show "length (AppendBit bl val) = (?n + 1) div 8 + 1" by (simp add: app nb)
  have n8: "?n div 8 < nb" "(?n + 1) div 8 < nb" by (auto simp: nb less_Suc_eq_le div_le_mono)
  have b1: "bit_at bl1 i \<longleftrightarrow> bit_at bl i" for i
  proof -
    have "bit_at bl i \<Longrightarrow> i div 8 < nb"
      using len n8(1) by (simp add: bit_at_def)
    then show ?thesis by (auto simp: bl1_def bit_at_take bit_at_append_0)
  qed
  have b2: "i \<noteq> ?n \<Longrightarrow> bit_at bl2 i \<longleftrightarrow> bit_at bl i" for i
    by (simp add: bl2_def bit_at_andnot_bit b1)
  have b2n: "?n > 0 \<Longrightarrow> \<not> bit_at bl2 ?n"
    using n8 by (simp add: bl2_def len1 bit_at_andnot_bit)
  have b3: "bit_at bl3 i \<longleftrightarrow> (if i = ?n then val else bit_at bl i)" for i
    using b2 b2n n8 lens by (cases val) (auto simp: bl3_def bit_at_or_bit bit_at_andnot_bit)
  show "bit_at (AppendBit bl val) j \<longleftrightarrow>
      j < ?n \<and> bit_at bl j \<or> j = ?n \<and> val \<or> j = ?n + 1"
    using n8 lens top [of j] by (auto simp: app bit_at_or_bit b3)
qed

text \<open>
  \<open>MakeBitlist\<close>: \<open>numBits\<close> false bits. At the top of the \<open>uint64\<close> range
  \<open>numBits + 1 + 7\<close> wraps around and the code would index past the slice.
\<close>

lemma MakeBitlist_bits:
  assumes "unat numBits < 18446744073709551608"
  shows "bitlist_wf (MakeBitlist numBits)"
    and "bits_of (MakeBitlist numBits) = replicate (unat numBits) False"
proof -
  let ?n = "unat numBits" and ?bl = "MakeBitlist numBits"
  have "unat (8 + numBits) = ?n + 8"
    using assms by (simp add: unat_plus_if')
  then have nb: "unat ((numBits + 1 + 7) div 8) = ?n div 8 + 1"
    by (simp add: unat_div)
  define k where "k = ?n div 8 + 1"
  have bl: "?bl = or_bit (replicate k 0) ?n"
    using nb by (auto simp: MakeBitlist_def Let_def or_bit_def k_def)
  have len: "length ?bl = ?n div 8 + 1" by (simp add: bl k_def)
  have bits: "bit_at ?bl j \<longleftrightarrow> j = ?n" for j by (auto simp: bl bit_at_or_bit) (simp add: k_def)
  have l: "BitlistLen ?bl = ?n"
    using len by (rule BitlistLen_by_sentinel [rotated]) (simp_all add: bits)
  show "bitlist_wf ?bl" using len by (auto intro: bitlist_wf_by_sentinel simp: bits)
  show "bits_of ?bl = replicate ?n False" by (rule bits_of_eqI) (simp_all add: l bits)
qed

lemma AppendBit_data:
  assumes "bitlist_wf bl \<or> bl = []"
  shows "bitlist_wf (AppendBit bl val)"
    and "BitlistLen (AppendBit bl val) = BitlistLen bl + 1"
    and "bits_of (AppendBit bl val) = bits_of bl @ [val]"
proof -
  let ?n = "BitlistLen bl"
  note app = AppendBit_bit_at [OF assms, of val]
  have s: "bit_at (AppendBit bl val) (?n + 1)" by (simp add: app(2))
  show l: "BitlistLen (AppendBit bl val) = ?n + 1"
    using s app(1) by (rule BitlistLen_by_sentinel) (auto simp: app(2))
  show "bits_of (AppendBit bl val) = bits_of bl @ [val]"
    by (rule bits_of_eqI) (auto simp: l app(2) nth_append less_Suc_eq)
  show "bitlist_wf (AppendBit bl val)" using s app(1) by (rule bitlist_wf_by_sentinel)
qed

text \<open>
  C33: appending a bit to a well-formed (or empty) bitlist yields a well-formed bitlist
  whose data bits are the old ones followed by the new one.
\<close>

theorem AppendBit_refines_append:
  assumes "bitlist_wf bl \<or> bl = []"
  shows "bitlist_wf (AppendBit bl val) \<and> bits_of (AppendBit bl val) = bits_of bl @ [val]"
  using AppendBit_data [OF assms] by simp

theorem AppendBit_refines_append_witness:
  "bitlist_wf (AppendBit [0xFF] True) \<and> bits_of (AppendBit [0xFF] True) = replicate 8 True"
proof -
  have wf: "bitlist_wf [0xFF] \<or> [0xFF] = ([] :: byte list)" by (simp add: bitlist_wf_def)
  have "bits_of [0xFF] = replicate 7 True" by code_simp
  then show ?thesis using AppendBit_refines_append [OF wf, of True]
    by (simp add: numeral_eq_Suc)
qed

end
