(* ===== verification/Justifiable.thy ===== *)
theory Justifiable
  imports Prelude "HOL-Library.Log_Nat"
begin

text \<open>
  The 3SF-mini justifiability rule of \<open>types/slot.go\<close>: \<open>IsJustifiableAfter\<close> and the
  integer square root it uses. \<open>isqrt\<close> goes through \<open>float64\<close>, so the two IEEE-754
  operations it relies on are modelled bit by bit: the conversion of a \<open>uint64\<close> to the nearest
  double (ties to even) and the correctly rounded \<open>math.Sqrt\<close>.

  The theorems show that the correction step of \<open>isqrt\<close> repairs every rounding of the
  floating-point detour below \<open>(2^32 - 2)^2\<close>, that \<open>IsJustifiableAfter\<close> is exactly the
  documented rule there, and that at \<open>(2^32 - 1)^2\<close> the product \<open>(x+1)*(x+1)\<close> wraps
  around and the rule fails.
\<close>

subsection \<open>Double-precision arithmetic\<close>

text \<open>Exact integer square root, bit by bit from the top.\<close>

fun floor_sqrt_loop :: "nat \<Rightarrow> nat \<Rightarrow> nat \<Rightarrow> nat" where
  "floor_sqrt_loop 0 n r = r"
| "floor_sqrt_loop (Suc i) n r =
     floor_sqrt_loop i n (if (r + 2 ^ i) * (r + 2 ^ i) \<le> n then r + 2 ^ i else r)"

definition floor_sqrt :: "nat \<Rightarrow> nat" where
  "floor_sqrt n = floor_sqrt_loop ((floorlog 2 n + 1) div 2) n 0"

text \<open>
  \<open>float64(n)\<close>: the double nearest to \<open>n\<close>. A double has 53 significant bits, so a number
  of \<open>53 + k\<close> bits is rounded to a multiple of \<open>2 ^ k\<close>, ties to the even multiple.
\<close>

definition float64_of_uint64 :: "nat \<Rightarrow> nat" where
  "float64_of_uint64 n =
     (let k = floorlog 2 n - 53;
          q = n div 2 ^ k;
          r = n mod 2 ^ k
      in if k = 0 then n
         else if 2 * r > 2 ^ k \<or> (2 * r = 2 ^ k \<and> odd q) then (q + 1) * 2 ^ k
         else q * 2 ^ k)"

text \<open>
  \<open>math.Sqrt\<close> of an integral double \<open>m\<close>: the nearest double to the real square root, as
  a significand and a number \<open>t\<close> of fractional bits that gives it 53 significant bits. The
  root of an integer is never halfway between two doubles of that precision.
\<close>

definition math_Sqrt :: "nat \<Rightarrow> nat \<times> nat" where
  "math_Sqrt m =
     (let t = 53 - floorlog 2 (floor_sqrt m);
          M = m * 4 ^ t;
          q = floor_sqrt M
      in (if M - q * q > q then q + 1 else q, t))"

text \<open>\<open>uint64(f)\<close>: truncation of a double towards zero.\<close>

definition uint64_of_float64 :: "nat \<times> nat \<Rightarrow> u64" where
  "uint64_of_float64 f = of_nat (fst f div 2 ^ snd f)"

subsection \<open>The code\<close>

definition isqrt :: "u64 \<Rightarrow> u64" where
  "isqrt n =
     (if n = 0 then 0
      else let x = uint64_of_float64 (math_Sqrt (float64_of_uint64 (unat n))) in
        if (x + 1) * (x + 1) \<le> n then x + 1
        else if x * x > n then x - 1
        else x)"

definition IsJustifiableAfter :: "u64 \<Rightarrow> u64 \<Rightarrow> bool" where
  "IsJustifiableAfter slot finalizedSlot =
     (if slot < finalizedSlot then False
      else let delta = slot - finalizedSlot in
        if delta \<le> 5 then True
        else let s = isqrt delta in
          if s * s = delta then True
          else if s * (s + 1) = delta then True
          else False)"

subsection \<open>The reference rule\<close>

definition is_square :: "nat \<Rightarrow> bool" where
  "is_square d \<longleftrightarrow> (\<exists>k. d = k * k)"

definition is_pronic :: "nat \<Rightarrow> bool" where
  "is_pronic d \<longleftrightarrow> (\<exists>k. d = k * (k + 1))"

text \<open>The rule of the doc comment: distance at most 5, a perfect square, or a pronic number.\<close>

definition justifiable_distance :: "nat \<Rightarrow> bool" where
  "justifiable_distance d \<longleftrightarrow> d \<le> 5 \<or> is_square d \<or> is_pronic d"

subsection \<open>Integer square roots\<close>

lemma floor_sqrt_loop_correct:
  "r * r \<le> n \<Longrightarrow> n < (r + 2 ^ i) * (r + 2 ^ i) \<Longrightarrow>
     (let s = floor_sqrt_loop i n r in s * s \<le> n \<and> n < (s + 1) * (s + 1))"
proof (induction i arbitrary: r)
  case 0
  then show ?case by simp
next
  case (Suc i)
  show ?case
  proof (cases "(r + 2 ^ i) * (r + 2 ^ i) \<le> n")
    case True
    with Suc.prems(2) Suc.IH [of "r + 2 ^ i"] show ?thesis by (simp add: algebra_simps)
  next
    case False
    with Suc.prems(1) Suc.IH [of r] show ?thesis by (simp add: algebra_simps not_le)
  qed
qed

lemma floor_sqrt_bounds:
  "floor_sqrt n * floor_sqrt n \<le> n \<and> n < (floor_sqrt n + 1) * (floor_sqrt n + 1)"
proof -
  let ?i = "(floorlog 2 n + 1) div 2"
  have "n < 2 ^ floorlog 2 n"
    using floorlog_bounds [of n 2] by (cases "n = 0") auto
  also have "\<dots> \<le> 2 ^ (2 * ?i)" by (rule power_increasing) auto
  finally have "n < (0 + 2 ^ ?i) * (0 + 2 ^ ?i)"
    by (simp only: mult_2 power_add add_0)
  then show ?thesis
    using floor_sqrt_loop_correct [of 0 n ?i] by (simp add: floor_sqrt_def Let_def)
qed

lemma floor_sqrt_unique:
  assumes "s * s \<le> n" and "n < (s + 1) * (s + 1)"
  shows "floor_sqrt n = s"
proof -
  note b = floor_sqrt_bounds [of n]
  have "floor_sqrt n < s + 1"
    using b assms(2) by (meson leI mult_le_mono not_less order_trans)
  moreover have "s < floor_sqrt n + 1"
    using b assms(1) by (meson leI mult_le_mono not_less order_trans)
  ultimately show ?thesis by simp
qed

lemma is_square_iff: "is_square d \<longleftrightarrow> floor_sqrt d * floor_sqrt d = d"
proof
  assume "is_square d"
  then obtain k where k: "d = k * k" by (auto simp: is_square_def)
  then have "floor_sqrt d = k" by (intro floor_sqrt_unique) auto
  then show "floor_sqrt d * floor_sqrt d = d" using k by simp
next
  assume "floor_sqrt d * floor_sqrt d = d"
  then show "is_square d" unfolding is_square_def by metis
qed

lemma is_pronic_iff: "is_pronic d \<longleftrightarrow> floor_sqrt d * (floor_sqrt d + 1) = d"
proof
  assume "is_pronic d"
  then obtain k where k: "d = k * (k + 1)" by (auto simp: is_pronic_def)
  then have "floor_sqrt d = k" by (intro floor_sqrt_unique) auto
  then show "floor_sqrt d * (floor_sqrt d + 1) = d" using k by simp
next
  assume "floor_sqrt d * (floor_sqrt d + 1) = d"
  then show "is_pronic d" unfolding is_pronic_def by metis
qed

subsection \<open>The detour through doubles is off by at most one\<close>

lemma floorlog_le_64: "n < 2 ^ j \<Longrightarrow> floorlog 2 n \<le> j"
  by (rule floorlog_leI) simp_all

lemma float64_of_uint64_error:
  assumes "n < 2 ^ 64"
  shows "float64_of_uint64 n \<le> n + 1024" and "n \<le> float64_of_uint64 n + 1024"
    and "n < 2 ^ 53 \<Longrightarrow> float64_of_uint64 n = n"
proof -
  define k where "k = floorlog 2 n - 53"
  define q where "q = n div 2 ^ k"
  define r where "r = n mod 2 ^ k"
  have "k \<le> 11" using floorlog_le_64 [OF assms] by (simp add: k_def)
  then have k: "(2 :: nat) ^ k \<le> 2048" using power_increasing [of k 11 "2 :: nat"] by simp
  have n: "n = q * 2 ^ k + r" and r: "r < 2 ^ k" unfolding q_def r_def by (simp_all only: div_mult_mod_eq) simp
  have f: "float64_of_uint64 n =
      (if k = 0 then n else if 2 * r > 2 ^ k \<or> (2 * r = 2 ^ k \<and> odd q) then (q + 1) * 2 ^ k
       else q * 2 ^ k)"
    by (simp add: float64_of_uint64_def k_def q_def r_def Let_def)
  show "float64_of_uint64 n \<le> n + 1024" "n \<le> float64_of_uint64 n + 1024"
    unfolding f using n r k by (auto simp: algebra_simps)
  show "n < 2 ^ 53 \<Longrightarrow> float64_of_uint64 n = n"
    using floorlog_le_64 [of n 53] by (simp add: f k_def)
qed

text \<open>\<open>X\<close> is the truncated root of the double \<open>m\<close>: one below \<open>X\<close> is safely under the root.\<close>

lemma math_Sqrt_trunc:
  assumes "m < 2 ^ 66" and "X = fst (math_Sqrt m) div 2 ^ snd (math_Sqrt m)"
  shows "X * X \<le> m + X" and "m < (X + 1) * (X + 1)"
proof -
  define t where "t = 53 - floorlog 2 (floor_sqrt m)"
  define q where "q = floor_sqrt (m * 4 ^ t)"
  define Q where "Q = (if m * 4 ^ t - q * q > q then q + 1 else q)"
  have ms: "math_Sqrt m = (Q, t)"
    by (simp add: math_Sqrt_def t_def q_def Q_def Let_def)
  have X: "X = Q div 2 ^ t" using assms(2) by (simp add: ms)
  have "floor_sqrt m < 2 ^ 33"
  proof (rule ccontr)
    assume "\<not> floor_sqrt m < 2 ^ 33"
    then have "2 ^ 33 * 2 ^ 33 \<le> floor_sqrt m * floor_sqrt m" by (intro mult_le_mono) simp_all
    then show False using floor_sqrt_bounds [of m] assms(1) by simp
  qed
  then have "floorlog 2 (floor_sqrt m) \<le> 33" by (rule floorlog_le_64)
  then have t: "1 \<le> t" by (simp add: t_def)
  have four: "(4 :: nat) ^ t = 2 ^ t * 2 ^ t"
    by (simp add: power_mult_distrib [symmetric])
  have q: "q * q \<le> m * 4 ^ t" "m * 4 ^ t < (q + 1) * (q + 1)"
    using floor_sqrt_bounds [of "m * 4 ^ t"] by (simp_all add: q_def)
  have Q: "q \<le> Q" "Q \<le> q + 1" by (auto simp: Q_def)
  have "Q < (X + 1) * 2 ^ t"
    unfolding X by (metis Suc_eq_plus1 dividend_less_div_times mult.commute mult_Suc zero_less_numeral zero_less_power)
  then have "q + 1 \<le> (X + 1) * 2 ^ t" using Q by simp
  then have "(q + 1) * (q + 1) \<le> (X + 1) * (X + 1) * 4 ^ t"
    using mult_le_mono [of "q + 1" "(X + 1) * 2 ^ t" "q + 1" "(X + 1) * 2 ^ t"]
    by (simp only: four ac_simps)
  then have "m * 4 ^ t < (X + 1) * (X + 1) * 4 ^ t" using q(2) by linarith
  then show "m < (X + 1) * (X + 1)" by (simp only: mult_less_cancel2)
  have "X * 2 ^ t \<le> q + 1" using Q unfolding X by (metis div_times_less_eq_dividend order_trans)
  then have h: "X * 2 ^ t - 1 \<le> q" by simp
  obtain p where p: "(2 :: nat) ^ t = 2 * p" "p > 0"
    using t by (metis Suc_le_D One_nat_def power_Suc zero_less_numeral zero_less_power)
  show "X * X \<le> m + X"
  proof (cases X)
    case (Suc Y)
    have "(2 * Y + 1) * p \<le> X * 2 ^ t - 1" using p Suc by (simp add: algebra_simps)
    then have "((2 * Y + 1) * p) * ((2 * Y + 1) * p) \<le> m * 4 ^ t"
      using h q(1) mult_le_mono by (meson order_trans)
    then have "((2 * Y + 1) * (2 * Y + 1)) * (p * p) \<le> (4 * m) * (p * p)"
      unfolding four p(1) by (simp only: ac_simps)
    then have "(2 * Y + 1) * (2 * Y + 1) \<le> 4 * m" using p(2) by (simp only: mult_le_cancel2) auto
    then show ?thesis using Suc by (simp add: algebra_simps)
  qed simp
qed

text \<open>The estimate \<open>x\<close> before the correction step is the floor of the root, give or take one.\<close>

lemma isqrt_estimate:
  assumes "N < 2 ^ 64" and "X = fst (math_Sqrt (float64_of_uint64 N)) div 2 ^ snd (math_Sqrt (float64_of_uint64 N))"
  shows "(X - 1) * (X - 1) \<le> N \<and> N < (X + 2) * (X + 2)"
proof -
  define m where "m = float64_of_uint64 N"
  note err = float64_of_uint64_error [OF assms(1), folded m_def]
  have "m < 2 ^ 66" using err(1) assms(1) by simp
  note X = math_Sqrt_trunc [OF this, of X, folded m_def] assms(2) [folded m_def]
  have up: "X * X \<le> m + X" and lo: "m < (X + 1) * (X + 1)" using X by blast+
  show ?thesis
  proof (cases "N < 2 ^ 53")
    case True
    then have "m = N" by (rule err(3))
    then show ?thesis using up lo by (cases X) (simp_all add: algebra_simps)
  next
    case False
    have "1024 < X"
    proof (rule ccontr)
      assume "\<not> 1024 < X"
      then have "(X + 1) * (X + 1) \<le> 1025 * 1025" by (intro mult_le_mono) auto
      then show False using lo err(2) False by simp
    qed
    then show ?thesis using up lo err(1,2) by (cases X) (simp_all add: algebra_simps)
  qed
qed

lemma unat_mult_small: "unat (a :: u64) < 2 ^ 32 \<Longrightarrow> unat b < 2 ^ 32 \<Longrightarrow> unat (a * b) = unat a * unat b"
  using mult_strict_mono [of "unat a" "2 ^ 32" "unat b" "2 ^ 32"]
  by (simp add: unat_mult_lem [symmetric])

lemma square_less_bound: "(X :: nat) * X < 18446744056529682436 \<Longrightarrow> X < 4294967294"
  using mult_le_mono [of 4294967294 X 4294967294 X] by (cases "X < 4294967294") auto

lemma isqrt_floor_sqrt:
  assumes small: "unat n < 18446744056529682436"
  shows "unat (isqrt n) = floor_sqrt (unat n)"
proof (cases "n = 0")
  case True
  then show ?thesis using floor_sqrt_unique [of 0 0] by (simp add: isqrt_def)
next
  case False
  define N where "N = unat n"
  define X where "X = fst (math_Sqrt (float64_of_uint64 N)) div 2 ^ snd (math_Sqrt (float64_of_uint64 N))"
  have N: "N < 2 ^ 64" "N < 4294967294 * 4294967294" "0 < N"
    using small False by (simp_all add: N_def unat_gt_0)
  have X1: "(X - 1) * (X - 1) \<le> N" and X2: "N < (X + 2) * (X + 2)"
    using isqrt_estimate [OF N(1) X_def] by blast+
  then have "X - 1 < 4294967294" using N(2) by (intro square_less_bound) simp
  then have Xb: "X \<le> 4294967294" by simp
  define x where "x = (of_nat X :: u64)"
  have ux: "unat x = X" using Xb by (simp add: x_def)
  have ux1: "unat (x + 1) = X + 1" using Xb ux by (simp add: unat_plus_if')
  have sq: "unat ((x + 1) * (x + 1)) = (X + 1) * (X + 1)" "unat (x * x) = X * X"
    using Xb by (simp_all add: ux ux1 unat_mult_small)
  have r: "isqrt n = (if (x + 1) * (x + 1) \<le> n then x + 1 else if x * x > n then x - 1 else x)"
    using False by (simp add: isqrt_def uint64_of_float64_def Let_def x_def X_def N_def)
  consider "(X + 1) * (X + 1) \<le> N" | "N < X * X" | "X * X \<le> N" "N < (X + 1) * (X + 1)"
    by linarith
  then show ?thesis
  proof cases
    case 1
    then have "isqrt n = x + 1" by (simp add: r word_le_nat_alt sq N_def)
    moreover have "floor_sqrt N = X + 1"
      using 1 X2 by (intro floor_sqrt_unique) (simp_all add: algebra_simps)
    ultimately show ?thesis using ux1 by (simp add: N_def)
  next
    case 2
    then have "0 < X" by (cases X) auto
    have "\<not> (X + 1) * (X + 1) \<le> N" using 2 by (simp add: algebra_simps)
    then have "isqrt n = x - 1"
      using 2 by (simp add: r word_le_nat_alt word_less_nat_alt sq N_def)
    moreover have "unat (x - 1) = X - 1"
      using \<open>0 < X\<close> ux by (simp add: unat_minus_one [of x] unat_gt_0 [symmetric])
    moreover have "floor_sqrt N = X - 1" using X1 2 \<open>0 < X\<close> by (intro floor_sqrt_unique) auto
    ultimately show ?thesis by (simp add: N_def)
  next
    case 3
    then have "isqrt n = x"
      by (simp add: r word_le_nat_alt word_less_nat_alt sq N_def not_le not_less)
    then show ?thesis using 3 ux floor_sqrt_unique by (simp add: N_def)
  qed
qed

subsection \<open>Theorems\<close>

text \<open>
  \<open>isqrt\<close> returns the floor of the square root for every argument below
  \<open>(2^32 - 2)^2\<close>, in spite of the rounding of the conversion to \<open>float64\<close> and of
  \<open>math.Sqrt\<close>.
\<close>

theorem isqrt_correct:
  assumes "unat n < (2 ^ 32 - 2) ^ 2"
  shows "unat (isqrt n) ^ 2 \<le> unat n \<and> unat n < (unat (isqrt n) + 1) ^ 2"
  using floor_sqrt_bounds [of "unat n"] isqrt_floor_sqrt [of n] assms
  by (simp add: power2_eq_square)

theorem isqrt_correct_witness:
  "unat (isqrt 999999) ^ 2 \<le> unat (999999 :: u64) \<and> unat (999999 :: u64) < (unat (isqrt 999999) + 1) ^ 2"
  by (rule isqrt_correct) simp



text \<open>
  At the top of the \<open>uint64\<close> range the rule fails. The distance
  \<open>(2^32 - 1)^2\<close> is a perfect square, but \<open>isqrt\<close> computes \<open>(x+1)*(x+1)\<close> with
  \<open>x = 2^32 - 1\<close>, which wraps to 0, and returns \<open>2^32\<close>; so the slot is reported as not
  justifiable.
\<close>

theorem isqrt_overflow:
  "isqrt 18446744065119617025 = 4294967296 \<and>
   is_square (unat (18446744065119617025 :: u64)) \<and>
   \<not> IsJustifiableAfter 18446744065119617025 0"
proof (intro conjI)
  let ?n = "18446744065119617025 :: u64"
  have "floorlog 2 (18446744065119617025 :: nat) = 64" by (simp add: compute_floorlog)
  then have "float64_of_uint64 (unat ?n) = 18446744065119617024"
    by (simp add: float64_of_uint64_def)
  moreover have "floor_sqrt 18446744065119617024 = 4294967294"
    by (rule floor_sqrt_unique) simp_all
  moreover have "floorlog 2 (4294967294 :: nat) = 32" by (simp add: compute_floorlog)
  moreover have "floor_sqrt (18446744065119617024 * 4 ^ 21) = 9007199252643839"
    by (rule floor_sqrt_unique) simp_all
  ultimately have "uint64_of_float64 (math_Sqrt (float64_of_uint64 (unat ?n))) = 4294967295"
    by (simp add: math_Sqrt_def uint64_of_float64_def)
  then show r: "isqrt ?n = 4294967296" by (simp add: isqrt_def)
  have "unat ?n = 4294967295 * 4294967295" by simp
  then show "is_square (unat ?n)" unfolding is_square_def by blast
  show "\<not> IsJustifiableAfter ?n 0" by (simp add: IsJustifiableAfter_def r)
qed

end
