(* ===== verification/HashWalk.thy ===== *)
theory HashWalk
  imports Types
begin

text \<open>
  The \<open>HashTreeRootWith\<close> methods of \<open>types/*_encoding.go\<close>. Each walks its struct and
  calls a \<open>HashWalker\<close> of the fastssz package: \<open>Index\<close> opens a container,
  \<open>PutUint64\<close>, \<open>PutBytes\<close>, \<open>Append\<close> and \<open>PutBitlist\<close> add leaves,
  \<open>Merkleize\<close> and \<open>MerkleizeWithMixin\<close> close the container opened last. The model of a
  method is the sequence of these calls, or the error the method returns.

  The hasher itself is not part of the repository: it is the parameter \<open>hash\<close> of every
  definition that needs a root, a function from the outcome of a walk to the root and the error of
  \<open>ssz.HashWithDefaultHasher\<close>. The theorems of this theory show that the walk determines the
  value it was made from.
\<close>

subsection \<open>The walker's calls\<close>

datatype ssz_error =
    ErrListTooBig nat nat
  | ErrIncorrectListSize
  | ErrEmptyBitlist
  | ErrBytesLength nat nat
  | ErrSize
  | ErrOffset
  | ErrInvalidVariableOffset
  | ErrDivideInt
  | ErrInvalidBitlist
  | SlicePanic

datatype hh_call =
    HHIndex
  | HHPutUint64 u64
  | HHPutBytes "byte list"
  | HHAppend "byte list"
  | HHPutBitlist "byte list" nat
  | HHMerkleize
  | HHMerkleizeWithMixin u64 nat

type_synonym hash_walk = "ssz_error + hh_call list"
type_synonym hasher = "hash_walk \<Rightarrow> root \<times> ssz_error option"

subsection \<open>Votes\<close>

definition Checkpoint_HashTreeRootWith :: "Checkpoint \<Rightarrow> hash_walk" where
  "Checkpoint_HashTreeRootWith c =
     Inr [HHIndex, HHPutBytes (list_of_bytes (cp_root c)), HHPutUint64 (cp_slot c), HHMerkleize]"

definition Config_HashTreeRootWith :: "Config \<Rightarrow> hash_walk" where
  "Config_HashTreeRootWith c = Inr [HHIndex, HHPutUint64 (cfg_genesis_time c), HHMerkleize]"

definition AttestationData_HashTreeRootWith :: "AttestationData \<Rightarrow> hash_walk" where
  "AttestationData_HashTreeRootWith a =
     and_then (Checkpoint_HashTreeRootWith (ad_head a)) (\<lambda>head.
     and_then (Checkpoint_HashTreeRootWith (ad_target a)) (\<lambda>target.
     and_then (Checkpoint_HashTreeRootWith (ad_source a)) (\<lambda>source.
     Inr ([HHIndex, HHPutUint64 (ad_slot a)] @ head @ target @ source @ [HHMerkleize]))))"

definition Attestation_HashTreeRootWith :: "Attestation \<Rightarrow> hash_walk" where
  "Attestation_HashTreeRootWith a =
     and_then (AttestationData_HashTreeRootWith (att_data a)) (\<lambda>data.
     Inr ([HHIndex, HHPutUint64 (att_validator a)] @ data @ [HHMerkleize]))"

definition SignedAttestation_HashTreeRootWith :: "SignedAttestation \<Rightarrow> hash_walk" where
  "SignedAttestation_HashTreeRootWith s =
     and_then (AttestationData_HashTreeRootWith (sa_message s)) (\<lambda>message.
     Inr ([HHIndex, HHPutUint64 (sa_validator s)] @ message @
       [HHPutBytes (list_of_bytes (sa_signature s)), HHMerkleize]))"

subsection \<open>Blocks\<close>

text \<open>A loop of walks over a slice stops at the first error.\<close>

fun walk_all :: "('a \<Rightarrow> hash_walk) \<Rightarrow> 'a list \<Rightarrow> hash_walk" where
  "walk_all f [] = Inr []"
| "walk_all f (x # xs) =
     and_then (f x) (\<lambda>ops. and_then (walk_all f xs) (\<lambda>rest. Inr (ops @ rest)))"

definition BlockHeader_HashTreeRootWith :: "BlockHeader \<Rightarrow> hash_walk" where
  "BlockHeader_HashTreeRootWith b =
     Inr [HHIndex, HHPutUint64 (bh_slot b), HHPutUint64 (bh_proposer b),
          HHPutBytes (list_of_bytes (bh_parent_root b)),
          HHPutBytes (list_of_bytes (bh_state_root b)),
          HHPutBytes (list_of_bytes (bh_body_root b)), HHMerkleize]"

definition BlockBody_HashTreeRootWith :: "BlockBody \<Rightarrow> hash_walk" where
  "BlockBody_HashTreeRootWith b =
     (let num = length (body_attestations b) in
      if num > 4096 then Inl ErrIncorrectListSize
      else and_then (walk_all Attestation_HashTreeRootWith (body_attestations b)) (\<lambda>atts.
        Inr ([HHIndex, HHIndex] @ atts @ [HHMerkleizeWithMixin (of_nat num) 4096, HHMerkleize])))"

definition Block_HashTreeRootWith :: "Block \<Rightarrow> hash_walk" where
  "Block_HashTreeRootWith b =
     and_then (BlockBody_HashTreeRootWith (b_body b)) (\<lambda>body.
     Inr ([HHIndex, HHPutUint64 (b_slot b), HHPutUint64 (b_proposer b),
           HHPutBytes (list_of_bytes (b_parent_root b)),
           HHPutBytes (list_of_bytes (b_state_root b))] @ body @ [HHMerkleize]))"

text \<open>A \<open>nil\<close> proposer attestation is replaced by \<open>new(Attestation)\<close> before it is walked.\<close>

definition new_Checkpoint :: Checkpoint where
  "new_Checkpoint = \<lparr>cp_root = ZeroHash, cp_slot = 0\<rparr>"

definition new_Attestation :: Attestation where
  "new_Attestation =
     \<lparr>att_validator = 0,
      att_data = \<lparr>ad_slot = 0, ad_head = new_Checkpoint, ad_target = new_Checkpoint,
                  ad_source = new_Checkpoint\<rparr>\<rparr>"

definition BlockWithAttestation_HashTreeRootWith :: "BlockWithAttestation \<Rightarrow> hash_walk" where
  "BlockWithAttestation_HashTreeRootWith b =
     (let proposer = (case bwa_proposer_attestation b of None \<Rightarrow> new_Attestation | Some a \<Rightarrow> a) in
      and_then (Block_HashTreeRootWith (bwa_block b)) (\<lambda>block.
      and_then (Attestation_HashTreeRootWith proposer) (\<lambda>att.
      Inr ([HHIndex] @ block @ att @ [HHMerkleize]))))"

definition SignedBlockWithAttestation_HashTreeRootWith ::
    "SignedBlockWithAttestation \<Rightarrow> hash_walk" where
  "SignedBlockWithAttestation_HashTreeRootWith s =
     and_then (BlockWithAttestation_HashTreeRootWith (sb_message s)) (\<lambda>message.
     let size = length (sb_signature s) in
     if size > 4096 then Inl (ErrListTooBig size 4096)
     else Inr ([HHIndex] @ message @ [HHIndex] @
       map (\<lambda>sig. HHPutBytes (list_of_bytes sig)) (sb_signature s) @
       [HHMerkleizeWithMixin (of_nat size) 4096, HHMerkleize]))"

subsection \<open>The state\<close>

definition Validator_HashTreeRootWith :: "Validator \<Rightarrow> hash_walk" where
  "Validator_HashTreeRootWith v =
     Inr [HHIndex, HHPutBytes (list_of_bytes (val_pubkey v)), HHPutUint64 (val_index v), HHMerkleize]"

text \<open>The walk over a list of roots with a limit, used for two fields of the state.\<close>

definition roots_walk :: "root list \<Rightarrow> nat \<Rightarrow> hash_walk" where
  "roots_walk rs limit =
     (let size = length rs in
      if size > limit then Inl (ErrListTooBig size limit)
      else Inr ([HHIndex] @ map (\<lambda>r. HHAppend (list_of_bytes r)) rs @
        [HHMerkleizeWithMixin (of_nat size) limit]))"

definition bitlist_walk :: "byte list \<Rightarrow> nat \<Rightarrow> hash_walk" where
  "bitlist_walk bl limit =
     (if length bl = 0 then Inl ErrEmptyBitlist else Inr [HHPutBitlist bl limit])"

definition validators_walk :: "Validator list \<Rightarrow> hash_walk" where
  "validators_walk vs =
     (let num = length vs in
      if num > 4096 then Inl ErrIncorrectListSize
      else and_then (walk_all Validator_HashTreeRootWith vs) (\<lambda>ops.
        Inr ([HHIndex] @ ops @ [HHMerkleizeWithMixin (of_nat num) 4096])))"

definition State_HashTreeRootWith :: "State \<Rightarrow> hash_walk" where
  "State_HashTreeRootWith s =
     and_then (Config_HashTreeRootWith (st_config s)) (\<lambda>config.
     and_then (BlockHeader_HashTreeRootWith (st_latest_block_header s)) (\<lambda>header.
     and_then (Checkpoint_HashTreeRootWith (st_latest_justified s)) (\<lambda>justified.
     and_then (Checkpoint_HashTreeRootWith (st_latest_finalized s)) (\<lambda>finalized.
     and_then (roots_walk (st_historical_block_hashes s) 262144) (\<lambda>hist.
     and_then (bitlist_walk (st_justified_slots s) 262144) (\<lambda>slots.
     and_then (validators_walk (st_validators s)) (\<lambda>vals.
     and_then (roots_walk (st_justifications_roots s) 262144) (\<lambda>roots.
     and_then (bitlist_walk (st_justifications_validators s) 1073741824) (\<lambda>votes.
     Inr ([HHIndex] @ config @ [HHPutUint64 (st_slot s)] @ header @ justified @ finalized @
       hist @ slots @ vals @ roots @ votes @ [HHMerkleize]))))))))))"

subsection \<open>Roots\<close>

text \<open>\<open>x.HashTreeRoot()\<close> is \<open>ssz.HashWithDefaultHasher(x)\<close>.\<close>

definition Attestation_HashTreeRoot :: "hasher \<Rightarrow> Attestation \<Rightarrow> root \<times> ssz_error option" where
  "Attestation_HashTreeRoot hash a = hash (Attestation_HashTreeRootWith a)"

definition BlockHeader_HashTreeRoot :: "hasher \<Rightarrow> BlockHeader \<Rightarrow> root \<times> ssz_error option" where
  "BlockHeader_HashTreeRoot hash b = hash (BlockHeader_HashTreeRootWith b)"

definition BlockBody_HashTreeRoot :: "hasher \<Rightarrow> BlockBody \<Rightarrow> root \<times> ssz_error option" where
  "BlockBody_HashTreeRoot hash b = hash (BlockBody_HashTreeRootWith b)"

definition Block_HashTreeRoot :: "hasher \<Rightarrow> Block \<Rightarrow> root \<times> ssz_error option" where
  "Block_HashTreeRoot hash b = hash (Block_HashTreeRootWith b)"

definition State_HashTreeRoot :: "hasher \<Rightarrow> State \<Rightarrow> root \<times> ssz_error option" where
  "State_HashTreeRoot hash s = hash (State_HashTreeRootWith s)"

subsection \<open>A walk determines the value\<close>

definition is_mixin :: "hh_call \<Rightarrow> bool" where
  "is_mixin c \<longleftrightarrow> (case c of HHMerkleizeWithMixin _ _ \<Rightarrow> True | _ \<Rightarrow> False)"

lemma is_mixin_simps [simp]:
  "\<not> is_mixin HHIndex" "\<not> is_mixin (HHPutUint64 n)" "\<not> is_mixin (HHPutBytes bs)"
  "\<not> is_mixin (HHAppend bs)" "\<not> is_mixin (HHPutBitlist bl k)" "\<not> is_mixin HHMerkleize"
  "is_mixin (HHMerkleizeWithMixin n k)"
  by (simp_all add: is_mixin_def)

lemmas fixed_walk_defs =
  Checkpoint_HashTreeRootWith_def Config_HashTreeRootWith_def
  AttestationData_HashTreeRootWith_def Attestation_HashTreeRootWith_def
  BlockHeader_HashTreeRootWith_def Validator_HashTreeRootWith_def

lemma walk_all_Inr: "(\<And>x. f x = Inr (g x)) \<Longrightarrow> walk_all f xs = Inr (concat (map g xs))"
  by (induction xs) auto

definition attestation_calls :: "Attestation \<Rightarrow> hh_call list" where
  "attestation_calls a = projr (Attestation_HashTreeRootWith a)"

lemma attestation_calls:
  "Attestation_HashTreeRootWith a = Inr (attestation_calls a)"
  "length (attestation_calls a) = Suc 17"
  "inj attestation_calls"
  "\<forall>c \<in> set (attestation_calls a). \<not> is_mixin c"
  by (auto simp: attestation_calls_def fixed_walk_defs inj_def list_of_bytes_inject
      intro!: Attestation.equality AttestationData.equality Checkpoint.equality)

definition validator_calls :: "Validator \<Rightarrow> hh_call list" where
  "validator_calls v = projr (Validator_HashTreeRootWith v)"

lemma validator_calls:
  "Validator_HashTreeRootWith v = Inr (validator_calls v)"
  "length (validator_calls v) = Suc 3"
  "inj validator_calls"
  "\<forall>c \<in> set (validator_calls v). \<not> is_mixin c"
  by (auto simp: validator_calls_def fixed_walk_defs inj_def list_of_bytes_inject
      intro!: Validator.equality)

lemmas walks_of_lists =
  walk_all_Inr [OF attestation_calls(1)] walk_all_Inr [OF validator_calls(1)]
  concat_map_fixed_inj [OF attestation_calls(2,3)] concat_map_fixed_inj [OF validator_calls(2,3)]

lemma no_mixin_concat:
  "\<forall>c \<in> set (concat (map attestation_calls as)). \<not> is_mixin c"
  "\<forall>c \<in> set (concat (map validator_calls vs)). \<not> is_mixin c"
  using attestation_calls(4) validator_calls(4) by auto

lemma BlockBody_walk_inj:
  assumes "BlockBody_HashTreeRootWith b = Inr w" and "BlockBody_HashTreeRootWith b' = Inr w'"
    and "w @ r = w' @ r'"
  shows "b = b' \<and> r = r'"
proof -
  let ?f = "\<lambda>b. concat (map attestation_calls (body_attestations b))"
  have "?f b @ HHMerkleizeWithMixin (of_nat (length (body_attestations b))) 4096 # HHMerkleize # r =
        ?f b' @ HHMerkleizeWithMixin (of_nat (length (body_attestations b'))) 4096 # HHMerkleize # r'"
    using assms by (auto simp: BlockBody_HashTreeRootWith_def walks_of_lists Let_def split: if_splits)
  from split_at_first [where P = is_mixin, OF this _ _ no_mixin_concat(1) no_mixin_concat(1)]
  have "?f b = ?f b' \<and> r = r'" by simp
  then show ?thesis using walks_of_lists(3) by (cases b, cases b') auto
qed

lemma roots_walk_inj:
  assumes "roots_walk rs k = Inr w" and "roots_walk rs' k = Inr w'" and "w @ r = w' @ r'"
  shows "rs = rs' \<and> r = r'"
proof -
  let ?f = "map (\<lambda>r :: root. HHAppend (list_of_bytes r))"
  have eq: "?f rs @ HHMerkleizeWithMixin (of_nat (length rs)) k # r =
        ?f rs' @ HHMerkleizeWithMixin (of_nat (length rs')) k # r'"
    using assms by (auto simp: roots_walk_def Let_def split: if_splits)
  have "?f rs = ?f rs' \<and> r = r'"
    using split_at_first [where P = is_mixin, OF eq] by simp
  moreover have "inj (\<lambda>r :: root. HHAppend (list_of_bytes r))"
    by (simp add: inj_def list_of_bytes_inject)
  ultimately show ?thesis by (simp add: inj_map_eq_map)
qed

lemma validators_walk_inj:
  assumes "validators_walk vs = Inr w" and "validators_walk vs' = Inr w'" and "w @ r = w' @ r'"
  shows "vs = vs' \<and> r = r'"
proof -
  let ?f = "\<lambda>vs. concat (map validator_calls vs)"
  have eq: "?f vs @ HHMerkleizeWithMixin (of_nat (length vs)) 4096 # r =
        ?f vs' @ HHMerkleizeWithMixin (of_nat (length vs')) 4096 # r'"
    using assms by (auto simp: validators_walk_def walks_of_lists Let_def split: if_splits)
  from split_at_first [where P = is_mixin, OF this _ _ no_mixin_concat(2) no_mixin_concat(2)]
  show ?thesis using walks_of_lists(4) by auto
qed

lemma bitlist_walk_inj:
  assumes "bitlist_walk bl k = Inr w" and "bitlist_walk bl' k = Inr w'" and "w @ r = w' @ r'"
  shows "bl = bl' \<and> r = r'"
  using assms by (auto simp: bitlist_walk_def split: if_splits)

text \<open>
  C34: two blocks with the same hash walk are equal, so on blocks whose walk succeeds
  (at most 4096 attestations) a collision of block roots is a collision of the hasher.
\<close>

theorem Block_walk_inj:
  assumes "Block_HashTreeRootWith b = Inr w" and "Block_HashTreeRootWith b' = Inr w"
  shows "b = b'"
proof -
  obtain u where u: "BlockBody_HashTreeRootWith (b_body b) = Inr u"
    and w: "w = [HHIndex, HHPutUint64 (b_slot b), HHPutUint64 (b_proposer b),
      HHPutBytes (list_of_bytes (b_parent_root b)), HHPutBytes (list_of_bytes (b_state_root b))] @ u @ [HHMerkleize]"
    using assms(1) by (auto simp: Block_HashTreeRootWith_def and_then_eq_Inr_iff)
  obtain u' where u': "BlockBody_HashTreeRootWith (b_body b') = Inr u'"
    and w': "w = [HHIndex, HHPutUint64 (b_slot b'), HHPutUint64 (b_proposer b'),
      HHPutBytes (list_of_bytes (b_parent_root b')), HHPutBytes (list_of_bytes (b_state_root b'))] @ u' @ [HHMerkleize]"
    using assms(2) by (auto simp: Block_HashTreeRootWith_def and_then_eq_Inr_iff)
  have "u @ [HHMerkleize] = u' @ [HHMerkleize]" using w w' by simp
  from BlockBody_walk_inj [OF u u' this] have "b_body b = b_body b'" by simp
  then show ?thesis using w w' by (intro Block.equality) (simp_all add: list_of_bytes_inject)
qed

theorem Block_walk_inj_witness:
  "\<exists>b w. Block_HashTreeRootWith b = Inr w \<and> (\<forall>b'. Block_HashTreeRootWith b' = Inr w \<longrightarrow> b = b')"
proof -
  define b where "b = \<lparr>b_slot = 1, b_proposer = 1, b_parent_root = ZeroHash, b_state_root = ZeroHash,
    b_body = \<lparr>body_attestations = [new_Attestation]\<rparr>\<rparr>"
  have "\<exists>w. Block_HashTreeRootWith b = Inr w"
    by (simp add: b_def Block_HashTreeRootWith_def BlockBody_HashTreeRootWith_def walks_of_lists)
  then show ?thesis using Block_walk_inj by blast
qed

text \<open>
  Two states with the same hash walk are equal, so a collision of state roots among
  states within the SSZ limits is a collision of the hasher.
\<close>

theorem State_walk_inj:
  assumes "State_HashTreeRootWith s = Inr w" and "State_HashTreeRootWith s' = Inr w"
  shows "s = s'"
proof -
  obtain h1 j1 v1 r1 u1 where
    p1: "roots_walk (st_historical_block_hashes s) 262144 = Inr h1"
      "bitlist_walk (st_justified_slots s) 262144 = Inr j1" "validators_walk (st_validators s) = Inr v1"
      "roots_walk (st_justifications_roots s) 262144 = Inr r1"
      "bitlist_walk (st_justifications_validators s) 1073741824 = Inr u1"
    and w1: "State_HashTreeRootWith s = Inr w"
    using assms(1) by (auto simp: State_HashTreeRootWith_def and_then_eq_Inr_iff)
  obtain h2 j2 v2 r2 u2 where
    p2: "roots_walk (st_historical_block_hashes s') 262144 = Inr h2"
      "bitlist_walk (st_justified_slots s') 262144 = Inr j2" "validators_walk (st_validators s') = Inr v2"
      "roots_walk (st_justifications_roots s') 262144 = Inr r2"
      "bitlist_walk (st_justifications_validators s') 1073741824 = Inr u2"
    and w2: "State_HashTreeRootWith s' = Inr w"
    using assms(2) by (auto simp: State_HashTreeRootWith_def and_then_eq_Inr_iff)
  note eqs = w1 w2 [symmetric]
  have fixed: "st_config s = st_config s'" "st_slot s = st_slot s'"
    "st_latest_block_header s = st_latest_block_header s'"
    "st_latest_justified s = st_latest_justified s'" "st_latest_finalized s = st_latest_finalized s'"
    and tail: "h1 @ j1 @ v1 @ r1 @ u1 @ [HHMerkleize] = h2 @ j2 @ v2 @ r2 @ u2 @ [HHMerkleize]"
    using trans [OF eqs]
    by (auto simp: State_HashTreeRootWith_def p1 p2 fixed_walk_defs list_of_bytes_inject
        intro: Config.equality BlockHeader.equality Checkpoint.equality)
  note t1 = roots_walk_inj [OF p1(1) p2(1) tail]
  note t2 = bitlist_walk_inj [OF p1(2) p2(2) t1 [THEN conjunct2]]
  note t3 = validators_walk_inj [OF p1(3) p2(3) t2 [THEN conjunct2]]
  note t4 = roots_walk_inj [OF p1(4) p2(4) t3 [THEN conjunct2]]
  note t5 = bitlist_walk_inj [OF p1(5) p2(5) t4 [THEN conjunct2]]
  show ?thesis using fixed t1 t2 t3 t4 t5 by (intro State.equality) simp_all
qed

theorem State_walk_inj_witness:
  "\<exists>s w. State_HashTreeRootWith s = Inr w \<and> (\<forall>s'. State_HashTreeRootWith s' = Inr w \<longrightarrow> s = s')"
proof -
  define s where "s = \<lparr>st_config = \<lparr>cfg_genesis_time = 7\<rparr>, st_slot = 3,
    st_latest_block_header = \<lparr>bh_slot = 2, bh_proposer = 0, bh_parent_root = ZeroHash,
      bh_state_root = ZeroHash, bh_body_root = ZeroHash\<rparr>,
    st_latest_justified = new_Checkpoint, st_latest_finalized = new_Checkpoint,
    st_historical_block_hashes = [ZeroHash, bytes_of [1]], st_justified_slots = [5],
    st_validators = [\<lparr>val_pubkey = bytes_of [9], val_index = 0\<rparr>],
    st_justifications_roots = [], st_justifications_validators = [1]\<rparr>"
  have "\<exists>w. State_HashTreeRootWith s = Inr w"
    by (simp add: s_def State_HashTreeRootWith_def fixed_walk_defs roots_walk_def bitlist_walk_def
        validators_walk_def)
  then show ?thesis using State_walk_inj by blast
qed

end
