(* ===== verification/ProcessAttestations.thy ===== *)
theory ProcessAttestations
  imports Types Bitlist Justifiable
begin

text \<open>
  Attestation processing, \<open>chain/statetransition/process_attestations.go\<close>: votes per
  block root are read from the flat SSZ form of the state into a map, every attestation of the block
  is checked and recorded, targets with two thirds of the votes are justified, sources are finalized,
  and the map is written back in the order of the roots.
\<close>

subsection \<open>The code\<close>

text \<open>The working map \<open>map[[32]byte][]bool\<close>.\<close>

type_synonym justifications = "(root \<times> bool list) list"

text \<open>Reading the votes of the \<open>i\<close>-th root out of the flat bitlist.\<close>

definition read_votes :: "byte list \<Rightarrow> u64 \<Rightarrow> nat \<Rightarrow> bool list" where
  "read_votes jv numValidators i =
     map (\<lambda>v. GetBit jv (of_nat i * numValidators + of_nat v)) [0..<unat numValidators]"

fun read_justifications :: "byte list \<Rightarrow> u64 \<Rightarrow> nat \<Rightarrow> root list \<Rightarrow> justifications \<Rightarrow> justifications" where
  "read_justifications jv numValidators i [] m = m"
| "read_justifications jv numValidators i (r # rs) m =
     read_justifications jv numValidators (i + 1) rs
       (AList.update r (read_votes jv numValidators i) m)"

text \<open>The local variables of \<open>ProcessAttestations\<close> that its loop changes.\<close>

record att_vars =
  av_justifications :: justifications
  av_justified_slots :: "byte list"
  av_latest_justified :: Checkpoint
  av_latest_finalized :: Checkpoint

definition count_votes :: "bool list \<Rightarrow> u64" where
  "count_votes votes = foldl (\<lambda>count voted. if voted then count + 1 else count) 0 votes"

text \<open>\<open>for uint64(BitlistLen(justifiedSlots)) <= tgtSlot { AppendBit(..., false) }\<close>.\<close>

lemma BitlistLen_AppendBit_increases: "BitlistLen bl < BitlistLen (AppendBit bl val)"
proof (cases "bitlist_wf bl \<or> bl = []")
  case True
  have "bit_at (AppendBit bl val) (BitlistLen bl + 1)" by (simp add: AppendBit_bit_at [OF True])
  moreover have "bitlist_wf (AppendBit bl val)"
    using calculation AppendBit_bit_at(1) [OF True] by (rule bitlist_wf_by_sentinel)
  ultimately show ?thesis using BitlistLen_sentinel(2) by fastforce
next
  case False
  then have n: "BitlistLen bl = 0" by (auto simp: BitlistLen_def bitlist_wf_def last_conv_nth)
  obtain c where c: "AppendBit bl val = or_bit c 1" and len: "length c = 1"
    using False by (auto simp: AppendBit_def n Let_def bitlist_wf_def intro!: that)
  have "bit_at (AppendBit bl val) 1" by (simp add: c bit_at_or_bit len)
  moreover have "bitlist_wf (AppendBit bl val)"
    using calculation by (rule bitlist_wf_by_sentinel) (simp add: c len)
  ultimately show ?thesis using n BitlistLen_sentinel(2) by fastforce
qed

function extend_justified :: "byte list \<Rightarrow> u64 \<Rightarrow> byte list" where
  "extend_justified js tgtSlot =
     (if BitlistLen js \<le> unat tgtSlot then extend_justified (AppendBit js False) tgtSlot else js)"
  by pat_completeness auto
termination
proof (relation "measure (\<lambda>(js, tgtSlot). Suc (unat tgtSlot) - BitlistLen js)")
  fix js :: "byte list" and tgtSlot :: u64
  assume "BitlistLen js \<le> unat tgtSlot"
  then show "((AppendBit js False, tgtSlot), js, tgtSlot)
      \<in> measure (\<lambda>(js, tgtSlot). Suc (unat tgtSlot) - BitlistLen js)"
    using BitlistLen_AppendBit_increases [of js False] by simp
qed simp

declare extend_justified.simps [simp del]

text \<open>\<open>for s := srcSlot + 1; s < tgtSlot; s++\<close>, leaving at the first justifiable slot.\<close>

function justifiable_gap :: "u64 \<Rightarrow> u64 \<Rightarrow> u64 \<Rightarrow> bool" where
  "justifiable_gap s tgtSlot finalizedSlot =
     (if s < tgtSlot
      then if IsJustifiableAfter s finalizedSlot then True
           else justifiable_gap (s + 1) tgtSlot finalizedSlot
      else False)"
  by pat_completeness auto
termination
proof (relation "measure (\<lambda>(s, tgtSlot, _). unat tgtSlot - unat s)")
  fix s tgtSlot finalizedSlot :: u64
  assume "s < tgtSlot"
  then show "((s + 1, tgtSlot, finalizedSlot), s, tgtSlot, finalizedSlot)
      \<in> measure (\<lambda>(s, tgtSlot, _). unat tgtSlot - unat s)"
    by (simp add: unat_Suc_u64 word_less_nat_alt diff_less_mono2)
qed simp

declare justifiable_gap.simps [simp del]

text \<open>
  The body of the loop over the attestations. Each early \<open>continue\<close> returns the variables as
  they are at that point.
\<close>

definition process_attestation ::
    "State \<Rightarrow> u64 \<Rightarrow> u64 \<Rightarrow> Attestation \<Rightarrow> att_vars \<Rightarrow> att_vars" where
  "process_attestation state numValidators originalFinalizedSlot att vars =
     (let source = ad_source (att_data att);
          target = ad_target (att_data att);
          srcSlot = cp_slot source;
          tgtSlot = cp_slot target;
          js = av_justified_slots vars;
          hist = st_historical_block_hashes state
      in
      if tgtSlot \<le> srcSlot then vars
      else if unat srcSlot \<ge> BitlistLen js \<or> \<not> GetBit js srcSlot then vars
      else if unat tgtSlot < BitlistLen js \<and> GetBit js tgtSlot then vars
      else if unat srcSlot \<ge> length hist \<or> hist ! unat srcSlot \<noteq> cp_root source then vars
      else if unat tgtSlot \<ge> length hist \<or> hist ! unat tgtSlot \<noteq> cp_root target then vars
      else if \<not> IsJustifiableAfter tgtSlot originalFinalizedSlot then vars
      else let validatorID = att_validator att in
      if validatorID \<ge> numValidators then vars
      else
        let js0 = av_justifications vars;
            js1 = (case map_of js0 (cp_root target) of
                     None \<Rightarrow> AList.update (cp_root target) (replicate (unat numValidators) False) js0
                   | Some _ \<Rightarrow> js0);
            votes = the (map_of js1 (cp_root target))
        in
        if votes ! unat validatorID then vars\<lparr>av_justifications := js1\<rparr>
        else
          let votes' = votes[unat validatorID := True];
              js2 = AList.update (cp_root target) votes' js1;
              count = count_votes votes'
          in
          if 3 * count < 2 * numValidators then vars\<lparr>av_justifications := js2\<rparr>
          else
            let justified = SetBit (extend_justified js tgtSlot) tgtSlot True;
                hasJustifiableGap = justifiable_gap (srcSlot + 1) tgtSlot originalFinalizedSlot
            in
            vars\<lparr>av_justifications := AList.delete (cp_root target) js2,
                 av_justified_slots := justified,
                 av_latest_justified := \<lparr>cp_root = cp_root target, cp_slot = tgtSlot\<rparr>,
                 av_latest_finalized :=
                   (if hasJustifiableGap then av_latest_finalized vars
                    else \<lparr>cp_root = cp_root source, cp_slot = srcSlot\<rparr>)\<rparr>)"

definition sortedJustificationRoots :: "justifications \<Rightarrow> root list" where
  "sortedJustificationRoots m = sort (map fst m)"

text \<open>The inner loop of \<open>flattenVotes\<close> over the votes of one root.\<close>

definition write_vote :: "bool \<Rightarrow> byte list \<times> u64 \<Rightarrow> byte list \<times> u64" where
  "write_vote voted p =
     (case p of (bl, bitPos) \<Rightarrow> (if voted then or_bit bl (unat bitPos) else bl, bitPos + 1))"

definition flattenVotes :: "root list \<Rightarrow> justifications \<Rightarrow> u64 \<Rightarrow> byte list" where
  "flattenVotes sortedRoots m numValidators =
     (let totalBits = of_nat (length sortedRoots) * numValidators in
      if totalBits = 0 then [0x01]
      else
        let numBytes = (totalBits + 1 + 7) div 8;
            bl0 = replicate (unat numBytes) 0;
            (bl, _) = fold (\<lambda>root. fold write_vote (case map_of m root of None \<Rightarrow> [] | Some vs \<Rightarrow> vs))
                        sortedRoots (bl0, 0)
        in or_bit bl (unat totalBits))"

definition ProcessAttestations :: "State \<Rightarrow> Attestation list \<Rightarrow> State" where
  "ProcessAttestations state attestations =
     (let numValidators = of_nat (length (st_validators state));
          vars0 = \<lparr>av_justifications =
                     read_justifications (st_justifications_validators state) numValidators 0
                       (st_justifications_roots state) [],
                   av_justified_slots = CloneBitlist (st_justified_slots state),
                   av_latest_justified =
                     \<lparr>cp_root = cp_root (st_latest_justified state),
                      cp_slot = cp_slot (st_latest_justified state)\<rparr>,
                   av_latest_finalized =
                     \<lparr>cp_root = cp_root (st_latest_finalized state),
                      cp_slot = cp_slot (st_latest_finalized state)\<rparr>\<rparr>;
          originalFinalizedSlot = cp_slot (st_latest_finalized state);
          vars = fold (process_attestation state numValidators originalFinalizedSlot) attestations vars0;
          sortedRoots = sortedJustificationRoots (av_justifications vars);
          flatVotes = flattenVotes sortedRoots (av_justifications vars) numValidators
      in (State_Copy state)
           \<lparr>st_justified_slots := av_justified_slots vars,
            st_latest_justified := av_latest_justified vars,
            st_latest_finalized := av_latest_finalized vars,
            st_justifications_roots := sortedRoots,
            st_justifications_validators := flatVotes\<rparr>)"

subsection \<open>Auxiliary loops\<close>

lemma count_votes_foldl:
  "foldl (\<lambda>count voted. if voted then count + 1 else count) c votes =
     c + of_nat (length (filter (\<lambda>b. b) votes))"
  by (induction votes arbitrary: c) (auto simp: algebra_simps)

lemma count_votes_eq: "count_votes votes = of_nat (length (filter (\<lambda>b. b) votes))"
  by (simp add: count_votes_def count_votes_foldl)

lemma extend_justified_noop: "unat tgtSlot < BitlistLen js \<Longrightarrow> extend_justified js tgtSlot = js"
  by (simp add: extend_justified.simps)

lemma justifiable_gap_iff:
  "justifiable_gap s tgtSlot f \<longleftrightarrow> (\<exists>k. s \<le> k \<and> k < tgtSlot \<and> IsJustifiableAfter k f)"
proof (induction s tgtSlot f rule: justifiable_gap.induct)
  case (1 s tgtSlot f)
  show ?case
  proof (cases "s < tgtSlot \<and> \<not> IsJustifiableAfter s f")
    case True
    have "s + 1 \<le> k \<longleftrightarrow> s \<le> k \<and> s \<noteq> k" for k
      using True by (simp add: word_le_nat_alt word_unat_eq_iff unat_Suc_u64 [of s tgtSlot]) linarith
    moreover have "justifiable_gap s tgtSlot f = justifiable_gap (s + 1) tgtSlot f"
      using True by (simp add: justifiable_gap.simps [of s])
    ultimately show ?thesis using "1.IH" True by auto
  next
    case False
    then show ?thesis by (auto simp: justifiable_gap.simps [of s] intro: exI [of _ s] dest: le_less_trans)
  qed
qed

lemma IsJustifiableAfter_refl [simp]: "IsJustifiableAfter f f"
  by (simp add: IsJustifiableAfter_def)

lemma IsJustifiableAfter_ge: "IsJustifiableAfter s f \<Longrightarrow> f \<le> s"
  by (auto simp: IsJustifiableAfter_def not_less split: if_splits)

subsection \<open>One attestation\<close>

text \<open>The checks an attestation must pass before its vote is looked at.\<close>

definition admissible :: "State \<Rightarrow> u64 \<Rightarrow> Attestation \<Rightarrow> byte list \<Rightarrow> bool" where
  "admissible state f att js \<longleftrightarrow>
     (let source = ad_source (att_data att); target = ad_target (att_data att);
          hist = st_historical_block_hashes state in
      cp_slot source < cp_slot target \<and>
      unat (cp_slot source) < BitlistLen js \<and> GetBit js (cp_slot source) \<and>
      \<not> (unat (cp_slot target) < BitlistLen js \<and> GetBit js (cp_slot target)) \<and>
      unat (cp_slot source) < length hist \<and> hist ! unat (cp_slot source) = cp_root source \<and>
      unat (cp_slot target) < length hist \<and> hist ! unat (cp_slot target) = cp_root target \<and>
      IsJustifiableAfter (cp_slot target) f \<and>
      unat (att_validator att) < length (st_validators state))"

definition tally :: "nat \<Rightarrow> justifications \<Rightarrow> root \<Rightarrow> bool list" where
  "tally n m r = (case map_of m r of None \<Rightarrow> replicate n False | Some vs \<Rightarrow> vs)"

definition target_of :: "Attestation \<Rightarrow> Checkpoint" where
  "target_of att = ad_target (att_data att)"

definition source_of :: "Attestation \<Rightarrow> Checkpoint" where
  "source_of att = ad_source (att_data att)"

text \<open>The votes for the target of \<open>att\<close> once it is counted.\<close>

definition new_tally :: "nat \<Rightarrow> Attestation \<Rightarrow> att_vars \<Rightarrow> bool list" where
  "new_tally n att vars =
     (tally n (av_justifications vars) (cp_root (target_of att)))[unat (att_validator att) := True]"

text \<open>A new vote was recorded, without and with a supermajority.\<close>

definition record_vote :: "nat \<Rightarrow> Attestation \<Rightarrow> att_vars \<Rightarrow> att_vars" where
  "record_vote n att vars =
     vars\<lparr>av_justifications :=
       AList.update (cp_root (target_of att)) (new_tally n att vars) (av_justifications vars)\<rparr>"

definition justify_target :: "nat \<Rightarrow> u64 \<Rightarrow> Attestation \<Rightarrow> att_vars \<Rightarrow> att_vars" where
  "justify_target n f att vars =
     (record_vote n att vars)
       \<lparr>av_justifications :=
          AList.delete (cp_root (target_of att)) (av_justifications (record_vote n att vars)),
        av_justified_slots :=
          SetBit (extend_justified (av_justified_slots vars) (cp_slot (target_of att)))
            (cp_slot (target_of att)) True,
        av_latest_justified := target_of att,
        av_latest_finalized :=
          (if justifiable_gap (cp_slot (source_of att) + 1) (cp_slot (target_of att)) f
           then av_latest_finalized vars else source_of att)\<rparr>"

lemma process_attestation_unfold:
  assumes n: "n = length (st_validators state)" "n < 18446744073709551616"
  shows "process_attestation state (of_nat n) f att vars =
    (if \<not> admissible state f att (av_justified_slots vars) \<or>
        tally n (av_justifications vars) (cp_root (target_of att)) ! unat (att_validator att)
     then vars
     else if 3 * count_votes (new_tally n att vars) < 2 * of_nat n then record_vote n att vars
     else justify_target n f att vars)"
proof -
  have v: "att_validator att \<ge> of_nat n \<longleftrightarrow> \<not> unat (att_validator att) < n"
    using n(2) by (simp add: word_le_nat_alt not_less)
  have cp: "\<lparr>cp_root = cp_root c, cp_slot = cp_slot c\<rparr> = c" for c :: Checkpoint by simp
  show ?thesis
  proof (cases "admissible state f att (av_justified_slots vars)")
    case False
    then show ?thesis
      by (auto simp: process_attestation_def admissible_def Let_def v n(1) [symmetric])
  next
    case True
    then show ?thesis
      using n(2) by (cases "map_of (av_justifications vars) (cp_root (target_of att))")
        (auto simp: process_attestation_def admissible_def Let_def v n(1) [symmetric] cp
          record_vote_def justify_target_def new_tally_def tally_def target_of_def source_of_def)
  qed
qed

subsection \<open>The loop invariant\<close>

text \<open>
  What holds of the local variables between two attestations: the justified bits cover exactly the
  historical slots, every tally has one entry per validator, and the latest justified and finalized
  checkpoints are justified slots.
\<close>

definition votes_wf :: "nat \<Rightarrow> justifications \<Rightarrow> bool" where
  "votes_wf n m \<longleftrightarrow> distinct (map fst m) \<and> (\<forall>r vs. map_of m r = Some vs \<longrightarrow> length vs = n)"

definition vars_wf :: "nat \<Rightarrow> root list \<Rightarrow> att_vars \<Rightarrow> bool" where
  "vars_wf n hist vars \<longleftrightarrow>
     bitlist_wf (av_justified_slots vars) \<and> BitlistLen (av_justified_slots vars) = length hist \<and>
     votes_wf n (av_justifications vars) \<and> dom (map_of (av_justifications vars)) \<subseteq> set hist"

definition slot_justified :: "byte list \<Rightarrow> u64 \<Rightarrow> bool" where
  "slot_justified js s \<longleftrightarrow> unat s < BitlistLen js \<and> bit_at js (unat s)"

text \<open>A checkpoint names a justified slot and the chain's block root at that slot.\<close>

definition justified_checkpoint :: "byte list \<Rightarrow> root list \<Rightarrow> Checkpoint \<Rightarrow> bool" where
  "justified_checkpoint js hist c \<longleftrightarrow>
     slot_justified js (cp_slot c) \<and> hist ! unat (cp_slot c) = cp_root c"

definition checkpoints_justified :: "root list \<Rightarrow> att_vars \<Rightarrow> bool" where
  "checkpoints_justified hist vars \<longleftrightarrow>
     justified_checkpoint (av_justified_slots vars) hist (av_latest_justified vars) \<and>
     justified_checkpoint (av_justified_slots vars) hist (av_latest_finalized vars)"

lemma length_tally: "votes_wf n m \<Longrightarrow> length (tally n m r) = n"
  unfolding votes_wf_def tally_def by (cases "map_of m r") (simp_all del: map_of_eq_Some_iff)

lemma length_new_tally: "vars_wf n hist vars \<Longrightarrow> length (new_tally n att vars) = n"
  by (simp add: new_tally_def vars_wf_def length_tally)

lemma votes_wf_update: "votes_wf n m \<Longrightarrow> length vs = n \<Longrightarrow> votes_wf n (AList.update r vs m)"
  unfolding votes_wf_def by (simp del: map_of_eq_Some_iff)

lemma votes_wf_delete: "votes_wf n m \<Longrightarrow> votes_wf n (AList.delete r m)"
  unfolding votes_wf_def by (simp del: map_of_eq_Some_iff)

lemma record_vote_simps [simp]:
  "av_justified_slots (record_vote n att vars) = av_justified_slots vars"
  "av_latest_justified (record_vote n att vars) = av_latest_justified vars"
  "av_latest_finalized (record_vote n att vars) = av_latest_finalized vars"
  by (simp_all add: record_vote_def)

lemma admissible_target: "admissible state f att js \<Longrightarrow>
  unat (cp_slot (target_of att)) < length (st_historical_block_hashes state) \<and>
  st_historical_block_hashes state ! unat (cp_slot (target_of att)) = cp_root (target_of att)"
  by (simp add: admissible_def target_of_def Let_def)

lemma record_vote_wf:
  assumes wf: "vars_wf n (st_historical_block_hashes state) vars"
    and adm: "admissible state f att (av_justified_slots vars)"
  shows "vars_wf n (st_historical_block_hashes state) (record_vote n att vars)"
proof -
  have "cp_root (target_of att) \<in> set (st_historical_block_hashes state)"
    using admissible_target [OF adm] by (metis nth_mem)
  then show ?thesis
    using wf length_new_tally [OF wf, of att]
    by (auto simp: vars_wf_def record_vote_def votes_wf_update)
qed

lemma justify_target_slots:
  assumes wf: "vars_wf n (st_historical_block_hashes state) vars"
    and adm: "admissible state f att (av_justified_slots vars)"
  defines "js \<equiv> av_justified_slots vars" and "js' \<equiv> av_justified_slots (justify_target n f att vars)"
  shows "bitlist_wf js'" and "BitlistLen js' = BitlistLen js"
    and "\<And>i. bit_at js' i \<longleftrightarrow> bit_at js i \<or> i = unat (cp_slot (target_of att))"
proof -
  have t: "unat (cp_slot (target_of att)) < BitlistLen js"
    using wf adm by (simp add: vars_wf_def admissible_def target_of_def js_def Let_def)
  have js': "js' = SetBit js (cp_slot (target_of att)) True"
    using t by (simp add: js'_def justify_target_def extend_justified_noop js_def)
  have bl: "bitlist_wf js" using wf by (simp add: vars_wf_def js_def)
  show "bitlist_wf js'" "BitlistLen js' = BitlistLen js"
    using SetBit_data [OF bl t, of True] by (simp_all add: js')
  have "unat (cp_slot (target_of att)) div 8 < length js"
    using t bitlist_len_div [OF bl] div_le_mono [of _ "BitlistLen js" 8] by (simp add: less_Suc_eq_le)
  then show "bit_at js' i \<longleftrightarrow> bit_at js i \<or> i = unat (cp_slot (target_of att))" for i
    by (simp add: js' SetBit_bit_at)
qed

lemma justify_target_wf:
  assumes wf: "vars_wf n (st_historical_block_hashes state) vars"
    and adm: "admissible state f att (av_justified_slots vars)"
  shows "vars_wf n (st_historical_block_hashes state) (justify_target n f att vars)"
proof -
  note js = justify_target_slots [OF wf adm]
  have r: "vars_wf n (st_historical_block_hashes state) (record_vote n att vars)"
    using wf adm by (rule record_vote_wf)
  have "av_justifications (justify_target n f att vars) =
      AList.delete (cp_root (target_of att)) (av_justifications (record_vote n att vars))"
    by (simp add: justify_target_def)
  then show ?thesis
    using r js(1,2) wf by (auto simp: vars_wf_def votes_wf_delete)
qed

text \<open>
  The three outcomes of one attestation, as a case rule: the proofs about the loop are an induction
  over the attestations with this rule.
\<close>

lemma process_attestation_cases:
  assumes "n = length (st_validators state)" and "n < 18446744073709551616"
  obtains
    (skipped) "process_attestation state (of_nat n) f att vars = vars"
  | (recorded) "process_attestation state (of_nat n) f att vars = record_vote n att vars"
      "admissible state f att (av_justified_slots vars)"
  | (justified) "process_attestation state (of_nat n) f att vars = justify_target n f att vars"
      "admissible state f att (av_justified_slots vars)"
      "\<not> 3 * count_votes (new_tally n att vars) < 2 * of_nat n"
  using process_attestation_unfold [OF assms, of f att vars] by (auto split: if_splits)

lemma process_attestation_wf:
  assumes n: "n = length (st_validators state)" "n < 18446744073709551616"
    and wf: "vars_wf n (st_historical_block_hashes state) vars"
  shows "vars_wf n (st_historical_block_hashes state)
           (process_attestation state (of_nat n) f att vars)"
  using n by (cases rule: process_attestation_cases [where f = f and att = att and vars = vars])
    (simp_all add: wf record_vote_wf justify_target_wf)

lemma process_attestation_checkpoints:
  assumes n: "n = length (st_validators state)" "n < 18446744073709551616"
    and wf: "vars_wf n (st_historical_block_hashes state) vars"
    and cps: "checkpoints_justified (st_historical_block_hashes state) vars"
  shows "checkpoints_justified (st_historical_block_hashes state)
    (process_attestation state (of_nat n) f att vars)"
  using n
proof (cases rule: process_attestation_cases [where f = f and att = att and vars = vars])
  case justified
  note js = justify_target_slots [OF wf justified(2)]
  have "slot_justified (av_justified_slots vars) (cp_slot (source_of att))"
    and "unat (cp_slot (target_of att)) < BitlistLen (av_justified_slots vars)"
    using justified(2) wf
    by (simp_all add: admissible_def slot_justified_def source_of_def target_of_def Let_def
        GetBit_bit_at vars_wf_def)
  moreover have "st_historical_block_hashes state ! unat (cp_slot (source_of att)) = cp_root (source_of att)"
    and "st_historical_block_hashes state ! unat (cp_slot (target_of att)) = cp_root (target_of att)"
    using justified(2) by (simp_all add: admissible_def source_of_def target_of_def Let_def)
  ultimately show ?thesis
    using cps by (simp add: justified(1) checkpoints_justified_def justified_checkpoint_def slot_justified_def js)
      (simp add: justify_target_def)
qed (use cps in \<open>simp_all add: checkpoints_justified_def\<close>)

subsection \<open>The loop over the attestations\<close>

text \<open>What the invariant needs to know about the state: at most 4096 validators (the SSZ limit).\<close>

definition process_all :: "State \<Rightarrow> Attestation list \<Rightarrow> att_vars \<Rightarrow> att_vars" where
  "process_all state =
     fold (process_attestation state (of_nat (length (st_validators state)))
       (cp_slot (st_latest_finalized state)))"

lemma process_all_snoc:
  "process_all state (atts @ [att]) vars =
     process_attestation state (of_nat (length (st_validators state)))
       (cp_slot (st_latest_finalized state)) att (process_all state atts vars)"
  by (simp add: process_all_def)

lemma process_all_Nil [simp]: "process_all state [] vars = vars"
  by (simp add: process_all_def)

lemma validators_bound:
  "length (st_validators state) \<le> 4096 \<Longrightarrow> length (st_validators state) < 18446744073709551616"
  by simp

lemma process_all_wf:
  assumes "length (st_validators state) \<le> 4096"
    and "vars_wf (length (st_validators state)) (st_historical_block_hashes state) vars"
  shows "vars_wf (length (st_validators state)) (st_historical_block_hashes state)
           (process_all state atts vars)"
  using assms(2)
  by (induction atts rule: rev_induct)
    (simp_all add: process_all_snoc process_attestation_wf [OF refl validators_bound [OF assms(1)]])

text \<open>Justified slots stay justified.\<close>

lemma process_all_justified_mono:
  assumes n: "length (st_validators state) \<le> 4096"
    and wf: "vars_wf (length (st_validators state)) (st_historical_block_hashes state) vars"
    and "bit_at (av_justified_slots vars) i"
  shows "bit_at (av_justified_slots (process_all state atts vars)) i"
proof (induction atts rule: rev_induct)
  case Nil
  then show ?case using assms(3) by simp
next
  case (snoc att atts)
  let ?vars = "process_all state atts vars" and ?n = "length (st_validators state)"
  have wf': "vars_wf ?n (st_historical_block_hashes state) ?vars" using n wf by (rule process_all_wf)
  from refl validators_bound [OF n] show ?case
    unfolding process_all_snoc
    by (cases rule: process_attestation_cases [where att = att and vars = ?vars and
          f = "cp_slot (st_latest_finalized state)"])
      (use snoc justify_target_slots(3) [OF wf'] in \<open>simp_all\<close>)
qed

lemma process_all_checkpoints:
  assumes n: "length (st_validators state) \<le> 4096"
    and wf: "vars_wf (length (st_validators state)) (st_historical_block_hashes state) vars"
    and "checkpoints_justified (st_historical_block_hashes state) vars"
  shows "checkpoints_justified (st_historical_block_hashes state) (process_all state atts vars)"
  using assms(3)
  by (induction atts rule: rev_induct)
    (simp_all add: process_all_snoc process_attestation_checkpoints [OF refl validators_bound [OF n]]
      process_all_wf [OF n wf])

text \<open>
  The finalized slot never moves below its value at the start of the block. A source below it would
  leave the finalized slot itself, which is justifiable, between source and target.
\<close>

lemma process_all_finalized_mono:
  assumes n: "length (st_validators state) \<le> 4096"
    and wf: "vars_wf (length (st_validators state)) (st_historical_block_hashes state) vars"
    and fin: "av_latest_finalized vars = st_latest_finalized state"
    and just: "slot_justified (av_justified_slots vars) (cp_slot (st_latest_finalized state))"
  shows "cp_slot (st_latest_finalized state) \<le> cp_slot (av_latest_finalized (process_all state atts vars))"
proof (induction atts rule: rev_induct)
  case Nil
  then show ?case by (simp add: fin)
next
  case (snoc att atts)
  let ?vars = "process_all state atts vars" and ?n = "length (st_validators state)"
  let ?f = "cp_slot (st_latest_finalized state)"
  have wf': "vars_wf ?n (st_historical_block_hashes state) ?vars" using n wf by (rule process_all_wf)
  have bit: "bit_at (av_justified_slots ?vars) (unat ?f)"
    using process_all_justified_mono [OF n wf] just by (simp add: slot_justified_def)
  from refl validators_bound [OF n] show ?case
  proof (cases rule: process_attestation_cases [where att = att and vars = ?vars and f = ?f])
    case justified
    let ?s = "cp_slot (source_of att)" and ?t = "cp_slot (target_of att)"
    have adm: "?s < ?t" "?f \<le> ?t" "\<not> bit_at (av_justified_slots ?vars) (unat ?t)"
      using justified(2) wf' by (auto simp: admissible_def source_of_def target_of_def Let_def
          GetBit_bit_at IsJustifiableAfter_ge vars_wf_def)
    have "justifiable_gap (?s + 1) ?t ?f" if "?s < ?f"
    proof -
      have "?f \<noteq> ?t" using adm(3) bit by auto
      moreover have "?s + 1 \<le> ?f" using that by (simp add: word_le_nat_alt unat_Suc_u64 word_less_nat_alt)
      ultimately show ?thesis using adm(2) by (auto simp: justifiable_gap_iff intro!: exI [of _ ?f])
    qed
    then have "\<not> justifiable_gap (?s + 1) ?t ?f \<Longrightarrow> ?f \<le> ?s" by (meson not_less)
    then show ?thesis using snoc by (auto simp: process_all_snoc justified(1) justify_target_def)
  qed (use snoc in \<open>simp_all add: process_all_snoc\<close>)
qed

subsection \<open>Supermajorities\<close>

text \<open>
  \<open>has_voted\<close>: the validator's vote for the root was on record before the block, or the
  block holds an attestation of that validator with that target root.
\<close>

definition has_voted :: "justifications \<Rightarrow> nat \<Rightarrow> Attestation list \<Rightarrow> root \<Rightarrow> nat \<Rightarrow> bool" where
  "has_voted m n atts r v \<longleftrightarrow>
     v < n \<and> (tally n m r ! v \<or>
       (\<exists>att \<in> set atts. unat (att_validator att) = v \<and> cp_root (target_of att) = r))"

definition voters :: "justifications \<Rightarrow> nat \<Rightarrow> Attestation list \<Rightarrow> root \<Rightarrow> nat set" where
  "voters m n atts r = {v. has_voted m n atts r v}"

lemma finite_voters [simp]: "finite (voters m n atts r)"
  by (rule finite_subset [of _ "{..<n}"]) (auto simp: voters_def has_voted_def)

lemma voters_mono: "set atts \<subseteq> set atts' \<Longrightarrow> voters m n atts r \<subseteq> voters m n atts' r"
  by (auto simp: voters_def has_voted_def)

text \<open>Every vote in the working map is a vote that was cast.\<close>

definition votes_cast :: "justifications \<Rightarrow> nat \<Rightarrow> Attestation list \<Rightarrow> att_vars \<Rightarrow> bool" where
  "votes_cast m n atts vars \<longleftrightarrow>
     (\<forall>r. {v. v < n \<and> tally n (av_justifications vars) r ! v} \<subseteq> voters m n atts r)"

lemma tally_update: "tally n (AList.update r vs m) r' = (if r' = r then vs else tally n m r')"
  by (simp add: tally_def)

lemma tally_delete: "tally n (AList.delete r m) r' = (if r' = r then replicate n False else tally n m r')"
  by (simp add: tally_def)

lemma votes_cast_mono: "votes_cast m n atts vars \<Longrightarrow> votes_cast m n (atts @ [att]) vars"
  using voters_mono [of atts "atts @ [att]"] by (fastforce simp: votes_cast_def)

lemma new_tally_cast:
  assumes "vars_wf n hist vars" and "votes_cast m n atts vars"
  shows "{v. v < n \<and> new_tally n att vars ! v} \<subseteq> voters m n (atts @ [att]) (cp_root (target_of att))"
proof
  fix v assume v: "v \<in> {v. v < n \<and> new_tally n att vars ! v}"
  have "length (tally n (av_justifications vars) (cp_root (target_of att))) = n"
    using assms(1) by (simp add: vars_wf_def length_tally)
  then consider "v = unat (att_validator att)" | "tally n (av_justifications vars) (cp_root (target_of att)) ! v"
    using v by (cases "v = unat (att_validator att)") (auto simp: new_tally_def)
  then show "v \<in> voters m n (atts @ [att]) (cp_root (target_of att))"
  proof cases
    case 1
    then show ?thesis using v by (auto simp: voters_def has_voted_def)
  next
    case 2
    then show ?thesis
      using v votes_cast_mono [OF assms(2), of att] by (auto simp: votes_cast_def)
  qed
qed

lemma process_attestation_votes_cast:
  assumes n: "n = length (st_validators state)" "n < 18446744073709551616"
    and wf: "vars_wf n (st_historical_block_hashes state) vars"
    and cast: "votes_cast m n atts vars"
  shows "votes_cast m n (atts @ [att]) (process_attestation state (of_nat n) f att vars)"
proof -
  note new = new_tally_cast [OF wf cast, of att] and old = votes_cast_mono [OF cast, of att]
  from n show ?thesis
    by (cases rule: process_attestation_cases [where f = f and att = att and vars = vars])
      (use new old in \<open>auto simp: votes_cast_def record_vote_def justify_target_def tally_update
        tally_delete split: if_splits\<close>)
qed

lemma supermajority_nat:
  assumes "\<not> 3 * count_votes vs < 2 * of_nat n" and "length vs = n" and "n \<le> 4096"
  shows "2 * n \<le> 3 * card {v. v < n \<and> vs ! v}"
proof -
  let ?c = "length (filter (\<lambda>b. b) vs)"
  have c: "?c = card {v. v < n \<and> vs ! v}" using assms(2) by (simp add: length_filter_conv_card)
  have "?c \<le> 4096" using length_filter_le [of "\<lambda>b. b" vs] assms(2,3) by linarith
  then have "unat (3 * count_votes vs) = 3 * ?c" "unat (2 * of_nat n :: u64) = 2 * n"
    using assms(3) by (simp_all add: count_votes_eq unat_word_ariths)
  then show ?thesis using assms(1) by (simp add: word_less_nat_alt c)
qed

text \<open>Every slot justified by the loop has the votes of two thirds of the validators.\<close>

lemma process_all_supermajority:
  assumes n: "n = length (st_validators state)" "n \<le> 4096"
    and wf: "vars_wf n (st_historical_block_hashes state) vars"
    and new: "bit_at (av_justified_slots (process_all state atts vars)) i"
      "\<not> bit_at (av_justified_slots vars) i"
  shows "2 * n \<le> 3 * card (voters (av_justifications vars) n atts (st_historical_block_hashes state ! i))"
proof -
  let ?m = "av_justifications vars" and ?hist = "st_historical_block_hashes state"
  let ?f = "cp_slot (st_latest_finalized state)"
  have "votes_cast ?m n atts (process_all state atts vars) \<and>
    (bit_at (av_justified_slots (process_all state atts vars)) i \<longrightarrow> \<not> bit_at (av_justified_slots vars) i \<longrightarrow>
      2 * n \<le> 3 * card (voters ?m n atts (?hist ! i)))"
  proof (induction atts rule: rev_induct)
    case Nil
    show ?case by (auto simp: votes_cast_def voters_def has_voted_def)
  next
    case (snoc att atts)
    let ?vars = "process_all state atts vars" and ?r = "cp_root (target_of att)"
    have bound: "n < 18446744073709551616" using n(2) by simp
    have wf': "vars_wf n ?hist ?vars" using process_all_wf [of state vars] n wf by simp
    have cast: "votes_cast ?m n (atts @ [att]) (process_all state (atts @ [att]) vars)"
      using process_attestation_votes_cast [OF n(1) bound wf', of ?m atts att ?f] snoc n
      by (simp add: process_all_snoc)
    have grow: "card (voters ?m n atts r) \<le> card (voters ?m n (atts @ [att]) r)" for r
      by (intro card_mono voters_mono) auto
    from n(1) bound show ?case
    proof (cases rule: process_attestation_cases [where f = ?f and att = att and vars = ?vars])
      case justified
      have "2 * n \<le> 3 * card {v. v < n \<and> new_tally n att ?vars ! v}"
        using supermajority_nat [OF justified(3) length_new_tally [OF wf'] n(2)] .
      also have "card {v. v < n \<and> new_tally n att ?vars ! v} \<le> card (voters ?m n (atts @ [att]) ?r)"
        using new_tally_cast [OF wf'] snoc by (intro card_mono) auto
      finally have "2 * n \<le> 3 * card (voters ?m n (atts @ [att]) ?r)" by simp
      then show ?thesis
        using cast snoc grow [of "?hist ! i"] admissible_target [OF justified(2)]
          justify_target_slots(3) [OF wf' justified(2)]
        by (auto simp: process_all_snoc n(1) [symmetric] justified(1))
    qed (use cast snoc grow [of "?hist ! i"] in \<open>auto simp: process_all_snoc n(1) [symmetric]\<close>)
  qed
  then show ?thesis using new by blast
qed

subsection \<open>The flat form of the votes\<close>

lemma write_votes_bits:
  assumes "unat pos + length vs \<le> 8 * length bl" and "unat pos + length vs < 18446744073709551616"
  shows "length (fst (fold write_vote vs (bl, pos))) = length bl"
    and "bit_at (fst (fold write_vote vs (bl, pos))) j \<longleftrightarrow>
      bit_at bl j \<or> unat pos \<le> j \<and> j < unat pos + length vs \<and> vs ! (j - unat pos)"
proof -
  have "length (fst (fold write_vote vs (bl, pos))) = length bl \<and>
    (bit_at (fst (fold write_vote vs (bl, pos))) j \<longleftrightarrow>
      bit_at bl j \<or> unat pos \<le> j \<and> j < unat pos + length vs \<and> vs ! (j - unat pos))"
    using assms
  proof (induction vs arbitrary: bl pos)
    case Nil
    then show ?case by auto
  next
    case (Cons v vs)
    let ?bl = "if v then or_bit bl (unat pos) else bl"
    have pos: "unat (pos + 1) = Suc (unat pos)"
      using Cons.prems(2) by (simp add: unat_plus_if')
    have ih: "length (fst (fold write_vote vs (?bl, pos + 1))) = length bl \<and>
      (bit_at (fst (fold write_vote vs (?bl, pos + 1))) j \<longleftrightarrow>
        bit_at ?bl j \<or> Suc (unat pos) \<le> j \<and> j < Suc (unat pos) + length vs \<and> vs ! (j - Suc (unat pos)))"
      using Cons.IH [of "pos + 1" ?bl] Cons.prems by (simp add: pos)
    have in_range: "unat pos div 8 < length bl" using Cons.prems(1) by simp
    have step: "fold write_vote (v # vs) (bl, pos) = fold write_vote vs (?bl, pos + 1)"
      by (simp add: write_vote_def)
    show ?case
      unfolding step using ih in_range
      by (cases "j = unat pos") (auto simp: bit_at_or_bit nth_Cons')
  qed
  then show "length (fst (fold write_vote vs (bl, pos))) = length bl"
    and "bit_at (fst (fold write_vote vs (bl, pos))) j \<longleftrightarrow>
      bit_at bl j \<or> unat pos \<le> j \<and> j < unat pos + length vs \<and> vs ! (j - unat pos)"
    by blast+
qed

definition votes_of :: "justifications \<Rightarrow> root \<Rightarrow> bool list" where
  "votes_of m r = (case map_of m r of None \<Rightarrow> [] | Some vs \<Rightarrow> vs)"

lemma flattenVotes_bits:
  assumes lens: "\<forall>r \<in> set roots. length (votes_of m r) = n"
    and bound: "length roots * n < 18446744073709551608" "n < 18446744073709551616"
  shows "bitlist_wf (flattenVotes roots m (of_nat n))"
    and "bits_of (flattenVotes roots m (of_nat n)) = concat (map (votes_of m) roots)"
proof -
  define vs where "vs = concat (map (votes_of m) roots)"
  define T where "T = length roots * n"
  have len: "length vs = T" unfolding vs_def T_def using lens length_concat_equal [of "map (votes_of m) roots" n] by simp
  have tot: "unat (of_nat (length roots) * of_nat n :: u64) = T"
    using bound by (simp add: T_def of_nat_mult [symmetric] del: of_nat_mult)
  define bl where "bl = flattenVotes roots m (of_nat n)"
  have "length bl = T div 8 + 1 \<and> (\<forall>j. bit_at bl j \<longleftrightarrow> j = T \<or> j < T \<and> vs ! j)"
  proof (cases "T = 0")
    case True
    then have "of_nat (length roots) * of_nat n = (0 :: u64)" using tot by (simp add: unat_eq_0)
    then have "bl = [0x01]" by (simp add: bl_def flattenVotes_def)
    then show ?thesis using True by (auto simp: bit_at_def nth_Cons' bit_1_iff)
  next
    case False
    let ?total = "of_nat (length roots) * of_nat n :: u64"
    have nz: "?total \<noteq> 0" using tot False by auto
    have "unat (?total + 1 + 7) = T + 8"
      using tot bound(1) by (simp add: unat_plus_if' T_def add.assoc)
    then have nb: "unat ((?total + 1 + 7) div 8) = T div 8 + 1" by (simp add: unat_div)
    let ?bl0 = "replicate (T div 8 + 1) 0 :: byte list"
    have bl: "bl = or_bit (fst (fold write_vote vs (?bl0, 0))) T"
      using nz by (simp only: bl_def flattenVotes_def Let_def if_False nb tot
          fold_concat_map votes_of_def [symmetric] vs_def case_prod_beta)
    have "unat (0 :: u64) + length vs \<le> 8 * length ?bl0" "unat (0 :: u64) + length vs < 18446744073709551616"
      using len bound(1) T_def by simp_all
    note w = write_votes_bits [OF this]
    show ?thesis using w len by (auto simp: bl bit_at_or_bit simp del: replicate_Suc replicate.simps)
  qed
  then have l: "length bl = T div 8 + 1" and bits: "bit_at bl j \<longleftrightarrow> j = T \<or> j < T \<and> vs ! j" for j
    by auto
  have "bit_at bl T" by (simp add: bits)
  then show "bitlist_wf (flattenVotes roots m (of_nat n))"
    using l bl_def bitlist_wf_by_sentinel by blast
  have "BitlistLen bl = T"
    using \<open>bit_at bl T\<close> l by (rule BitlistLen_by_sentinel) (auto simp: bits)
  then show "bits_of (flattenVotes roots m (of_nat n)) = concat (map (votes_of m) roots)"
    unfolding bl_def [symmetric] vs_def [symmetric] by (intro bits_of_eqI) (simp_all add: len bits)
qed

lemma read_votes_bits:
  assumes "i * n + n \<le> 18446744073709551608" and "n < 18446744073709551616"
  shows "read_votes jv (of_nat n) i = map (\<lambda>v. bit_at jv (i * n + v)) [0..<n]"
proof -
  have "unat (of_nat i * of_nat n + of_nat v :: u64) = i * n + v" if "v < n" for v
  proof -
    have "of_nat i * of_nat n + of_nat v = (of_nat (i * n + v) :: u64)" by simp
    moreover have "i * n + v < 18446744073709551616" using assms(1) that by linarith
    ultimately show ?thesis by (simp only: unat_of_nat_u64)
  qed
  then show ?thesis using assms(2) by (simp add: read_votes_def GetBit_bit_at)
qed

lemma read_justifications_distinct:
  "distinct (map fst m) \<Longrightarrow> distinct (map fst (read_justifications jv nv i rs m))"
  by (induction rs arbitrary: i m) simp_all

lemma read_justifications_other:
  "r \<notin> set rs \<Longrightarrow> map_of (read_justifications jv nv i rs m) r = map_of m r"
  by (induction rs arbitrary: i m) simp_all

lemma read_justifications_nth:
  "distinct rs \<Longrightarrow> k < length rs \<Longrightarrow>
     map_of (read_justifications jv nv i rs m) (rs ! k) = Some (read_votes jv nv (i + k))"
proof (induction rs arbitrary: i m k)
  case (Cons r rs)
  then show ?case by (cases k) (simp_all add: read_justifications_other)
qed simp

lemma length_read_votes [simp]: "length (read_votes jv nv i) = unat nv"
  by (simp add: read_votes_def)

lemma read_justifications_lengths:
  "map_of (read_justifications jv nv i rs []) r = Some vs \<Longrightarrow> distinct rs \<Longrightarrow> length vs = unat nv"
  using read_justifications_other [of r rs jv nv i "[]"] read_justifications_nth [of rs _ jv nv i "[]"]
  by (cases "r \<in> set rs") (fastforce simp: in_set_conv_nth)+

lemma sortedJustificationRoots_props:
  assumes "distinct (map fst m)"
  shows "distinct (sortedJustificationRoots m)" and "sorted (sortedJustificationRoots m)"
    and "set (sortedJustificationRoots m) = dom (map_of m)"
    and "length (sortedJustificationRoots m) = length m"
  using assms by (simp_all add: sortedJustificationRoots_def dom_map_of_conv_image_fst)

lemma read_votes_flattenVotes:
  assumes lens: "\<forall>r \<in> set rs. length (votes_of m r) = n"
    and bound: "length rs * n < 18446744073709551608" "n < 18446744073709551616"
    and k: "k < length rs"
  shows "read_votes (flattenVotes rs m (of_nat n)) (of_nat n) k = votes_of m (rs ! k)"
proof -
  let ?jv = "flattenVotes rs m (of_nat n)" and ?vs = "concat (map (votes_of m) rs)"
  note flat = flattenVotes_bits [OF lens bound]
  have tot: "length ?vs = length rs * n"
    using lens length_concat_equal [of "map (votes_of m) rs" n] by simp
  have kn: "k * n + n \<le> length rs * n" using k by (metis Suc_leI add.commute mult_Suc mult_le_mono1)
  have bits: "bit_at ?jv (k * n + v) = ?vs ! (k * n + v)" if "v < n" for v
  proof -
    have "k * n + v < BitlistLen ?jv" using kn flat(2) tot that
      by (metis add_less_cancel_left length_bits_of less_le_trans)
    then show ?thesis by (metis flat(2) nth_bits_of)
  qed
  have "read_votes ?jv (of_nat n) k = map (\<lambda>v. ?vs ! (k * n + v)) [0..<n]"
    using kn bound by (simp add: read_votes_bits bits)
  also have "\<dots> = map (\<lambda>v. votes_of m (rs ! k) ! v) [0..<n]"
    using k lens nth_concat_equal [of "map (votes_of m) rs" n k] by simp
  also have "\<dots> = votes_of m (rs ! k)" using k lens by (metis map_nth nth_mem)
  finally show ?thesis .
qed

text \<open>
  Writing the working map to the flat SSZ form (sorted roots and one bitlist) and reading it back
  gives the same map.
\<close>

lemma read_flattenVotes:
  assumes wf: "votes_wf n m" and bound: "length m * n < 18446744073709551608" "n < 18446744073709551616"
  shows "map_of (read_justifications
      (flattenVotes (sortedJustificationRoots m) m (of_nat n)) (of_nat n) 0
      (sortedJustificationRoots m) []) = map_of m"
proof
  let ?rs = "sortedJustificationRoots m"
  let ?jv = "flattenVotes ?rs m (of_nat n)"
  have d: "distinct (map fst m)" and lens: "map_of m r = Some vs \<Longrightarrow> length vs = n" for r vs
    using wf unfolding votes_wf_def by blast+
  note rs = sortedJustificationRoots_props [OF d]
  have lens': "\<forall>r \<in> set ?rs. length (votes_of m r) = n"
    using rs(3) lens by (auto simp: votes_of_def)
  fix r
  show "map_of (read_justifications ?jv (of_nat n) 0 ?rs []) r = map_of m r"
  proof (cases "r \<in> set ?rs")
    case False
    then show ?thesis using rs(3) by (auto simp: read_justifications_other domIff)
  next
    case True
    then obtain k where k: "k < length ?rs" "r = ?rs ! k" by (auto simp: in_set_conv_nth)
    have "read_votes ?jv (of_nat n) k = votes_of m r"
      using read_votes_flattenVotes [OF lens' _ bound(2) k(1)] bound(1) rs(4) k(2) by simp
    then have "map_of (read_justifications ?jv (of_nat n) 0 ?rs []) r = Some (votes_of m r)"
      using read_justifications_nth [OF rs(1) k(1), of ?jv "of_nat n" 0 "[]"] k(2) by simp
    then show ?thesis using True rs(3) by (auto simp: votes_of_def)
  qed
qed

subsection \<open>The state before and after\<close>

text \<open>The votes on record in a state.\<close>

definition recorded_votes :: "State \<Rightarrow> justifications" where
  "recorded_votes s =
     read_justifications (st_justifications_validators s) (of_nat (length (st_validators s))) 0
       (st_justifications_roots s) []"

text \<open>
  Well-formed states: at most 4096 validators (the SSZ limit), less than \<open>2^50\<close> historical slots,
  one justified bit per historical slot, and votes on record for historical roots only, one bit per
  root and validator.
\<close>

definition state_wf :: "State \<Rightarrow> bool" where
  "state_wf s \<longleftrightarrow>
     length (st_validators s) \<le> 4096 \<and>
     length (st_historical_block_hashes s) < 2 ^ 50 \<and>
     bitlist_wf (st_justified_slots s) \<and>
     BitlistLen (st_justified_slots s) = length (st_historical_block_hashes s) \<and>
     distinct (st_justifications_roots s) \<and>
     set (st_justifications_roots s) \<subseteq> set (st_historical_block_hashes s) \<and>
     bitlist_wf (st_justifications_validators s) \<and>
     BitlistLen (st_justifications_validators s) =
       length (st_justifications_roots s) * length (st_validators s)"

text \<open>The latest justified and finalized checkpoints are justified blocks of the chain.\<close>

definition checkpoints_wf :: "State \<Rightarrow> bool" where
  "checkpoints_wf s \<longleftrightarrow>
     justified_checkpoint (st_justified_slots s) (st_historical_block_hashes s) (st_latest_justified s) \<and>
     justified_checkpoint (st_justified_slots s) (st_historical_block_hashes s) (st_latest_finalized s)"

definition initial_vars :: "State \<Rightarrow> att_vars" where
  "initial_vars s =
     \<lparr>av_justifications = recorded_votes s, av_justified_slots = st_justified_slots s,
      av_latest_justified = st_latest_justified s, av_latest_finalized = st_latest_finalized s\<rparr>"

lemma initial_vars_simps [simp]:
  "av_justifications (initial_vars s) = recorded_votes s"
  "av_justified_slots (initial_vars s) = st_justified_slots s"
  "av_latest_justified (initial_vars s) = st_latest_justified s"
  "av_latest_finalized (initial_vars s) = st_latest_finalized s"
  by (simp_all add: initial_vars_def)

definition final_vars :: "State \<Rightarrow> Attestation list \<Rightarrow> att_vars" where
  "final_vars s atts = process_all s atts (initial_vars s)"

lemma ProcessAttestations_final_vars:
  "ProcessAttestations s atts =
     s\<lparr>st_justified_slots := av_justified_slots (final_vars s atts),
       st_latest_justified := av_latest_justified (final_vars s atts),
       st_latest_finalized := av_latest_finalized (final_vars s atts),
       st_justifications_roots := sortedJustificationRoots (av_justifications (final_vars s atts)),
       st_justifications_validators :=
         flattenVotes (sortedJustificationRoots (av_justifications (final_vars s atts)))
           (av_justifications (final_vars s atts)) (of_nat (length (st_validators s)))\<rparr>"
proof -
  have init: "\<lparr>av_justifications =
       read_justifications (st_justifications_validators s) (of_nat (length (st_validators s))) 0
         (st_justifications_roots s) [],
     av_justified_slots = CloneBitlist (st_justified_slots s),
     av_latest_justified =
       \<lparr>cp_root = cp_root (st_latest_justified s), cp_slot = cp_slot (st_latest_justified s)\<rparr>,
     av_latest_finalized =
       \<lparr>cp_root = cp_root (st_latest_finalized s), cp_slot = cp_slot (st_latest_finalized s)\<rparr>\<rparr> =
     initial_vars s"
    by (simp add: initial_vars_def recorded_votes_def)
  show ?thesis
    by (simp only: ProcessAttestations_def Let_def init final_vars_def process_all_def State_Copy_id)
qed

lemma ProcessAttestations_frame [simp]:
  "st_config (ProcessAttestations s atts) = st_config s"
  "st_slot (ProcessAttestations s atts) = st_slot s"
  "st_latest_block_header (ProcessAttestations s atts) = st_latest_block_header s"
  "st_historical_block_hashes (ProcessAttestations s atts) = st_historical_block_hashes s"
  "st_validators (ProcessAttestations s atts) = st_validators s"
  by (simp_all add: ProcessAttestations_final_vars)

lemma recorded_votes_wf:
  assumes "state_wf s"
  shows "votes_wf (length (st_validators s)) (recorded_votes s)"
    and "dom (map_of (recorded_votes s)) \<subseteq> set (st_historical_block_hashes s)"
proof -
  have n: "unat (of_nat (length (st_validators s)) :: u64) = length (st_validators s)"
    and d: "distinct (st_justifications_roots s)"
    using assms by (simp_all add: state_wf_def)
  show "votes_wf (length (st_validators s)) (recorded_votes s)"
    unfolding votes_wf_def recorded_votes_def
    using read_justifications_lengths d n read_justifications_distinct [of "[]"] by fastforce
  have "dom (map_of (recorded_votes s)) \<subseteq> set (st_justifications_roots s)"
    unfolding recorded_votes_def using read_justifications_other by fastforce
  then show "dom (map_of (recorded_votes s)) \<subseteq> set (st_historical_block_hashes s)"
    using assms by (auto simp: state_wf_def)
qed

lemma initial_vars_wf:
  "state_wf s \<Longrightarrow> vars_wf (length (st_validators s)) (st_historical_block_hashes s) (initial_vars s)"
  using recorded_votes_wf [of s] by (simp add: vars_wf_def state_wf_def)

lemma final_vars_wf:
  assumes "state_wf s"
  shows "vars_wf (length (st_validators s)) (st_historical_block_hashes s) (final_vars s atts)"
  unfolding final_vars_def using assms by (intro process_all_wf initial_vars_wf) (simp_all add: state_wf_def)

text \<open>The number of tracked roots is bounded by the history, so the flat form never overflows.\<close>

lemma tracked_votes_bound:
  assumes "state_wf s" and "vars_wf (length (st_validators s)) (st_historical_block_hashes s) vars"
  shows "length (av_justifications vars) * length (st_validators s) < 18446744073709551608"
proof -
  let ?m = "av_justifications vars"
  have "distinct (map fst ?m)" using assms(2) by (simp add: vars_wf_def votes_wf_def)
  then have "length ?m = card (dom (map_of ?m))"
    by (metis distinct_card length_map set_keys_map_of)
  also have "\<dots> \<le> card (set (st_historical_block_hashes s))"
    using assms(2) by (intro card_mono) (simp_all add: vars_wf_def)
  also have "\<dots> \<le> length (st_historical_block_hashes s)" by (rule card_length)
  finally have "length ?m < 2 ^ 50" using assms(1) by (simp add: state_wf_def)
  then have "length ?m * length (st_validators s) \<le> 2 ^ 50 * 4096"
    using assms(1) by (intro mult_le_mono) (simp_all add: state_wf_def)
  then show ?thesis by simp
qed

lemma final_flat_votes:
  fixes atts :: "Attestation list"
  assumes "state_wf s"
  defines "m \<equiv> av_justifications (final_vars s atts)" and "n \<equiv> length (st_validators s)"
  shows "bitlist_wf (flattenVotes (sortedJustificationRoots m) m (of_nat n))"
    and "BitlistLen (flattenVotes (sortedJustificationRoots m) m (of_nat n)) =
      length (sortedJustificationRoots m) * n"
    and "map_of (read_justifications (flattenVotes (sortedJustificationRoots m) m (of_nat n))
      (of_nat n) 0 (sortedJustificationRoots m) []) = map_of m"
proof -
  have wf: "vars_wf n (st_historical_block_hashes s) (final_vars s atts)"
    unfolding n_def using assms(1) by (rule final_vars_wf)
  then have m: "votes_wf n m" by (simp add: vars_wf_def m_def)
  have bound: "length m * n < 18446744073709551608" "n < 18446744073709551616"
    using tracked_votes_bound [OF assms(1) wf [unfolded n_def]] assms(1)
    by (simp_all add: m_def n_def state_wf_def)
  show "map_of (read_justifications (flattenVotes (sortedJustificationRoots m) m (of_nat n))
      (of_nat n) 0 (sortedJustificationRoots m) []) = map_of m"
    using m bound by (rule read_flattenVotes)
  have d: "distinct (map fst m)" using m by (simp add: votes_wf_def)
  have lens: "\<forall>r \<in> set (sortedJustificationRoots m). length (votes_of m r) = n"
    using m sortedJustificationRoots_props(3) [OF d] unfolding votes_wf_def votes_of_def by auto
  have b: "length (sortedJustificationRoots m) * n < 18446744073709551608"
    using bound(1) sortedJustificationRoots_props(4) [OF d] by simp
  note flat = flattenVotes_bits [OF lens b bound(2)]
  show "bitlist_wf (flattenVotes (sortedJustificationRoots m) m (of_nat n))" by (rule flat(1))
  have "length (concat (map (votes_of m) (sortedJustificationRoots m))) = length (sortedJustificationRoots m) * n"
    using lens length_concat_equal [of "map (votes_of m) (sortedJustificationRoots m)" n] by simp
  then show "BitlistLen (flattenVotes (sortedJustificationRoots m) m (of_nat n)) =
      length (sortedJustificationRoots m) * n"
    by (metis flat(2) length_bits_of)
qed

lemma ProcessAttestations_state_wf:
  assumes "state_wf s"
  shows "state_wf (ProcessAttestations s atts)"
proof -
  have wf: "vars_wf (length (st_validators s)) (st_historical_block_hashes s) (final_vars s atts)"
    using assms by (rule final_vars_wf)
  then have d: "distinct (map fst (av_justifications (final_vars s atts)))"
    by (simp add: vars_wf_def votes_wf_def)
  show ?thesis
    using assms wf final_flat_votes(1,2) [OF assms, of atts] sortedJustificationRoots_props(1,3) [OF d]
    unfolding state_wf_def by (simp add: vars_wf_def ProcessAttestations_final_vars)
qed

lemma ProcessAttestations_checkpoints_wf:
  assumes "state_wf s" and "checkpoints_wf s"
  shows "checkpoints_wf (ProcessAttestations s atts)"
proof -
  have "checkpoints_justified (st_historical_block_hashes s) (final_vars s atts)"
    unfolding final_vars_def using assms initial_vars_wf [OF assms(1)]
    by (intro process_all_checkpoints) (simp_all add: checkpoints_justified_def checkpoints_wf_def state_wf_def)
  then show ?thesis
    by (simp add: checkpoints_wf_def checkpoints_justified_def ProcessAttestations_final_vars)
qed

lemma ProcessAttestations_finalized_mono:
  assumes "state_wf s" and "checkpoints_wf s"
  shows "cp_slot (st_latest_finalized s) \<le> cp_slot (st_latest_finalized (ProcessAttestations s atts))"
  using process_all_finalized_mono [OF _ initial_vars_wf [OF assms(1)], of atts] assms
  by (simp add: ProcessAttestations_final_vars final_vars_def state_wf_def checkpoints_wf_def
    justified_checkpoint_def)

lemma ProcessAttestations_justified_mono:
  assumes "state_wf s" and "slot_justified (st_justified_slots s) k"
  shows "slot_justified (st_justified_slots (ProcessAttestations s atts)) k"
proof -
  have "BitlistLen (st_justified_slots (ProcessAttestations s atts)) = BitlistLen (st_justified_slots s)"
    using assms(1) ProcessAttestations_state_wf [OF assms(1), of atts] by (simp add: state_wf_def)
  then show ?thesis
    using process_all_justified_mono [OF _ initial_vars_wf [OF assms(1)], of "unat k" atts] assms
    by (simp add: ProcessAttestations_final_vars final_vars_def state_wf_def slot_justified_def)
qed

text \<open>How finality moves: the last justifying attestation without a justifiable gap.\<close>

definition finalizes :: "State \<Rightarrow> byte list \<Rightarrow> Attestation \<Rightarrow> bool" where
  "finalizes s js att \<longleftrightarrow>
     cp_slot (source_of att) < cp_slot (target_of att) \<and>
     slot_justified js (cp_slot (source_of att)) \<and> slot_justified js (cp_slot (target_of att)) \<and>
     (\<forall>k. cp_slot (source_of att) < k \<longrightarrow> k < cp_slot (target_of att) \<longrightarrow>
        \<not> IsJustifiableAfter k (cp_slot (st_latest_finalized s)))"

lemma finalizes_mono:
  assumes "finalizes s js att" and "\<And>k. slot_justified js k \<Longrightarrow> slot_justified js' k"
  shows "finalizes s js' att"
  using assms by (simp add: finalizes_def)

lemma process_all_finalizes:
  assumes n: "length (st_validators s) \<le> 4096"
    and wf: "vars_wf (length (st_validators s)) (st_historical_block_hashes s) vars"
  shows "av_latest_finalized (process_all s atts vars) = av_latest_finalized vars \<or>
    (\<exists>att \<in> set atts. av_latest_finalized (process_all s atts vars) = source_of att \<and>
      finalizes s (av_justified_slots (process_all s atts vars)) att)"
proof (induction atts rule: rev_induct)
  case (snoc att atts)
  let ?vars = "process_all s atts vars" and ?n = "length (st_validators s)"
  let ?vars' = "process_all s (atts @ [att]) vars" and ?f = "cp_slot (st_latest_finalized s)"
  have wf': "vars_wf ?n (st_historical_block_hashes s) ?vars" using n wf by (rule process_all_wf)
  have mono: "slot_justified (av_justified_slots ?vars) k \<Longrightarrow> slot_justified (av_justified_slots ?vars') k" for k
    using process_all_justified_mono [OF n wf', of "unat k" "[att]"] process_all_wf [OF n wf, of "atts @ [att]"] wf'
    by (simp add: slot_justified_def vars_wf_def process_all_def)
  from refl validators_bound [OF n] show ?case
  proof (cases rule: process_attestation_cases [where f = ?f and att = att and vars = ?vars])
    case justified
    note js = justify_target_slots [OF wf' justified(2)]
    have adm: "cp_slot (source_of att) < cp_slot (target_of att)"
      "slot_justified (av_justified_slots ?vars) (cp_slot (source_of att))"
      "unat (cp_slot (target_of att)) < BitlistLen (av_justified_slots ?vars)"
      using justified(2) wf' by (simp_all add: admissible_def source_of_def target_of_def Let_def
          GetBit_bit_at vars_wf_def slot_justified_def)
    have "finalizes s (av_justified_slots ?vars') att"
      if "\<not> justifiable_gap (cp_slot (source_of att) + 1) (cp_slot (target_of att)) ?f"
    proof -
      have "cp_slot (source_of att) + 1 \<le> k" if "cp_slot (source_of att) < k" for k
        using that by (simp add: word_le_nat_alt unat_Suc_u64 word_less_nat_alt)
      then show ?thesis
        using that adm mono js(2,3)
        by (auto simp: finalizes_def justifiable_gap_iff process_all_snoc justified(1) slot_justified_def)
    qed
    then show ?thesis
      using snoc mono by (auto simp: process_all_snoc justified(1) justify_target_def
          intro: finalizes_mono [where js = "av_justified_slots ?vars"])
  qed (use snoc in \<open>auto simp: process_all_snoc\<close>)
qed simp

lemma process_attestation_twice:
  assumes n: "n = length (st_validators s)" "n < 18446744073709551616"
    and wf: "vars_wf n (st_historical_block_hashes s) vars"
  shows "process_attestation s (of_nat n) f att (process_attestation s (of_nat n) f att vars) =
    process_attestation s (of_nat n) f att vars"
  using n
proof (cases rule: process_attestation_cases [where f = f and att = att and vars = vars])
  case recorded
  have len: "length (tally n (av_justifications vars) (cp_root (target_of att))) = n"
    using wf by (simp add: vars_wf_def length_tally)
  have "unat (att_validator att) < n" using recorded(2) n(1) by (simp add: admissible_def Let_def)
  then have "tally n (av_justifications (record_vote n att vars)) (cp_root (target_of att)) !
      unat (att_validator att)"
    using len by (simp add: record_vote_def tally_update new_tally_def)
  then show ?thesis
    using process_attestation_unfold [OF n, of f att "record_vote n att vars"] by (simp add: recorded(1))
next
  case justified
  note js = justify_target_slots [OF wf justified(2)]
  have "unat (cp_slot (target_of att)) < BitlistLen (av_justified_slots vars)"
    using justified(2) wf by (simp add: admissible_def target_of_def Let_def vars_wf_def)
  then have "\<not> admissible s f att (av_justified_slots (justify_target n f att vars))"
    using js(2,3) by (simp add: admissible_def Let_def target_of_def GetBit_bit_at)
  then show ?thesis
    using process_attestation_unfold [OF n, of f att "justify_target n f att vars"] by (simp add: justified(1))
qed simp

subsection \<open>Example states\<close>

text \<open>
  Three validators and a history of three blocks; the slots of \<open>js\<close> are justified. Used to
  show that the hypotheses of the theorems can hold.
\<close>

definition ex_root :: "byte \<Rightarrow> root" where
  "ex_root b = bytes_of [b]"

definition ex_state :: "byte list \<Rightarrow> u64 \<Rightarrow> State" where
  "ex_state js justified =
     \<lparr>st_config = \<lparr>cfg_genesis_time = 1000\<rparr>, st_slot = 3,
      st_latest_block_header = \<lparr>bh_slot = 3, bh_proposer = 0, bh_parent_root = ex_root 2,
        bh_state_root = ZeroHash, bh_body_root = ZeroHash\<rparr>,
      st_latest_justified = \<lparr>cp_root = ex_root (ucast justified), cp_slot = justified\<rparr>,
      st_latest_finalized = \<lparr>cp_root = ex_root 0, cp_slot = 0\<rparr>,
      st_historical_block_hashes = [ex_root 0, ex_root 1, ex_root 2],
      st_justified_slots = js,
      st_validators = map (\<lambda>i. \<lparr>val_pubkey = bytes_of [ucast i], val_index = i\<rparr>) [0, 1, 2],
      st_justifications_roots = [], st_justifications_validators = [1]\<rparr>"

definition ex_vote :: "u64 \<Rightarrow> u64 \<Rightarrow> u64 \<Rightarrow> Attestation" where
  "ex_vote v src tgt =
     \<lparr>att_validator = v,
      att_data = \<lparr>ad_slot = 3, ad_head = \<lparr>cp_root = ex_root 2, cp_slot = 2\<rparr>,
        ad_target = \<lparr>cp_root = ex_root (ucast tgt), cp_slot = tgt\<rparr>,
        ad_source = \<lparr>cp_root = ex_root (ucast src), cp_slot = src\<rparr>\<rparr>\<rparr>"

definition ex_votes :: "Attestation list" where
  "ex_votes = [ex_vote 0 0 1, ex_vote 1 0 1]"

lemma ex_state_wf:
  "state_wf (ex_state [0x09] 0)" "checkpoints_wf (ex_state [0x09] 0)"
  "state_wf (ex_state [0x0D] 2)" "checkpoints_wf (ex_state [0x0D] 2)"
  by code_simp+

subsection \<open>Theorems\<close>

text \<open>
  C30: processing attestations keeps the state well formed: one justified bit per historical
  slot, votes on record only for historical roots with one bit per validator, and latest justified
  and finalized checkpoints that are justified blocks of the chain's history.
\<close>

theorem ProcessAttestations_invariant:
  assumes "state_wf s" and "checkpoints_wf s"
  shows "state_wf (ProcessAttestations s atts) \<and> checkpoints_wf (ProcessAttestations s atts)"
  using assms by (simp add: ProcessAttestations_state_wf ProcessAttestations_checkpoints_wf)

theorem ProcessAttestations_invariant_witness:
  "state_wf (ProcessAttestations (ex_state [0x09] 0) ex_votes) \<and>
   checkpoints_wf (ProcessAttestations (ex_state [0x09] 0) ex_votes)"
  using ex_state_wf(1,2) by (rule ProcessAttestations_invariant)

text \<open>
  C11: a slot becomes justified only with the votes of two thirds of the validators: if the
  bit of slot \<open>i\<close> is set after the attestations and was not before, then at least two thirds of
  the validators had a vote on record for the block root of slot \<open>i\<close> or attest to it in this
  block.
\<close>

theorem justification_needs_supermajority:
  assumes "state_wf s"
    and "slot_justified (st_justified_slots (ProcessAttestations s atts)) i"
    and "\<not> slot_justified (st_justified_slots s) i"
  shows "2 * length (st_validators s) \<le>
    3 * card (voters (recorded_votes s) (length (st_validators s)) atts
                (st_historical_block_hashes s ! unat i))"
proof -
  have "BitlistLen (st_justified_slots (ProcessAttestations s atts)) = BitlistLen (st_justified_slots s)"
    using assms(1) ProcessAttestations_state_wf [OF assms(1), of atts] by (simp add: state_wf_def)
  then show ?thesis
    using process_all_supermajority [OF refl _ initial_vars_wf [OF assms(1)], of atts "unat i"] assms
    by (simp add: slot_justified_def ProcessAttestations_final_vars final_vars_def state_wf_def)
qed

theorem justification_needs_supermajority_witness:
  "2 * length (st_validators (ex_state [0x09] 0)) \<le>
    3 * card (voters (recorded_votes (ex_state [0x09] 0)) (length (st_validators (ex_state [0x09] 0)))
                ex_votes (st_historical_block_hashes (ex_state [0x09] 0) ! unat (1 :: u64)))"
proof (rule justification_needs_supermajority)
  show "state_wf (ex_state [0x09] 0)" by (rule ex_state_wf)
  show "slot_justified (st_justified_slots (ProcessAttestations (ex_state [0x09] 0) ex_votes)) 1"
    by code_simp
  show "\<not> slot_justified (st_justified_slots (ex_state [0x09] 0)) 1" by code_simp
qed

text \<open>
  Finality is monotone. Processing attestations never lowers the finalized slot and
  never takes back a justified slot.
\<close>

theorem finality_monotone:
  assumes "state_wf s" and "checkpoints_wf s"
  shows "cp_slot (st_latest_finalized s) \<le> cp_slot (st_latest_finalized (ProcessAttestations s atts)) \<and>
    (\<forall>k. slot_justified (st_justified_slots s) k \<longrightarrow>
       slot_justified (st_justified_slots (ProcessAttestations s atts)) k)"
  using assms by (simp add: ProcessAttestations_finalized_mono ProcessAttestations_justified_mono)

theorem finality_monotone_witness:
  "cp_slot (st_latest_finalized (ex_state [0x0D] 2)) \<le>
     cp_slot (st_latest_finalized (ProcessAttestations (ex_state [0x0D] 2) ex_votes)) \<and>
   slot_justified (st_justified_slots (ProcessAttestations (ex_state [0x0D] 2) ex_votes)) 2"
proof -
  have "slot_justified (st_justified_slots (ex_state [0x0D] 2)) 2" by code_simp
  then show ?thesis using finality_monotone [OF ex_state_wf(3,4), of ex_votes] by simp
qed

text \<open>
  C12: the finalized checkpoint changes only to the source of an attestation of the block
  whose source and target are both justified afterwards, with no slot strictly between them that is
  justifiable after the slot that was finalized before.
\<close>

theorem finalization_rule:
  assumes "state_wf s"
  shows "st_latest_finalized (ProcessAttestations s atts) = st_latest_finalized s \<or>
    (\<exists>att \<in> set atts. st_latest_finalized (ProcessAttestations s atts) = source_of att \<and>
       finalizes s (st_justified_slots (ProcessAttestations s atts)) att)"
  using process_all_finalizes [OF _ initial_vars_wf [OF assms], of atts] assms
  by (simp add: ProcessAttestations_final_vars final_vars_def state_wf_def)

theorem finalization_rule_witness:
  "st_latest_finalized (ProcessAttestations (ex_state [0x0D] 2) ex_votes) =
     st_latest_finalized (ex_state [0x0D] 2) \<or>
   (\<exists>att \<in> set ex_votes.
     st_latest_finalized (ProcessAttestations (ex_state [0x0D] 2) ex_votes) = source_of att \<and>
     finalizes (ex_state [0x0D] 2)
       (st_justified_slots (ProcessAttestations (ex_state [0x0D] 2) ex_votes)) att)"
  using ex_state_wf(3) by (rule finalization_rule)

text \<open>
  C31: the flat SSZ form loses nothing. The votes read back from the state after a block are
  exactly the tallies the loop ended with, and their roots are in ascending order without repetition.
\<close>

theorem recorded_votes_roundtrip:
  assumes "state_wf s"
  shows "map_of (recorded_votes (ProcessAttestations s atts)) =
      map_of (av_justifications (final_vars s atts)) \<and>
    sorted (st_justifications_roots (ProcessAttestations s atts)) \<and>
    distinct (st_justifications_roots (ProcessAttestations s atts))"
proof -
  have "distinct (map fst (av_justifications (final_vars s atts)))"
    using final_vars_wf [OF assms, of atts] by (simp add: vars_wf_def votes_wf_def)
  from sortedJustificationRoots_props(1,2) [OF this] final_flat_votes(3) [OF assms, of atts]
  show ?thesis unfolding recorded_votes_def by (simp add: ProcessAttestations_final_vars)
qed

theorem recorded_votes_roundtrip_witness:
  "map_of (recorded_votes (ProcessAttestations (ex_state [0x09] 0) [ex_vote 2 0 1])) =
     map_of (av_justifications (final_vars (ex_state [0x09] 0) [ex_vote 2 0 1])) \<and>
   sorted (st_justifications_roots (ProcessAttestations (ex_state [0x09] 0) [ex_vote 2 0 1])) \<and>
   distinct (st_justifications_roots (ProcessAttestations (ex_state [0x09] 0) [ex_vote 2 0 1]))"
  using ex_state_wf(1) by (rule recorded_votes_roundtrip)

text \<open>
  A vote counts once. Repeating the last attestation of a block changes nothing.
\<close>

theorem duplicate_vote_ignored:
  assumes "state_wf s"
  shows "ProcessAttestations s (atts @ [att, att]) = ProcessAttestations s (atts @ [att])"
proof -
  have "length (st_validators s) < 18446744073709551616" using assms by (simp add: state_wf_def)
  then have "final_vars s (atts @ [att, att]) = final_vars s (atts @ [att])"
    using process_attestation_twice [OF refl _ final_vars_wf [OF assms, of atts]]
    by (simp add: final_vars_def process_all_def)
  then show ?thesis by (simp add: ProcessAttestations_final_vars)
qed

theorem duplicate_vote_ignored_witness:
  "ProcessAttestations (ex_state [0x09] 0) ([ex_vote 0 0 1] @ [ex_vote 1 0 1, ex_vote 1 0 1]) =
   ProcessAttestations (ex_state [0x09] 0) ([ex_vote 0 0 1] @ [ex_vote 1 0 1])"
  using ex_state_wf(1) by (rule duplicate_vote_ignored)

text \<open>
  Unlike the finalized checkpoint, the latest justified checkpoint of the state can move
  backwards: a supermajority for an older target that was not yet justified replaces a newer
  justified checkpoint.
\<close>

theorem latest_justified_can_regress:
  "\<exists>s atts. state_wf s \<and> checkpoints_wf s \<and>
     cp_slot (st_latest_justified (ProcessAttestations s atts)) < cp_slot (st_latest_justified s)"
proof -
  have "cp_slot (st_latest_justified (ProcessAttestations (ex_state [0x0D] 2) ex_votes)) <
      cp_slot (st_latest_justified (ex_state [0x0D] 2))" by code_simp
  then show ?thesis using ex_state_wf(3,4) by blast
qed

end
