(* ===== verification/Systems.thy ===== *)
theory Systems
  imports Main
begin

text \<open>
  Interfaces of the state machines of the development. A component that is a state machine provides
  its initial states, its steps and an invariant; what holds along all its runs is proved here once.
\<close>

locale invariant_system =
  fixes init :: "'s \<Rightarrow> bool"
    and step :: "'s \<Rightarrow> 's \<Rightarrow> bool"
    and inv :: "'s \<Rightarrow> bool"
  assumes inv_init: "init s \<Longrightarrow> inv s"
    and inv_step: "inv s \<Longrightarrow> step s s' \<Longrightarrow> inv s'"
begin

lemma inv_run: "step\<^sup>*\<^sup>* s s' \<Longrightarrow> inv s \<Longrightarrow> inv s'"
  by (induction rule: rtranclp_induct) (auto intro: inv_step)

lemma inv_reachable: "init s \<Longrightarrow> step\<^sup>*\<^sup>* s s' \<Longrightarrow> inv s'"
  using inv_init inv_run by blast

end

text \<open>A system that only grows: every step leads upwards in a preorder.\<close>

locale growing_system = invariant_system +
  fixes le :: "'s \<Rightarrow> 's \<Rightarrow> bool"
  assumes le_refl: "le s s"
    and le_trans: "le s s' \<Longrightarrow> le s' s'' \<Longrightarrow> le s s''"
    and le_step: "inv s \<Longrightarrow> step s s' \<Longrightarrow> le s s'"
begin

lemma le_run: "step\<^sup>*\<^sup>* s s' \<Longrightarrow> inv s \<Longrightarrow> le s s'"
proof (induction rule: rtranclp_induct)
  case (step s' s'')
  then show ?case using inv_run le_step le_trans by blast
qed (rule le_refl)

end

end
