(* ===== verification/Transition.thy ===== *)
theory Transition
  imports HashWalk ProcessAttestations Systems
begin

text \<open>
  The state transition, \<open>chain/statetransition/proposer.go\<close>, \<open>genesis.go\<close> and
  \<open>transition.go\<close>: slots are advanced one by one, the block header is checked and linked into
  the history, the attestations of the body are processed and the state root is compared.

  The hasher of fastssz is the parameter \<open>hash\<close>. The code drops the error of every
  \<open>HashTreeRoot\<close> call and goes on with the root, which \<open>fst\<close> stands for.
\<close>

subsection \<open>Errors\<close>

text \<open>
  One constructor per \<open>fmt.Errorf\<close>, \<open>Panic\<close> for the panic of \<open>IsProposer\<close>. A panic
  is not an error value: it is not wrapped on its way up.
\<close>

datatype st_error =
    TargetSlotNotAfter u64 u64
  | BlockSlotMismatch u64 u64
  | BlockSlotNotAfterHeader u64 u64
  | NotProposer u64 u64
  | ParentRootMismatch
  | InvalidStateRoot root root
  | ProcessSlotsFailed st_error
  | ProcessBlockFailed st_error
  | Panic

definition wrap :: "(st_error \<Rightarrow> st_error) \<Rightarrow> st_error + 'a \<Rightarrow> st_error + 'a" where
  "wrap w r = (case r of Inl Panic \<Rightarrow> Inl Panic | Inl e \<Rightarrow> Inl (w e) | Inr x \<Rightarrow> Inr x)"

subsection \<open>The code\<close>

text \<open>\<open>None\<close> is the panic.\<close>

definition IsProposer :: "u64 \<Rightarrow> u64 \<Rightarrow> u64 \<Rightarrow> bool option" where
  "IsProposer validatorIndex slot numValidators =
     (if numValidators = 0 then None else Some (slot mod numValidators = validatorIndex))"

definition GenerateGenesis :: "hasher \<Rightarrow> u64 \<Rightarrow> Validator list \<Rightarrow> State" where
  "GenerateGenesis hash genesisTime validators =
     (let bodyRoot = fst (BlockBody_HashTreeRoot hash \<lparr>body_attestations = []\<rparr>) in
      \<lparr>st_config = \<lparr>cfg_genesis_time = genesisTime\<rparr>,
       st_slot = 0,
       st_latest_block_header =
         \<lparr>bh_slot = 0, bh_proposer = 0, bh_parent_root = ZeroHash, bh_state_root = ZeroHash,
          bh_body_root = bodyRoot\<rparr>,
       st_latest_justified = \<lparr>cp_root = ZeroHash, cp_slot = 0\<rparr>,
       st_latest_finalized = \<lparr>cp_root = ZeroHash, cp_slot = 0\<rparr>,
       st_historical_block_hashes = [],
       st_justified_slots = [0x01],
       st_validators = validators,
       st_justifications_roots = [],
       st_justifications_validators = [0x01]\<rparr>)"

definition ProcessSlot :: "hasher \<Rightarrow> State \<Rightarrow> State" where
  "ProcessSlot hash state =
     (if bh_state_root (st_latest_block_header state) = ZeroHash then
        let stateRoot = fst (State_HashTreeRoot hash state) in
        (State_Copy state)
          \<lparr>st_latest_block_header := (st_latest_block_header state)\<lparr>bh_state_root := stateRoot\<rparr>\<rparr>
      else state)"

lemma st_slot_ProcessSlot [simp]: "st_slot (ProcessSlot hash state) = st_slot state"
  by (simp add: ProcessSlot_def Let_def)

text \<open>\<open>for s.Slot < targetSlot\<close>.\<close>

function slots_loop :: "hasher \<Rightarrow> State \<Rightarrow> u64 \<Rightarrow> State" where
  "slots_loop hash s targetSlot =
     (if st_slot s < targetSlot then
        let s1 = ProcessSlot hash s in
        slots_loop hash ((State_Copy s1)\<lparr>st_slot := st_slot s1 + 1\<rparr>) targetSlot
      else s)"
  by pat_completeness auto
termination
  by (relation "measure (\<lambda>(hash, s, targetSlot). unat targetSlot - unat (st_slot s))")
    (simp_all add: unat_Suc_u64 word_less_nat_alt diff_less_mono2)

declare slots_loop.simps [simp del]

definition ProcessSlots :: "hasher \<Rightarrow> State \<Rightarrow> u64 \<Rightarrow> st_error + State" where
  "ProcessSlots hash state targetSlot =
     (if st_slot state \<ge> targetSlot then Inl (TargetSlotNotAfter targetSlot (st_slot state))
      else Inr (slots_loop hash state targetSlot))"

text \<open>The loop that fills the slots without a block.\<close>

primrec fill_empty :: "nat \<Rightarrow> State \<Rightarrow> State" where
  "fill_empty 0 out = out"
| "fill_empty (Suc n) out =
     fill_empty n
       (out\<lparr>st_historical_block_hashes := st_historical_block_hashes out @ [ZeroHash],
            st_justified_slots := AppendBit (st_justified_slots out) False\<rparr>)"

definition ProcessBlockHeader :: "hasher \<Rightarrow> State \<Rightarrow> Block \<Rightarrow> st_error + State" where
  "ProcessBlockHeader hash state block =
     (let header = st_latest_block_header state in
      if b_slot block \<noteq> st_slot state then Inl (BlockSlotMismatch (b_slot block) (st_slot state))
      else if b_slot block \<le> bh_slot header then
        Inl (BlockSlotNotAfterHeader (b_slot block) (bh_slot header))
      else
        case IsProposer (b_proposer block) (st_slot state) (of_nat (length (st_validators state))) of
          None \<Rightarrow> Inl Panic
        | Some False \<Rightarrow> Inl (NotProposer (b_proposer block) (st_slot state))
        | Some True \<Rightarrow>
          let expectedParent = fst (BlockHeader_HashTreeRoot hash header) in
          if b_parent_root block \<noteq> expectedParent then Inl ParentRootMismatch
          else
            let parentRoot = b_parent_root block;
                out0 = State_Copy state;
                out1 =
                  (if bh_slot header = 0 then
                     out0\<lparr>st_latest_justified :=
                            \<lparr>cp_root = parentRoot, cp_slot = cp_slot (st_latest_justified state)\<rparr>,
                          st_latest_finalized :=
                            \<lparr>cp_root = parentRoot, cp_slot = cp_slot (st_latest_finalized state)\<rparr>\<rparr>
                   else out0);
                out2 =
                  out1\<lparr>st_historical_block_hashes := st_historical_block_hashes out1 @ [parentRoot],
                       st_justified_slots := AppendBit (st_justified_slots out1) (bh_slot header = 0)\<rparr>;
                numEmpty = b_slot block - bh_slot header - 1;
                out3 = fill_empty (unat numEmpty) out2;
                bodyRoot = fst (BlockBody_HashTreeRoot hash (b_body block))
            in Inr (out3\<lparr>st_latest_block_header :=
                 \<lparr>bh_slot = b_slot block, bh_proposer = b_proposer block,
                  bh_parent_root = b_parent_root block, bh_state_root = ZeroHash,
                  bh_body_root = bodyRoot\<rparr>\<rparr>))"

definition ProcessBlock :: "hasher \<Rightarrow> State \<Rightarrow> Block \<Rightarrow> st_error + State" where
  "ProcessBlock hash state block =
     and_then (ProcessBlockHeader hash state block) (\<lambda>s.
     Inr (ProcessAttestations s (body_attestations (b_body block))))"

definition StateTransition :: "hasher \<Rightarrow> State \<Rightarrow> Block \<Rightarrow> st_error + State" where
  "StateTransition hash state block =
     and_then (wrap ProcessSlotsFailed (ProcessSlots hash state (b_slot block))) (\<lambda>s1.
     and_then (wrap ProcessBlockFailed (ProcessBlock hash s1 block)) (\<lambda>s.
     let computedRoot = fst (State_HashTreeRoot hash s) in
     if b_state_root block \<noteq> computedRoot
     then Inl (InvalidStateRoot computedRoot (b_state_root block)) else Inr s))"

subsection \<open>Advancing slots\<close>

lemma wrap_Inr [simp]: "wrap w (Inr x) = Inr x"
  by (simp add: wrap_def)

lemma wrap_eq_Inr_iff [simp]: "wrap w r = Inr x \<longleftrightarrow> r = Inr x"
  by (auto simp: wrap_def split: sum.splits st_error.splits)

text \<open>Nothing but the slot and the state root of the latest header changes.\<close>

definition same_but_slot :: "State \<Rightarrow> State \<Rightarrow> bool" where
  "same_but_slot s s' \<longleftrightarrow>
     (\<exists>r k. s' = s\<lparr>st_slot := k, st_latest_block_header := (st_latest_block_header s)\<lparr>bh_state_root := r\<rparr>\<rparr>)"

lemma same_but_slot_ProcessSlot: "same_but_slot s ((ProcessSlot hash s)\<lparr>st_slot := k\<rparr>)"
  unfolding same_but_slot_def
  by (rule exI [of _ "bh_state_root (st_latest_block_header (ProcessSlot hash s))"], rule exI [of _ k])
    (simp add: ProcessSlot_def Let_def)

lemma same_but_slot_trans:
  assumes "same_but_slot s s'" and "same_but_slot s' s''"
  shows "same_but_slot s s''"
proof -
  obtain r k r' k' where
    "s' = s\<lparr>st_slot := k, st_latest_block_header := (st_latest_block_header s)\<lparr>bh_state_root := r\<rparr>\<rparr>"
    "s'' = s'\<lparr>st_slot := k', st_latest_block_header := (st_latest_block_header s')\<lparr>bh_state_root := r'\<rparr>\<rparr>"
    using assms unfolding same_but_slot_def by blast
  then show ?thesis unfolding same_but_slot_def by (intro exI [of _ r'] exI [of _ k']) simp
qed

lemma slots_loop_step:
  assumes "st_slot s < t"
  shows "slots_loop hash s t = slots_loop hash ((ProcessSlot hash s)\<lparr>st_slot := st_slot s + 1\<rparr>) t"
  using assms by (subst slots_loop.simps) (simp add: Let_def)

lemma slots_loop_frame:
  assumes "st_slot s < t"
  shows "st_slot (slots_loop hash s t) = t \<and> same_but_slot s (slots_loop hash s t)"
  using assms
proof (induction hash s t rule: slots_loop.induct)
  case (1 hash s t)
  let ?s' = "(ProcessSlot hash s)\<lparr>st_slot := st_slot s + 1\<rparr>"
  note frame = same_but_slot_ProcessSlot [where s = s and hash = hash and k = "st_slot s + 1"]
  show ?case
  proof (cases "st_slot s + 1 < t")
    case True
    then have "st_slot (slots_loop hash ?s' t) = t \<and> same_but_slot ?s' (slots_loop hash ?s' t)"
      using "1.IH" [OF "1.prems" refl] by simp
    then show ?thesis
      using same_but_slot_trans [OF frame] by (simp add: slots_loop_step [OF "1.prems"])
  next
    case False
    moreover have "st_slot s + 1 \<le> t"
      using "1.prems" by (simp add: word_le_nat_alt unat_Suc_u64 word_less_nat_alt)
    ultimately have "st_slot s + 1 = t" by simp
    then show ?thesis
      using frame False by (simp add: slots_loop_step [OF "1.prems"]) (simp add: slots_loop.simps)
  qed
qed

lemma slots_loop_cached:
  assumes "st_slot s \<le> t" and "bh_state_root (st_latest_block_header s) \<noteq> ZeroHash"
  shows "slots_loop hash s t = s\<lparr>st_slot := t\<rparr>"
  using assms
proof (induction hash s t rule: slots_loop.induct)
  case (1 hash s t)
  show ?case
  proof (cases "st_slot s < t")
    case True
    then have "st_slot s + 1 \<le> t" by (simp add: word_le_nat_alt unat_Suc_u64 word_less_nat_alt)
    then show ?thesis
      using "1.IH" [OF True refl] "1.prems"(2) by (simp add: slots_loop_step [OF True] ProcessSlot_def)
  next
    case False
    then show ?thesis using "1.prems"(1) by (simp add: slots_loop.simps [of hash s t])
  qed
qed

lemma ProcessSlots_Inr_iff:
  "ProcessSlots hash s t = Inr s' \<longleftrightarrow> st_slot s < t \<and> s' = slots_loop hash s t"
  by (auto simp: ProcessSlots_def not_le)

subsection \<open>The header\<close>

lemma fill_empty_frame [simp]:
  "st_config (fill_empty n s) = st_config s"
  "st_slot (fill_empty n s) = st_slot s"
  "st_latest_block_header (fill_empty n s) = st_latest_block_header s"
  "st_latest_justified (fill_empty n s) = st_latest_justified s"
  "st_latest_finalized (fill_empty n s) = st_latest_finalized s"
  "st_validators (fill_empty n s) = st_validators s"
  "st_justifications_roots (fill_empty n s) = st_justifications_roots s"
  "st_justifications_validators (fill_empty n s) = st_justifications_validators s"
  by (induction n arbitrary: s) simp_all

lemma fill_empty_history:
  "st_historical_block_hashes (fill_empty n s) = st_historical_block_hashes s @ replicate n ZeroHash"
  by (induction n arbitrary: s) (simp_all add: replicate_app_Cons_same)

lemma fill_empty_bits:
  assumes "bitlist_wf (st_justified_slots s)"
  shows "bitlist_wf (st_justified_slots (fill_empty n s)) \<and>
    bits_of (st_justified_slots (fill_empty n s)) = bits_of (st_justified_slots s) @ replicate n False"
  using assms
proof (induction n arbitrary: s)
  case (Suc n)
  then show ?case
    using AppendBit_data [of "st_justified_slots s" False] by (simp add: replicate_app_Cons_same)
qed simp

text \<open>When the header is accepted: the conjunction of the guards.\<close>

definition header_accepted :: "hasher \<Rightarrow> State \<Rightarrow> Block \<Rightarrow> bool" where
  "header_accepted hash s block \<longleftrightarrow>
     b_slot block = st_slot s \<and> bh_slot (st_latest_block_header s) < b_slot block \<and>
     IsProposer (b_proposer block) (st_slot s) (of_nat (length (st_validators s))) = Some True \<and>
     b_parent_root block = fst (BlockHeader_HashTreeRoot hash (st_latest_block_header s))"

text \<open>The state a header leads to, by what happens to each field.\<close>

definition linked :: "hasher \<Rightarrow> State \<Rightarrow> Block \<Rightarrow> State \<Rightarrow> bool" where
  "linked hash s block s' \<longleftrightarrow>
     (let header = st_latest_block_header s;
          gap = unat (b_slot block) - unat (bh_slot header) - 1 in
      st_config s' = st_config s \<and> st_slot s' = st_slot s \<and> st_validators s' = st_validators s \<and>
      st_latest_block_header s' =
        \<lparr>bh_slot = b_slot block, bh_proposer = b_proposer block, bh_parent_root = b_parent_root block,
         bh_state_root = ZeroHash, bh_body_root = fst (BlockBody_HashTreeRoot hash (b_body block))\<rparr> \<and>
      st_historical_block_hashes s' =
        st_historical_block_hashes s @ b_parent_root block # replicate gap ZeroHash \<and>
      (bitlist_wf (st_justified_slots s) \<longrightarrow>
        bitlist_wf (st_justified_slots s') \<and>
        bits_of (st_justified_slots s') =
          bits_of (st_justified_slots s) @ (bh_slot header = 0) # replicate gap False) \<and>
      st_latest_justified s' = (if bh_slot header = 0
        then (st_latest_justified s)\<lparr>cp_root := b_parent_root block\<rparr> else st_latest_justified s) \<and>
      st_latest_finalized s' = (if bh_slot header = 0
        then (st_latest_finalized s)\<lparr>cp_root := b_parent_root block\<rparr> else st_latest_finalized s) \<and>
      st_justifications_roots s' = st_justifications_roots s \<and>
      st_justifications_validators s' = st_justifications_validators s)"

lemma num_empty_unat:
  assumes "(h :: u64) < b"
  shows "unat (b - h - 1) = unat b - unat h - 1"
proof -
  have "unat (b - h) = unat b - unat h" using assms by (simp add: unat_diff_u64)
  moreover from this have "1 \<le> b - h" using assms by (simp add: word_le_nat_alt word_less_nat_alt)
  ultimately show ?thesis by (simp add: unat_diff_u64)
qed

lemma ProcessBlockHeader_linked:
  assumes "header_accepted hash s block"
  shows "\<exists>s'. ProcessBlockHeader hash s block = Inr s' \<and> linked hash s block s'"
proof -
  let ?h = "bh_slot (st_latest_block_header s)"
  let ?out = "(if ?h = 0 then
      s\<lparr>st_latest_justified := (st_latest_justified s)\<lparr>cp_root := b_parent_root block\<rparr>,
        st_latest_finalized := (st_latest_finalized s)\<lparr>cp_root := b_parent_root block\<rparr>\<rparr> else s)
      \<lparr>st_historical_block_hashes := st_historical_block_hashes s @ [b_parent_root block],
       st_justified_slots := AppendBit (st_justified_slots s) (?h = 0)\<rparr>"
  let ?n = "unat (b_slot block) - unat ?h - 1"
  let ?s' = "(fill_empty ?n ?out)
      \<lparr>st_latest_block_header := \<lparr>bh_slot = b_slot block, bh_proposer = b_proposer block,
         bh_parent_root = b_parent_root block, bh_state_root = ZeroHash,
         bh_body_root = fst (BlockBody_HashTreeRoot hash (b_body block))\<rparr>\<rparr>"
  have lt: "?h < b_slot block" using assms by (auto simp: header_accepted_def)
  have cp: "\<lparr>cp_root = r, cp_slot = cp_slot c\<rparr> = c\<lparr>cp_root := r\<rparr>" for r and c :: Checkpoint by simp
  have "ProcessBlockHeader hash s block = Inr ?s'"
    using assms lt num_empty_unat [OF lt]
    by (auto simp: ProcessBlockHeader_def header_accepted_def Let_def not_le cp)
  moreover have "linked hash s block ?s'"
    using AppendBit_data [of "st_justified_slots s" "?h = 0"] fill_empty_bits [of ?out ?n]
    by (auto simp: linked_def Let_def fill_empty_history)
  ultimately show ?thesis by blast
qed

lemma ProcessBlockHeader_Inr:
  assumes "ProcessBlockHeader hash s block = Inr s'"
  shows "header_accepted hash s block" and "linked hash s block s'"
proof -
  show acc: "header_accepted hash s block"
    using assms by (auto simp: ProcessBlockHeader_def header_accepted_def Let_def not_le
        split: if_splits option.splits bool.splits)
  from ProcessBlockHeader_linked [OF this] assms show "linked hash s block s'" by auto
qed

subsection \<open>The invariant of a chain\<close>

text \<open>
  What holds of every state on a chain: it is well formed, the history has one entry per slot before
  the latest block, the state is not behind its latest block, and once there is a block after genesis
  the latest justified and finalized checkpoints are justified blocks of the history. At genesis both
  name slot 0.
\<close>

definition chain_state :: "State \<Rightarrow> bool" where
  "chain_state s \<longleftrightarrow>
     state_wf s \<and>
     length (st_historical_block_hashes s) = unat (bh_slot (st_latest_block_header s)) \<and>
     bh_slot (st_latest_block_header s) \<le> st_slot s \<and>
     (if bh_slot (st_latest_block_header s) = 0
      then cp_slot (st_latest_justified s) = 0 \<and> cp_slot (st_latest_finalized s) = 0
      else checkpoints_wf s)"

lemma same_but_slot_chain_state:
  assumes "same_but_slot s s'" and "st_slot s \<le> st_slot s'" and "chain_state s"
  shows "chain_state s'"
  using assms by (auto simp: same_but_slot_def chain_state_def state_wf_def checkpoints_wf_def)

lemma bits_of_prefix:
  assumes "bits_of js' = bits_of js @ bs"
  shows "BitlistLen js' = BitlistLen js + length bs"
    and "i < BitlistLen js \<Longrightarrow> bit_at js' i = bit_at js i"
proof -
  show len: "BitlistLen js' = BitlistLen js + length bs"
    using arg_cong [OF assms, of length] by simp
  show "bit_at js' i = bit_at js i" if "i < BitlistLen js"
  proof -
    have "bits_of js' ! i = bits_of js ! i" using that by (simp add: assms nth_append)
    then show ?thesis using that len by simp
  qed
qed

lemma justified_checkpoint_append:
  assumes "justified_checkpoint js hist c" and "bits_of js' = bits_of js @ bs"
    and "BitlistLen js = length hist"
  shows "justified_checkpoint js' (hist @ rs) c"
  using assms bits_of_prefix [OF assms(2)]
  by (auto simp: justified_checkpoint_def slot_justified_def nth_append)

lemma linked_chain_state:
  assumes l: "linked hash s block s'" and acc: "header_accepted hash s block" and inv: "chain_state s"
    and bound: "unat (b_slot block) < 2 ^ 50"
  shows "chain_state s'"
proof -
  let ?h = "bh_slot (st_latest_block_header s)"
  let ?js = "st_justified_slots s" and ?js' = "st_justified_slots s'"
  let ?hist = "st_historical_block_hashes s"
  let ?gap = "unat (b_slot block) - unat ?h - 1"
  have h: "unat ?h < unat (b_slot block)" "b_slot block = st_slot s"
    using acc by (auto simp: header_accepted_def word_less_nat_alt)
  have wf: "state_wf s" "length ?hist = unat ?h" "bitlist_wf ?js" "BitlistLen ?js = length ?hist"
    using inv by (auto simp: chain_state_def state_wf_def)
  have js': "bitlist_wf ?js'" "bits_of ?js' = bits_of ?js @ (?h = 0) # replicate ?gap False"
    and hist': "st_historical_block_hashes s' = ?hist @ b_parent_root block # replicate ?gap ZeroHash"
    using l wf(3) by (simp_all add: linked_def Let_def)
  have len: "length (st_historical_block_hashes s') = unat (b_slot block)"
    using h wf(2) by (simp add: hist')
  have wf': "state_wf s'"
    using wf(1) l js' len bound bits_of_prefix(1) [OF js'(2)] h wf(2)
    unfolding state_wf_def by (auto simp: linked_def Let_def)
  have "checkpoints_wf s'"
  proof (cases "?h = 0")
    case True
    then have "bits_of ?js' ! 0" using js'(2) wf(2,4) by (simp add: length_bits_of [symmetric] del: length_bits_of)
    then have "slot_justified ?js' 0"
      using bits_of_prefix(1) [OF js'(2)] by (simp add: slot_justified_def)
    then show ?thesis
      using True inv l wf(2)
      by (auto simp: checkpoints_wf_def justified_checkpoint_def chain_state_def linked_def Let_def)
  next
    case False
    then have "checkpoints_wf s" using inv by (simp add: chain_state_def)
    then show ?thesis
      using False l js'(2) hist' wf(4)
      by (auto simp: checkpoints_wf_def linked_def Let_def intro!: justified_checkpoint_append)
  qed
  then show ?thesis using wf' len h l by (auto simp: chain_state_def linked_def Let_def)
qed

lemma StateTransition_Inr:
  assumes "StateTransition hash s block = Inr s'"
  obtains s1 s2 where "st_slot s < b_slot block"
    and "st_slot s1 = b_slot block" and "same_but_slot s s1" and "s1 = slots_loop hash s (b_slot block)"
    and "header_accepted hash s1 block" and "linked hash s1 block s2"
    and "s' = ProcessAttestations s2 (body_attestations (b_body block))"
    and "b_state_root block = fst (State_HashTreeRoot hash s')"
proof -
  from assms obtain s1 s2 where "ProcessSlots hash s (b_slot block) = Inr s1"
    and header: "ProcessBlockHeader hash s1 block = Inr s2"
    and rest: "s' = ProcessAttestations s2 (body_attestations (b_body block))"
      "b_state_root block = fst (State_HashTreeRoot hash s')"
    by (auto simp: StateTransition_def ProcessBlock_def and_then_eq_Inr_iff Let_def split: if_splits)
  then have lt: "st_slot s < b_slot block" and s1: "s1 = slots_loop hash s (b_slot block)"
    by (simp_all add: ProcessSlots_Inr_iff)
  show ?thesis
    using that [OF lt _ _ s1 ProcessBlockHeader_Inr [OF header] rest] slots_loop_frame [OF lt, of hash]
    by (simp add: s1)
qed

text \<open>The state root of a block plays no part in processing it.\<close>

lemma ProcessBlock_state_root:
  "ProcessBlock hash s (b\<lparr>b_state_root := r\<rparr>) = ProcessBlock hash s b"
  by (cases b) (simp only: ProcessBlock_def ProcessBlockHeader_def Block.simps)

lemma linked_history:
  assumes "linked hash s block s'"
  shows "\<exists>rs. st_historical_block_hashes s' = st_historical_block_hashes s @ b_parent_root block # rs"
  using assms by (auto simp: linked_def Let_def)

lemma StateTransition_chain_state:
  assumes tr: "StateTransition hash s block = Inr s'" and inv: "chain_state s"
    and bound: "unat (b_slot block) < 2 ^ 50"
  shows "chain_state s'"
    and "st_slot s' = b_slot block" and "bh_slot (st_latest_block_header s') = b_slot block"
    and "\<exists>rs. st_historical_block_hashes s' = st_historical_block_hashes s @ b_parent_root block # rs"
    and "cp_slot (st_latest_finalized s) \<le> cp_slot (st_latest_finalized s')"
    and "slot_justified (st_justified_slots s) k \<Longrightarrow> slot_justified (st_justified_slots s') k"
proof -
  from tr obtain s1 s2 where s1: "st_slot s < b_slot block" "st_slot s1 = b_slot block" "same_but_slot s s1"
    and acc: "header_accepted hash s1 block" and l: "linked hash s1 block s2"
    and s': "s' = ProcessAttestations s2 (body_attestations (b_body block))"
    by (rule StateTransition_Inr)
  have "chain_state s1" using s1 inv by (intro same_but_slot_chain_state [OF s1(3)]) simp_all
  then have inv2: "chain_state s2" using linked_chain_state [OF l acc _ bound] by simp
  have header: "st_slot s2 = b_slot block" "bh_slot (st_latest_block_header s2) = b_slot block"
    using l s1(2) by (simp_all add: linked_def Let_def)
  have nz: "b_slot block \<noteq> 0" using s1(1) by (metis word_not_simps(1))
  then have wf2: "state_wf s2" "checkpoints_wf s2"
    using inv2 header by (simp_all add: chain_state_def)
  show "chain_state s'"
    using inv2 wf2 nz by (auto simp: chain_state_def s' ProcessAttestations_state_wf
        ProcessAttestations_checkpoints_wf header)
  show "st_slot s' = b_slot block" and "bh_slot (st_latest_block_header s') = b_slot block"
    by (simp_all add: s' header)
  show "\<exists>rs. st_historical_block_hashes s' = st_historical_block_hashes s @ b_parent_root block # rs"
    using linked_history [OF l] s1(3) by (auto simp: s' same_but_slot_def)
  have "cp_slot (st_latest_finalized s2) = cp_slot (st_latest_finalized s)"
    using l s1(3) by (auto simp: linked_def Let_def same_but_slot_def)
  then show "cp_slot (st_latest_finalized s) \<le> cp_slot (st_latest_finalized s')"
    using ProcessAttestations_finalized_mono [OF wf2] by (simp add: s')
  show "slot_justified (st_justified_slots s') k" if k: "slot_justified (st_justified_slots s) k"
  proof -
    have js: "st_justified_slots s1 = st_justified_slots s" using s1(3) by (auto simp: same_but_slot_def)
    have "bitlist_wf (st_justified_slots s1)" using \<open>chain_state s1\<close> by (simp add: chain_state_def state_wf_def)
    then obtain bs where "bits_of (st_justified_slots s2) = bits_of (st_justified_slots s) @ bs"
      using l by (auto simp: linked_def Let_def js)
    then have "slot_justified (st_justified_slots s2) k"
      using bits_of_prefix k unfolding slot_justified_def by fastforce
    then show ?thesis using ProcessAttestations_justified_mono [OF wf2(1)] by (simp add: s')
  qed
qed

subsection \<open>Chains\<close>

text \<open>
  A chain is a run of accepted blocks. Slots stay below \<open>2^50\<close>; at four seconds per slot that is
  more than a hundred million years.
\<close>

definition chain_step :: "hasher \<Rightarrow> State \<Rightarrow> State \<Rightarrow> bool" where
  "chain_step hash s s' \<longleftrightarrow> (\<exists>b. StateTransition hash s b = Inr s' \<and> unat (b_slot b) < 2 ^ 50)"

definition extends :: "hasher \<Rightarrow> State \<Rightarrow> State \<Rightarrow> bool" where
  "extends hash = (chain_step hash)\<^sup>*\<^sup>*"

text \<open>What a later state keeps of an earlier one.\<close>

definition keeps :: "State \<Rightarrow> State \<Rightarrow> bool" where
  "keeps s s' \<longleftrightarrow>
     (\<exists>rs. st_historical_block_hashes s' = st_historical_block_hashes s @ rs) \<and>
     cp_slot (st_latest_finalized s) \<le> cp_slot (st_latest_finalized s') \<and>
     (\<forall>k. slot_justified (st_justified_slots s) k \<longrightarrow> slot_justified (st_justified_slots s') k)"

definition genesis_state :: "hasher \<Rightarrow> State \<Rightarrow> bool" where
  "genesis_state hash s \<longleftrightarrow>
     (\<exists>genesisTime validators. length validators \<le> 4096 \<and> s = GenerateGenesis hash genesisTime validators)"

lemma GenerateGenesis_chain_state:
  assumes "length validators \<le> 4096"
  shows "chain_state (GenerateGenesis hash genesisTime validators)"
proof -
  have "bitlist_wf [1]" "BitlistLen [1] = 0" by code_simp+
  then show ?thesis using assms by (simp add: chain_state_def GenerateGenesis_def state_wf_def Let_def)
qed

interpretation chain: growing_system "genesis_state hash" "chain_step hash" chain_state keeps for hash
proof unfold_locales
  show "genesis_state hash s \<Longrightarrow> chain_state s" for s
    by (auto simp: genesis_state_def GenerateGenesis_chain_state)
  show "chain_state s \<Longrightarrow> chain_step hash s s' \<Longrightarrow> chain_state s'" for s s'
    by (auto simp: chain_step_def intro: StateTransition_chain_state(1))
  show "keeps s s" for s by (simp add: keeps_def)
  show "keeps s s' \<Longrightarrow> keeps s' s'' \<Longrightarrow> keeps s s''" for s s' s''
    by (fastforce simp: keeps_def)
  show "chain_state s \<Longrightarrow> chain_step hash s s' \<Longrightarrow> keeps s s'" for s s'
    using StateTransition_chain_state(4-6) unfolding chain_step_def keeps_def by blast
qed

subsection \<open>Example chain\<close>

text \<open>
  A hasher that lists the integers of a walk, three validators, and blocks with the state roots filled
  in from the transition itself. A block without attestations has the root of its header, as in SSZ.
\<close>

definition ex_hash :: hasher where
  "ex_hash w =
     (case w of
        Inl e \<Rightarrow> (ZeroHash, Some e)
      | Inr cs \<Rightarrow>
          (bytes_of (1 # concat (map (\<lambda>c. case c of HHPutUint64 x \<Rightarrow> [ucast x] | _ \<Rightarrow> []) cs)), None))"

definition ex_genesis :: State where
  "ex_genesis = GenerateGenesis ex_hash 1000 (map (\<lambda>i. \<lparr>val_pubkey = bytes_of [ucast i], val_index = i\<rparr>) [0, 1, 2])"

definition seal :: "hasher \<Rightarrow> State \<Rightarrow> Block \<Rightarrow> Block" where
  "seal hash s b =
     (case ProcessBlock hash (slots_loop hash s (b_slot b)) b of
        Inl _ \<Rightarrow> b | Inr s' \<Rightarrow> b\<lparr>b_state_root := fst (State_HashTreeRoot hash s')\<rparr>)"

definition ex_block :: "State \<Rightarrow> u64 \<Rightarrow> Block" where
  "ex_block s slot =
     seal ex_hash s
       \<lparr>b_slot = slot, b_proposer = slot mod 3,
        b_parent_root =
          fst (BlockHeader_HashTreeRoot ex_hash (st_latest_block_header (slots_loop ex_hash s slot))),
        b_state_root = ZeroHash, b_body = \<lparr>body_attestations = []\<rparr>\<rparr>"

definition ex_child :: "State \<Rightarrow> u64 \<Rightarrow> State" where
  "ex_child s slot = projr (StateTransition ex_hash s (ex_block s slot))"

lemma seal_simps [simp]:
  "b_slot (seal hash s b) = b_slot b" "b_proposer (seal hash s b) = b_proposer b"
  "b_parent_root (seal hash s b) = b_parent_root b" "b_body (seal hash s b) = b_body b"
  by (simp_all add: seal_def split: sum.split)

lemma StateTransition_seal:
  assumes "st_slot s < b_slot b" and "header_accepted hash (slots_loop hash s (b_slot b)) b"
  obtains s2 where "linked hash (slots_loop hash s (b_slot b)) b s2"
    and "StateTransition hash s (seal hash s b) = Inr (ProcessAttestations s2 (body_attestations (b_body b)))"
proof -
  obtain s2 where s2: "ProcessBlockHeader hash (slots_loop hash s (b_slot b)) b = Inr s2"
    "linked hash (slots_loop hash s (b_slot b)) b s2" using ProcessBlockHeader_linked [OF assms(2)] by blast
  let ?s' = "ProcessAttestations s2 (body_attestations (b_body b))"
  have block: "ProcessBlock hash (slots_loop hash s (b_slot b)) b = Inr ?s'"
    using s2(1) by (simp add: ProcessBlock_def and_then_def)
  have "StateTransition hash s (seal hash s b) = Inr ?s'"
    using assms(1) by (simp add: StateTransition_def seal_def block ProcessBlock_state_root ProcessSlots_def and_then_def not_le [symmetric])
  then show ?thesis using s2(2) that by blast
qed

lemma ex_block_simps [simp]:
  "b_slot (ex_block s slot) = slot" "b_proposer (ex_block s slot) = slot mod 3"
  "body_attestations (b_body (ex_block s slot)) = []"
  by (simp_all add: ex_block_def)

lemma ex_header_root: "fst (BlockHeader_HashTreeRoot ex_hash h) = bytes_of [1, ucast (bh_slot h), ucast (bh_proposer h)]"
  by (simp add: BlockHeader_HashTreeRoot_def BlockHeader_HashTreeRootWith_def ex_hash_def)

lemma ex_block_root:
  "body_attestations (b_body b) = [] \<Longrightarrow>
     fst (Block_HashTreeRoot ex_hash b) = bytes_of [1, ucast (b_slot b), ucast (b_proposer b)]"
  by (simp add: Block_HashTreeRoot_def Block_HashTreeRootWith_def BlockBody_HashTreeRootWith_def ex_hash_def)

lemma ex_genesis_chain_state: "chain_state ex_genesis"
  unfolding ex_genesis_def by (rule GenerateGenesis_chain_state) simp

lemma ex_first_parent: "b_parent_root (ex_block ex_genesis slot) = bytes_of [1, 0, 0]"
proof -
  have "same_but_slot ex_genesis (slots_loop ex_hash ex_genesis slot) \<or> slots_loop ex_hash ex_genesis slot = ex_genesis"
    using slots_loop_frame [of ex_genesis slot ex_hash] by (auto simp: slots_loop.simps)
  then have "bh_slot (st_latest_block_header (slots_loop ex_hash ex_genesis slot)) = 0"
    "bh_proposer (st_latest_block_header (slots_loop ex_hash ex_genesis slot)) = 0"
    by (auto simp: same_but_slot_def ex_genesis_def GenerateGenesis_def Let_def)
  then show ?thesis by (simp add: ex_block_def ex_header_root)
qed

lemma ex_first_block: "StateTransition ex_hash ex_genesis (ex_block ex_genesis 2) = Inr (ex_child ex_genesis 2)"
  by code_simp

lemma ex_block_bound: "unat (b_slot (ex_block ex_genesis 2)) < 2 ^ 50"
  by simp

lemma ex_extends: "extends ex_hash ex_genesis (ex_child ex_genesis 2)"
  unfolding extends_def using ex_first_block ex_block_bound
  by (intro r_into_rtranclp) (auto simp: chain_step_def)

subsection \<open>Theorems\<close>

lemma next_proposer:
  assumes "(n :: u64) \<noteq> 0" and "slot \<noteq> - 1"
  shows "(slot + 1) mod n = (slot mod n + 1) mod n"
proof -
  have "slot < - 1" using assms(2) by (simp add: word_order.not_eq_extremum)
  then have slot: "unat (slot + 1) = unat slot + 1" by (simp add: unat_Suc_u64)
  have "slot mod n < n" using assms(1) by (rule word_mod_less_divisor [OF word_neq_0_conv [THEN iffD1]])
  then have v: "unat (slot mod n + 1) = unat slot mod unat n + 1" by (simp add: unat_Suc_u64 unat_mod)
  have "unat ((slot + 1) mod n) = unat ((slot mod n + 1) mod n)"
    by (simp only: unat_mod slot v mod_add_left_eq)
  then show ?thesis by (rule unsigned_word_eqI)
qed

text \<open>
  For a positive number of validators exactly one validator index is the proposer of a
  slot, it is a valid index, and the proposer of the next slot is the next index, cyclically.
\<close>

theorem proposer_round_robin:
  assumes "0 < n"
  shows "(\<exists>!v. IsProposer v slot n = Some True) \<and>
    (\<forall>v. IsProposer v slot n = Some True \<longrightarrow>
      v < n \<and> (slot \<noteq> - 1 \<longrightarrow> IsProposer ((v + 1) mod n) (slot + 1) n = Some True))"
  using assms next_proposer [of n slot]
  by (auto simp: IsProposer_def word_neq_0_conv intro: word_mod_less_divisor)

theorem proposer_round_robin_witness:
  "(\<exists>!v. IsProposer v 7 3 = Some True) \<and> IsProposer 2 8 3 = Some True"
proof -
  have "IsProposer 1 7 3 = Some True" by code_simp
  then show ?thesis using proposer_round_robin [of 3 7] by fastforce
qed

text \<open>
  The slot loop ends exactly at its target. It fails if and only if the target is not
  after the state's slot; otherwise only the slot and the state root of the latest header change, and
  when that root is already cached or the state does not hash to zero it is the root of the state
  before the first slot.
\<close>

theorem ProcessSlots_exact:
  "ProcessSlots hash s t = (if t \<le> st_slot s then Inl (TargetSlotNotAfter t (st_slot s))
     else Inr (slots_loop hash s t)) \<and>
   (st_slot s < t \<longrightarrow> st_slot (slots_loop hash s t) = t \<and> same_but_slot s (slots_loop hash s t) \<and>
     (fst (State_HashTreeRoot hash s) \<noteq> ZeroHash \<longrightarrow>
       slots_loop hash s t = (ProcessSlot hash s)\<lparr>st_slot := t\<rparr>))"
proof -
  have "slots_loop hash s t = (ProcessSlot hash s)\<lparr>st_slot := t\<rparr>"
    if "st_slot s < t" and "fst (State_HashTreeRoot hash s) \<noteq> ZeroHash"
  proof -
    have "st_slot s + 1 \<le> t" using that(1) by (simp add: word_le_nat_alt unat_Suc_u64 word_less_nat_alt)
    then show ?thesis
      using that by (simp add: slots_loop_step [OF that(1)] slots_loop_cached ProcessSlot_def Let_def)
  qed
  then show ?thesis using slots_loop_frame [of s t hash] by (simp add: ProcessSlots_def not_le)
qed

theorem ProcessSlots_exact_witness:
  "ProcessSlots ex_hash ex_genesis 5 = Inr ((ProcessSlot ex_hash ex_genesis)\<lparr>st_slot := 5\<rparr>)"
proof -
  have "st_slot ex_genesis = 0" "fst (State_HashTreeRoot ex_hash ex_genesis) \<noteq> ZeroHash" by code_simp+
  then show ?thesis using ProcessSlots_exact [of ex_hash ex_genesis 5] by simp
qed

lemma IsProposer_nat:
  assumes "length (st_validators s) \<le> 4096" and "st_validators s \<noteq> []"
  shows "IsProposer v slot (of_nat (length (st_validators s))) =
    Some (unat slot mod length (st_validators s) = unat v)"
proof -
  let ?n = "of_nat (length (st_validators s)) :: u64"
  have n: "unat ?n = length (st_validators s)" using assms(1) by simp
  then have "?n \<noteq> 0" using assms(2) by (metis length_0_conv unat_0)
  moreover have "slot mod ?n = v \<longleftrightarrow> unat slot mod length (st_validators s) = unat v"
    using n by (metis unat_mod unsigned_word_eqI)
  ultimately show ?thesis by (simp add: IsProposer_def)
qed

text \<open>
  C2: the outcome of the transition from a state of a chain, on every branch. A block that
  is not of a later slot, not from the slot's proposer, or not a child of the latest header (with its
  state root filled in) is refused with the error of that check. Any other block is linked to the
  chain and its attestations processed; the result is returned if and only if the block carries its
  root. The remaining errors of the header check and the panic cannot occur.
\<close>

theorem StateTransition_outcome:
  assumes "chain_state s" and "st_validators s \<noteq> []" and s1_def: "s1 = slots_loop hash s (b_slot b)"
  shows "if b_slot b \<le> st_slot s then
      StateTransition hash s b = Inl (ProcessSlotsFailed (TargetSlotNotAfter (b_slot b) (st_slot s)))
    else if unat (b_slot b) mod length (st_validators s) \<noteq> unat (b_proposer b) then
      StateTransition hash s b = Inl (ProcessBlockFailed (NotProposer (b_proposer b) (b_slot b)))
    else if b_parent_root b \<noteq> fst (BlockHeader_HashTreeRoot hash (st_latest_block_header s1)) then
      StateTransition hash s b = Inl (ProcessBlockFailed ParentRootMismatch)
    else \<exists>s2. linked hash s1 b s2 \<and>
      (let s' = ProcessAttestations s2 (body_attestations (b_body b)); r = fst (State_HashTreeRoot hash s')
       in StateTransition hash s b =
            (if b_state_root b \<noteq> r then Inl (InvalidStateRoot r (b_state_root b)) else Inr s'))"
proof (cases "st_slot s < b_slot b")
  case True
  have s1: "st_slot s1 = b_slot b" "same_but_slot s s1"
    using slots_loop_frame [OF True] by (simp_all add: s1_def)
  then have hdr: "bh_slot (st_latest_block_header s1) < b_slot b" and vals: "st_validators s1 = st_validators s"
    using assms(1) True by (auto simp: chain_state_def same_but_slot_def)
  have isprop: "IsProposer (b_proposer b) (b_slot b) (of_nat (length (st_validators s1))) =
      Some (unat (b_slot b) mod length (st_validators s) = unat (b_proposer b))"
    using assms(1,2) IsProposer_nat [of s] by (simp add: vals chain_state_def state_wf_def)
  have st: "StateTransition hash s b =
      and_then (wrap ProcessBlockFailed (ProcessBlock hash s1 b)) (\<lambda>s.
        let r = fst (State_HashTreeRoot hash s) in
        if b_state_root b \<noteq> r then Inl (InvalidStateRoot r (b_state_root b)) else Inr s)"
    using True by (simp add: StateTransition_def ProcessSlots_def s1_def linorder_not_le [THEN iffD2])
  show ?thesis
  proof (cases "header_accepted hash s1 b")
    case accepted: True
    then obtain s2 where "ProcessBlockHeader hash s1 b = Inr s2" "linked hash s1 b s2"
      using ProcessBlockHeader_linked by blast
    then show ?thesis
      using accepted True isprop s1(1)
      by (auto simp: st ProcessBlock_def wrap_def Let_def header_accepted_def)
  next
    case False
    then show ?thesis
      using True hdr s1(1)
      by (auto simp: st ProcessBlock_def ProcessBlockHeader_def header_accepted_def isprop wrap_def Let_def)
  qed
qed (simp add: StateTransition_def ProcessSlots_def wrap_def not_less)

theorem StateTransition_outcome_witness:
  "StateTransition ex_hash ex_genesis (ex_block ex_genesis 0) =
     Inl (ProcessSlotsFailed (TargetSlotNotAfter 0 0))"
proof -
  have "st_validators ex_genesis \<noteq> []" "st_slot ex_genesis = 0" "b_slot (ex_block ex_genesis 0) = 0"
    by code_simp+
  then show ?thesis
    using StateTransition_outcome [OF ex_genesis_chain_state _ refl, where hash = ex_hash and b = "ex_block ex_genesis 0"] by simp
qed

text \<open>
  An accepted block leads from a state of a chain to a state of a chain: the state is
  well formed, its slot and its latest header are the block's, the history has exactly one entry per
  slot before the block, and the latest justified and finalized checkpoints are justified blocks of
  that history.
\<close>

theorem StateTransition_invariant:
  assumes "chain_state s" and "StateTransition hash s b = Inr s'" and "unat (b_slot b) < 2 ^ 50"
  shows "chain_state s' \<and> st_slot s' = b_slot b \<and> bh_slot (st_latest_block_header s') = b_slot b \<and>
    length (st_historical_block_hashes s') = unat (b_slot b) \<and> checkpoints_wf s'"
proof -
  have "b_slot b \<noteq> 0" using assms(2) by (elim StateTransition_Inr) (metis word_not_simps(1))
  then show ?thesis
    using StateTransition_chain_state(1-3) [OF assms(2,1,3)] by (auto simp: chain_state_def)
qed

theorem StateTransition_invariant_witness:
  "chain_state (ex_child ex_genesis 2) \<and>
   st_slot (ex_child ex_genesis 2) = b_slot (ex_block ex_genesis 2) \<and>
   bh_slot (st_latest_block_header (ex_child ex_genesis 2)) = b_slot (ex_block ex_genesis 2) \<and>
   length (st_historical_block_hashes (ex_child ex_genesis 2)) = unat (b_slot (ex_block ex_genesis 2)) \<and>
   checkpoints_wf (ex_child ex_genesis 2)"
  using ex_genesis_chain_state ex_first_block ex_block_bound by (rule StateTransition_invariant)

text \<open>
  C1: chains grow from genesis without losing anything. Every state reached from the genesis
  state of at most 4096 validators by accepted blocks satisfies the invariant of a chain; a state
  reached from it keeps its history as a prefix, keeps every justified slot, never lowers the
  finalized slot, and still has the finalized block of the earlier state in its history.
\<close>

theorem chain_finality:
  assumes "length validators \<le> 4096"
    and "extends hash (GenerateGenesis hash genesisTime validators) s" and "extends hash s s'"
  shows "chain_state s \<and> chain_state s' \<and>
    (\<exists>rs. st_historical_block_hashes s' = st_historical_block_hashes s @ rs) \<and>
    (\<forall>k. slot_justified (st_justified_slots s) k \<longrightarrow> slot_justified (st_justified_slots s') k) \<and>
    cp_slot (st_latest_finalized s) \<le> cp_slot (st_latest_finalized s') \<and>
    (bh_slot (st_latest_block_header s) \<noteq> 0 \<longrightarrow>
      st_historical_block_hashes s' ! unat (cp_slot (st_latest_finalized s)) = cp_root (st_latest_finalized s))"
proof -
  have s: "chain_state s"
    using assms(1,2) chain.inv_reachable [of hash] by (auto simp: extends_def genesis_state_def)
  have s': "chain_state s'" "keeps s s'"
    using assms(3) s unfolding extends_def by (auto intro: chain.inv_run chain.le_run)
  have "st_historical_block_hashes s' ! unat (cp_slot (st_latest_finalized s)) = cp_root (st_latest_finalized s)"
    if "bh_slot (st_latest_block_header s) \<noteq> 0"
    using s s'(2) that by (auto simp: keeps_def chain_state_def checkpoints_wf_def justified_checkpoint_def
        slot_justified_def state_wf_def nth_append)
  then show ?thesis using s s' by (simp add: keeps_def)
qed

theorem chain_finality_witness:
  "chain_state ex_genesis \<and> chain_state (ex_child ex_genesis 2) \<and>
   (\<exists>rs. st_historical_block_hashes (ex_child ex_genesis 2) = st_historical_block_hashes ex_genesis @ rs)"
proof -
  have "extends ex_hash ex_genesis ex_genesis" by (simp add: extends_def)
  from chain_finality [OF _ this [unfolded ex_genesis_def] ex_extends [unfolded ex_genesis_def]]
  show ?thesis by (simp add: ex_genesis_def)
qed

end
