(* ===== verification/Storage.thy ===== *)
theory Storage
  imports Types
begin

text \<open>
  Block and state storage: the interface \<open>storage.Store\<close> of \<open>storage/interface.go\<close> as a
  locale of laws, and its in-memory implementation \<open>storage/memory/memory.go\<close>, on which the locale is
  interpreted once per table. The mutex of the implementation makes each operation atomic; the
  model's operations are atomic because they are functions of the whole store.
\<close>

subsection \<open>The interface\<close>

text \<open>
  One table of the interface: \<open>get\<close> finds what \<open>put\<close> stored last, and \<open>get_all\<close> lists
  every entry once.
\<close>

locale table =
  fixes get :: "'s \<Rightarrow> 'k \<Rightarrow> 'v option"
    and put :: "'k \<Rightarrow> 'v \<Rightarrow> 's \<Rightarrow> 's"
    and get_all :: "'s \<Rightarrow> ('k \<times> 'v) list"
    and valid :: "'s \<Rightarrow> bool"
  assumes get_put: "get (put k v s) k' = (if k' = k then Some v else get s k')"
    and get_all_lookup: "valid s \<Longrightarrow> map_of (get_all s) k = get s k"
    and get_all_distinct: "valid s \<Longrightarrow> distinct (map fst (get_all s))"
    and valid_put: "valid s \<Longrightarrow> valid (put k v s)"
begin

lemma get_put_same [simp]: "get (put k v s) k = Some v"
  by (simp add: get_put)

lemma get_put_other: "k' \<noteq> k \<Longrightarrow> get (put k v s) k' = get s k'"
  by (simp add: get_put)

lemma map_of_get_all: "valid s \<Longrightarrow> map_of (get_all s) = get s"
  by (simp add: fun_eq_iff get_all_lookup)

lemma map_of_get_all_put: "valid s \<Longrightarrow> map_of (get_all (put k v s)) = (map_of (get_all s))(k \<mapsto> v)"
  by (auto simp: fun_eq_iff get_all_lookup get_put valid_put)

lemma mem_get_all: "valid s \<Longrightarrow> (k, v) \<in> set (get_all s) \<longleftrightarrow> get s k = Some v"
  using map_of_eq_Some_iff [OF get_all_distinct] by (simp add: map_of_get_all)

text \<open>Storing the same value again, or in another order, makes no difference to a reader.\<close>

lemma get_put_idem: "get (put k v (put k v s)) = get (put k v s)"
  by (simp add: fun_eq_iff get_put)

lemma get_put_commute: "k \<noteq> k' \<Longrightarrow> get (put k v (put k' v' s)) = get (put k' v' (put k v s))"
  by (auto simp: fun_eq_iff get_put)

end

subsection \<open>The in-memory store\<close>

record MemoryStore =
  ms_blocks :: "(root \<times> Block) list"
  ms_signed_blocks :: "(root \<times> SignedBlockWithAttestation) list"
  ms_states :: "(root \<times> State) list"

definition New :: MemoryStore where
  "New = \<lparr>ms_blocks = [], ms_signed_blocks = [], ms_states = []\<rparr>"

definition GetBlock :: "MemoryStore \<Rightarrow> root \<Rightarrow> Block option" where
  "GetBlock m root = map_of (ms_blocks m) root"

definition PutBlock :: "root \<Rightarrow> Block \<Rightarrow> MemoryStore \<Rightarrow> MemoryStore" where
  "PutBlock root block m = m\<lparr>ms_blocks := AList.update root block (ms_blocks m)\<rparr>"

definition GetSignedBlock :: "MemoryStore \<Rightarrow> root \<Rightarrow> SignedBlockWithAttestation option" where
  "GetSignedBlock m root = map_of (ms_signed_blocks m) root"

definition PutSignedBlock :: "root \<Rightarrow> SignedBlockWithAttestation \<Rightarrow> MemoryStore \<Rightarrow> MemoryStore" where
  "PutSignedBlock root sb m = m\<lparr>ms_signed_blocks := AList.update root sb (ms_signed_blocks m)\<rparr>"

definition GetState :: "MemoryStore \<Rightarrow> root \<Rightarrow> State option" where
  "GetState m root = map_of (ms_states m) root"

definition PutState :: "root \<Rightarrow> State \<Rightarrow> MemoryStore \<Rightarrow> MemoryStore" where
  "PutState root state m = m\<lparr>ms_states := AList.update root state (ms_states m)\<rparr>"

text \<open>The copying loops: every entry of the table is put into a fresh map.\<close>

definition GetAllBlocks :: "MemoryStore \<Rightarrow> (root \<times> Block) list" where
  "GetAllBlocks m = fold (\<lambda>(k, v) cp. AList.update k v cp) (ms_blocks m) []"

definition GetAllStates :: "MemoryStore \<Rightarrow> (root \<times> State) list" where
  "GetAllStates m = fold (\<lambda>(k, v) cp. AList.update k v cp) (ms_states m) []"

subsection \<open>The implementation meets the interface\<close>

definition mem_valid :: "MemoryStore \<Rightarrow> bool" where
  "mem_valid m \<longleftrightarrow>
     distinct (map fst (ms_blocks m)) \<and> distinct (map fst (ms_signed_blocks m)) \<and>
     distinct (map fst (ms_states m))"

lemma copy_distinct:
  "distinct (map fst cp) \<Longrightarrow> distinct (map fst (fold (\<lambda>(k, v) cp. AList.update k v cp) m cp))"
  by (induction m arbitrary: cp) auto

lemma copy_lookup:
  assumes "distinct (map fst m)"
  shows "map_of (fold (\<lambda>(k, v) cp. AList.update k v cp) m cp) = map_of cp ++ map_of m"
  using assms
proof (induction m arbitrary: cp)
  case (Cons x m)
  have "map_of m (fst x) = None" using Cons.prems by (simp add: map_of_eq_None_iff)
  then show ?case using Cons by (auto simp: fun_eq_iff map_add_def split: prod.splits option.splits)
qed simp

lemmas table_defs = GetBlock_def PutBlock_def GetSignedBlock_def PutSignedBlock_def
  GetState_def PutState_def GetAllBlocks_def GetAllStates_def mem_valid_def

interpretation blocks: table GetBlock PutBlock GetAllBlocks mem_valid
  by unfold_locales (auto simp: table_defs copy_distinct copy_lookup)

interpretation states: table GetState PutState GetAllStates mem_valid
  by unfold_locales (auto simp: table_defs copy_distinct copy_lookup)

text \<open>Signed blocks cannot be listed through the interface; the table itself plays that part.\<close>

interpretation signed_blocks: table GetSignedBlock PutSignedBlock ms_signed_blocks mem_valid
  by unfold_locales (auto simp: table_defs)

text \<open>The three tables do not interfere.\<close>

lemma tables_independent [simp]:
  "GetBlock (PutSignedBlock r sb m) = GetBlock m" "GetBlock (PutState r s m) = GetBlock m"
  "GetSignedBlock (PutBlock r b m) = GetSignedBlock m" "GetSignedBlock (PutState r s m) = GetSignedBlock m"
  "GetState (PutBlock r b m) = GetState m" "GetState (PutSignedBlock r sb m) = GetState m"
  by (simp_all add: table_defs fun_eq_iff)

lemma GetAllBlocks_other [simp]:
  "GetAllBlocks (PutSignedBlock r sb m) = GetAllBlocks m" "GetAllBlocks (PutState r s m) = GetAllBlocks m"
  by (simp_all add: table_defs)

lemma New_valid [simp]: "mem_valid New"
  by (simp add: New_def mem_valid_def)

lemma New_empty [simp]: "GetBlock New r = None" "GetSignedBlock New r = None" "GetState New r = None"
  by (simp_all add: New_def table_defs)

subsection \<open>Histories of writes\<close>

datatype store_op =
    OpBlock root Block
  | OpSigned root SignedBlockWithAttestation
  | OpState root State

fun run_op :: "store_op \<Rightarrow> MemoryStore \<Rightarrow> MemoryStore" where
  "run_op (OpBlock r b) m = PutBlock r b m"
| "run_op (OpSigned r sb) m = PutSignedBlock r sb m"
| "run_op (OpState r s) m = PutState r s m"

definition block_writes :: "store_op list \<Rightarrow> (root \<times> Block) list" where
  "block_writes ops = concat (map (\<lambda>op. case op of OpBlock r b \<Rightarrow> [(r, b)] | _ \<Rightarrow> []) ops)"

definition state_writes :: "store_op list \<Rightarrow> (root \<times> State) list" where
  "state_writes ops = concat (map (\<lambda>op. case op of OpState r s \<Rightarrow> [(r, s)] | _ \<Rightarrow> []) ops)"

lemma run_op_valid: "mem_valid m \<Longrightarrow> mem_valid (run_op op m)"
  by (cases op) (simp_all add: blocks.valid_put states.valid_put signed_blocks.valid_put)

lemma run_ops_valid: "mem_valid m \<Longrightarrow> mem_valid (fold run_op ops m)"
  by (induction ops arbitrary: m) (simp_all add: run_op_valid)

lemma run_ops_lookup:
  "GetBlock (fold run_op ops m) = GetBlock m ++ map_of (rev (block_writes ops))"
  "GetState (fold run_op ops m) = GetState m ++ map_of (rev (state_writes ops))"
proof (induction ops rule: rev_induct)
  case (snoc op ops)
  { case 1 show ?case by (cases op) (use snoc in \<open>auto simp: block_writes_def fun_eq_iff blocks.get_put map_add_def\<close>) }
  { case 2 show ?case by (cases op) (use snoc in \<open>auto simp: state_writes_def fun_eq_iff states.get_put map_add_def\<close>) }
qed (simp_all add: block_writes_def state_writes_def)

text \<open>
  The in-memory store is a faithful map. After any sequence of writes to an empty store,
  the block and the state found under a root are the ones written there last, and the copies of the
  tables list exactly the stored entries, each root once.
\<close>

theorem memory_store_faithful:
  "let m = fold run_op ops New in
     (\<forall>r. GetBlock m r = map_of (rev (block_writes ops)) r \<and> GetState m r = map_of (rev (state_writes ops)) r) \<and>
     distinct (map fst (GetAllBlocks m)) \<and> distinct (map fst (GetAllStates m)) \<and>
     (\<forall>r b. (r, b) \<in> set (GetAllBlocks m) \<longleftrightarrow> GetBlock m r = Some b) \<and>
     (\<forall>r s. (r, s) \<in> set (GetAllStates m) \<longleftrightarrow> GetState m r = Some s)"
  using run_ops_valid [OF New_valid, of ops]
  by (simp add: Let_def run_ops_lookup blocks.get_all_distinct states.get_all_distinct
      blocks.mem_get_all states.mem_get_all map_add_def split: option.split)

end
