(* ===== verification/Ghost.thy ===== *)
theory Ghost
  imports Storage
begin

text \<open>
  LMD GHOST, \<open>chain/forkchoice/ghost.go\<close>, and \<open>ceilDiv\<close> of \<open>helpers.go\<close>. Votes are walked
  up to the root, blocks below the minimum score are dropped, and the tree is walked down along the
  best child.

  Both walks follow data that comes from the store and would not end on a cyclic parent relation:
  they are partial functions whose value \<open>None\<close> is a walk that does not end. The theorems show that
  they end whenever parents have smaller slots than their children (\<open>forest\<close>), and that the result
  does not depend on the order in which Go visits its maps.
\<close>

unbundle bit_operations_syntax

subsection \<open>The code\<close>

fun hash_greater_loop :: "byte list \<Rightarrow> byte list \<Rightarrow> bool" where
  "hash_greater_loop (a # as) (b # bs) =
     (if a > b then True else if a < b then False else hash_greater_loop as bs)"
| "hash_greater_loop _ _ = False"

definition hashGreater :: "root \<Rightarrow> root \<Rightarrow> bool" where
  "hashGreater a b = hash_greater_loop (list_of_bytes a) (list_of_bytes b)"

definition ceilDiv :: "u64 \<Rightarrow> u64 \<Rightarrow> u64" where
  "ceilDiv a b = (a + b - 1) div b"

type_synonym block_map = "(root \<times> Block) list"
type_synonym vote_map = "(u64 \<times> SignedAttestation) list"
type_synonym weights = "root \<Rightarrow> int"

text \<open>The search for the earliest block when the root is the zero hash.\<close>

definition earliest_block :: "block_map \<Rightarrow> root" where
  "earliest_block blocks =
     fst (fold (\<lambda>(h, b) (earliest, minSlot).
            if b_slot b < minSlot then (h, b_slot b) else (earliest, minSlot))
          blocks (ZeroHash, NOT 0))"

text \<open>One vote: from its head block upwards, as long as the block is above the root's slot.\<close>

partial_function (option) count_ancestors ::
    "block_map \<Rightarrow> u64 \<Rightarrow> root \<Rightarrow> weights \<Rightarrow> weights option" where
  "count_ancestors blocks rootSlot blockHash voteWeights =
     (case map_of blocks blockHash of
        None \<Rightarrow> Some voteWeights
      | Some b \<Rightarrow>
          if b_slot b \<le> rootSlot then Some voteWeights
          else count_ancestors blocks rootSlot (b_parent_root b)
                 (voteWeights(blockHash := voteWeights blockHash + 1)))"

declare count_ancestors.simps [code]

fun count_votes_loop :: "block_map \<Rightarrow> u64 \<Rightarrow> SignedAttestation list \<Rightarrow> weights \<Rightarrow> weights option" where
  "count_votes_loop blocks rootSlot [] voteWeights = Some voteWeights"
| "count_votes_loop blocks rootSlot (sa # sas) voteWeights =
     (let headRoot = cp_root (ad_head (sa_message sa)) in
      case map_of blocks headRoot of
        None \<Rightarrow> count_votes_loop blocks rootSlot sas voteWeights
      | Some _ \<Rightarrow>
          Option.bind (count_ancestors blocks rootSlot headRoot voteWeights)
            (count_votes_loop blocks rootSlot sas))"

definition children_map :: "block_map \<Rightarrow> weights \<Rightarrow> int \<Rightarrow> root \<Rightarrow> root list" where
  "children_map blocks voteWeights minScore =
     fold (\<lambda>(blockHash, block) cm.
            if voteWeights blockHash \<ge> minScore
            then cm(b_parent_root block := cm (b_parent_root block) @ [blockHash]) else cm)
       blocks (\<lambda>_. [])"

text \<open>A candidate as the loop keeps it: weight, slot and hash; and when a child replaces the best one.\<close>

type_synonym candidate = "int \<times> u64 \<times> root"

definition better :: "candidate \<Rightarrow> candidate \<Rightarrow> bool" where
  "better = (\<lambda>(w, s, c) (bestWeight, bestSlot, best).
     w > bestWeight \<or> (w = bestWeight \<and> s > bestSlot) \<or>
     (w = bestWeight \<and> s = bestSlot \<and> hashGreater c best))"

definition candidate_of :: "block_map \<Rightarrow> weights \<Rightarrow> root \<Rightarrow> candidate" where
  "candidate_of blocks voteWeights c = (voteWeights c, b_slot (the (map_of blocks c)), c)"

definition best_child :: "block_map \<Rightarrow> weights \<Rightarrow> root \<Rightarrow> root list \<Rightarrow> root" where
  "best_child blocks voteWeights c cs =
     snd (snd (fold (\<lambda>c best. let x = candidate_of blocks voteWeights c in if better x best then x else best)
                cs (candidate_of blocks voteWeights c)))"

partial_function (option) descend ::
    "block_map \<Rightarrow> weights \<Rightarrow> (root \<Rightarrow> root list) \<Rightarrow> root \<Rightarrow> root option" where
  "descend blocks voteWeights childrenMap current =
     (case childrenMap current of
        [] \<Rightarrow> Some current
      | c # cs \<Rightarrow> descend blocks voteWeights childrenMap (best_child blocks voteWeights c cs))"

declare descend.simps [code]

definition GetForkChoiceHead :: "MemoryStore \<Rightarrow> root \<Rightarrow> vote_map \<Rightarrow> int \<Rightarrow> root option" where
  "GetForkChoiceHead store root latestAttestations minScore =
     (let blocks = GetAllBlocks store;
          root = (if root = ZeroHash then earliest_block blocks else root)
      in case map_of blocks root of
           None \<Rightarrow> Some root
         | Some rootBlock \<Rightarrow>
             Option.bind (count_votes_loop blocks (b_slot rootBlock) (map snd latestAttestations) (\<lambda>_. 0))
               (\<lambda>voteWeights.
                 descend blocks voteWeights (children_map blocks voteWeights minScore) root))"

subsection \<open>The order of candidates\<close>

text \<open>
  A loop that replaces the best candidate by a better one ends with the greatest, whatever the order
  of the candidates, when \<open>better\<close> is a strict linear order.
\<close>

locale strict_choice =
  fixes gt :: "'a \<Rightarrow> 'a \<Rightarrow> bool"
  assumes irrefl: "\<not> gt x x"
    and trans: "gt x y \<Longrightarrow> gt y z \<Longrightarrow> gt x z"
    and total: "x \<noteq> y \<Longrightarrow> gt x y \<or> gt y x"
begin

definition pick :: "'a \<Rightarrow> 'a list \<Rightarrow> 'a" where
  "pick x xs = fold (\<lambda>y best. if gt y best then y else best) xs x"

definition is_max :: "'a set \<Rightarrow> 'a \<Rightarrow> bool" where
  "is_max S a \<longleftrightarrow> a \<in> S \<and> (\<forall>y \<in> S. y \<noteq> a \<longrightarrow> gt a y)"

lemma is_max_unique:
  assumes "is_max S a" and "is_max S b"
  shows "a = b"
proof (rule ccontr)
  assume "a \<noteq> b"
  then have "gt a b" "gt b a" using assms by (auto simp: is_max_def)
  then show False using trans irrefl by blast
qed

lemma is_max_insert:
  assumes m: "is_max (insert z S) m" and z: "z = x \<or> gt z x"
  shows "is_max (insert x (insert z S)) m"
proof -
  have "gt m x" if "x \<noteq> m"
  proof (cases "z = m")
    case True
    then show ?thesis using z that by auto
  next
    case False
    then have "gt m z" using m by (simp add: is_max_def)
    then show ?thesis using z trans by blast
  qed
  then show ?thesis using m by (auto simp: is_max_def)
qed

lemma pick_max: "is_max (set (x # xs)) (pick x xs)"
proof (induction xs arbitrary: x)
  case (Cons y xs)
  show ?case
  proof (cases "gt y x")
    case True
    then have "is_max (insert x (insert y (set xs))) (pick y xs)"
      using Cons.IH [of y] by (intro is_max_insert) simp_all
    then show ?thesis using True by (simp add: pick_def)
  next
    case False
    then have "x = y \<or> gt x y" using total by blast
    then have "is_max (insert y (insert x (set xs))) (pick x xs)"
      using Cons.IH [of x] by (intro is_max_insert) simp_all
    then show ?thesis using False by (simp add: pick_def insert_commute)
  qed
qed (simp add: pick_def is_max_def)

lemma pick_order_independent: "set (x # xs) = set (y # ys) \<Longrightarrow> pick x xs = pick y ys"
  using is_max_unique pick_max by metis

end

lemma hash_greater_loop_less: "length as = length bs \<Longrightarrow> hash_greater_loop as bs \<longleftrightarrow> bs < as"
  by (induction as bs rule: hash_greater_loop.induct) auto

lemma hashGreater_less: "hashGreater a b \<longleftrightarrow> b < a"
  by (simp add: hashGreater_def hash_greater_loop_less less_bytes_def)

interpretation candidates: strict_choice better
  by unfold_locales (auto simp: better_def hashGreater_less)

subsection \<open>Trees of blocks\<close>

text \<open>
  Specification notions over the stored blocks as a map. \<open>forest\<close>: a stored parent has a smaller
  slot than its child. \<open>descends f h a\<close>: following parents from \<open>h\<close> leads to \<open>a\<close>.
\<close>

definition forest :: "block_map \<Rightarrow> bool" where
  "forest blocks \<longleftrightarrow>
     distinct (map fst blocks) \<and>
     list_all (\<lambda>(h, b). case map_of blocks (b_parent_root b) of
                 None \<Rightarrow> True | Some p \<Rightarrow> b_slot p < b_slot b) blocks"

lemma forest_distinct: "forest blocks \<Longrightarrow> distinct (map fst blocks)"
  by (simp add: forest_def)

lemma forest_parent:
  assumes "forest blocks" "map_of blocks h = Some b" "map_of blocks (b_parent_root b) = Some p"
  shows "b_slot p < b_slot b"
proof -
  have "(h, b) \<in> set blocks" using assms(2) by (rule map_of_SomeD)
  then show ?thesis using assms(1,3) by (fastforce simp: forest_def list_all_iff)
qed

inductive descends :: "(root \<rightharpoonup> Block) \<Rightarrow> root \<Rightarrow> root \<Rightarrow> bool" for f where
  self: "descends f h h"
| parent: "f h = Some b \<Longrightarrow> descends f (b_parent_root b) a \<Longrightarrow> descends f h a"

inductive_cases descendsE: "descends f h a"

lemma descends_unfold:
  "descends f h a \<longleftrightarrow> h = a \<or> (\<exists>b. f h = Some b \<and> descends f (b_parent_root b) a)"
  by (auto intro: descends.intros elim: descendsE)

lemma descends_trans: "descends f h a \<Longrightarrow> descends f a a' \<Longrightarrow> descends f h a'"
  by (induction rule: descends.induct) (auto intro: descends.intros)

lemma descends_slot:
  assumes "descends (map_of blocks) h a" and "forest blocks" and "map_of blocks h = Some b"
    and "map_of blocks a = Some c"
  shows "h = a \<or> b_slot c < b_slot b"
  using assms
proof (induction arbitrary: b rule: descends.induct)
  case (parent h b' a)
  then obtain p where p: "map_of blocks (b_parent_root b) = Some p"
    by (metis descends_unfold option.inject)
  then have "b_parent_root b = a \<or> b_slot c < b_slot p" using parent by simp
  moreover have "b_slot p < b_slot b" using forest_parent [OF parent.prems(1,2) p] .
  ultimately show ?case using p parent.prems(3) by auto
qed simp

definition above :: "(root \<rightharpoonup> Block) \<Rightarrow> u64 \<Rightarrow> root \<Rightarrow> bool" where
  "above f rootSlot h \<longleftrightarrow> (\<exists>b. f h = Some b \<and> rootSlot < b_slot b)"

text \<open>A vote supports every ancestor of its head block, the head included, above the root's slot.\<close>

definition supports :: "(root \<rightharpoonup> Block) \<Rightarrow> u64 \<Rightarrow> root \<Rightarrow> SignedAttestation \<Rightarrow> bool" where
  "supports f rootSlot h sa \<longleftrightarrow>
     (\<exists>b. f (cp_root (ad_head (sa_message sa))) = Some b) \<and>
     above f rootSlot h \<and> descends f (cp_root (ad_head (sa_message sa))) h"

text \<open>The number of validators whose latest vote supports the block.\<close>

definition support :: "(root \<rightharpoonup> Block) \<Rightarrow> u64 \<Rightarrow> (u64 \<rightharpoonup> SignedAttestation) \<Rightarrow> root \<Rightarrow> int" where
  "support f rootSlot votes h = int (card {v. \<exists>sa. votes v = Some sa \<and> supports f rootSlot h sa})"

subsection \<open>Counting votes\<close>

lemma count_ancestors_spec:
  assumes "forest blocks"
  shows "\<exists>w'. count_ancestors blocks rs h w = Some w' \<and>
    (\<forall>x. w' x = w x + (if above (map_of blocks) rs x \<and> descends (map_of blocks) h x then 1 else 0))"
proof (induction "case map_of blocks h of None \<Rightarrow> 0 | Some b \<Rightarrow> Suc (unat (b_slot b))"
    arbitrary: h w rule: less_induct)
  case less
  show ?case
  proof (cases "map_of blocks h")
    case None
    then have "\<not> (above (map_of blocks) rs x \<and> descends (map_of blocks) h x)" for x
      by (subst descends_unfold) (auto simp: above_def)
    then show ?thesis by (auto simp: count_ancestors.simps [of blocks rs h] None)
  next
    case (Some b)
    show ?thesis
    proof (cases "b_slot b \<le> rs")
      case True
      have "\<not> (above (map_of blocks) rs x \<and> descends (map_of blocks) h x)" for x
        using descends_slot [OF _ assms Some] True Some by (fastforce simp: above_def)
      then show ?thesis using True by (auto simp: count_ancestors.simps [of blocks rs h] Some)
    next
      case False
      let ?p = "b_parent_root b" and ?w = "w(h := w h + 1)"
      have smaller: "(case map_of blocks ?p of None \<Rightarrow> 0 | Some p \<Rightarrow> Suc (unat (b_slot p))) < Suc (unat (b_slot b))"
        using forest_parent [OF assms Some] by (auto simp: word_less_nat_alt split: option.split)
      then obtain w' where w': "count_ancestors blocks rs ?p ?w = Some w'"
        "\<And>x. w' x = ?w x + (if above (map_of blocks) rs x \<and> descends (map_of blocks) ?p x then 1 else 0)"
        using less [of ?p ?w] Some by auto
      have not_back: "\<not> descends (map_of blocks) ?p h"
      proof
        assume d: "descends (map_of blocks) ?p h"
        then obtain p where p: "map_of blocks ?p = Some p" using Some by (metis descends_unfold)
        then show False
          using descends_slot [OF d assms p Some] forest_parent [OF assms Some p] Some by auto
      qed
      have "descends (map_of blocks) h x \<longleftrightarrow> h = x \<or> descends (map_of blocks) ?p x" for x
        using Some by (subst descends_unfold) auto
      moreover have "above (map_of blocks) rs h" using Some False by (auto simp: above_def)
      ultimately show ?thesis
        using False Some w' not_back by (auto simp: count_ancestors.simps [of blocks rs h])
    qed
  qed
qed

lemma count_votes_loop_spec:
  assumes "forest blocks"
  shows "\<exists>w'. count_votes_loop blocks rs sas w = Some w' \<and>
    (\<forall>x. w' x = w x + int (length (filter (supports (map_of blocks) rs x) sas)))"
proof (induction sas arbitrary: w)
  case (Cons sa sas)
  let ?h = "cp_root (ad_head (sa_message sa))"
  show ?case
  proof (cases "map_of blocks ?h")
    case None
    then show ?thesis using Cons [of w] by (simp add: supports_def)
  next
    case (Some b)
    obtain w1 where w1: "count_ancestors blocks rs ?h w = Some w1"
      "\<And>x. w1 x = w x + (if above (map_of blocks) rs x \<and> descends (map_of blocks) ?h x then 1 else 0)"
      using count_ancestors_spec [OF assms] by blast
    have sup: "supports (map_of blocks) rs x sa \<longleftrightarrow>
        above (map_of blocks) rs x \<and> descends (map_of blocks) ?h x" for x
      using Some by (simp add: supports_def)
    obtain w2 where w2: "count_votes_loop blocks rs sas w1 = Some w2"
      "\<And>x. w2 x = w1 x + int (length (filter (supports (map_of blocks) rs x) sas))"
      using Cons [of w1] by blast
    have "count_votes_loop blocks rs (sa # sas) w = Some w2" by (simp add: Some w1(1) w2(1))
    moreover have "w2 x = w x + int (length (filter (supports (map_of blocks) rs x) (sa # sas)))" for x
      unfolding w2(2) w1(2) by (simp add: sup)
    ultimately show ?thesis by blast
  qed
qed simp

lemma length_filter_votes:
  assumes "distinct (map fst m)"
  shows "length (filter (P \<circ> snd) m) = card {k. \<exists>v. map_of m k = Some v \<and> P v}"
  using assms
proof (induction m)
  case (Cons x m)
  obtain k v where x: "x = (k, v)" by force
  have k: "map_of m k = None" using Cons.prems by (simp add: x map_of_eq_None_iff)
  let ?S = "{k. \<exists>v. map_of m k = Some v \<and> P v}"
  have fin: "finite ?S" by (rule finite_subset [OF _ finite_dom_map_of [of m]]) auto
  have "{k'. \<exists>v'. map_of (x # m) k' = Some v' \<and> P v'} = (if P v then insert k ?S else ?S)"
    using k by (auto simp: x)
  moreover have "k \<notin> ?S" using k by simp
  ultimately show ?case using Cons fin by (simp add: x)
qed simp

lemma vote_weights_support:
  assumes "forest blocks" and "distinct (map fst votes)"
  shows "count_votes_loop blocks rs (map snd votes) (\<lambda>_. 0) =
    Some (support (map_of blocks) rs (map_of votes))"
  using count_votes_loop_spec [OF assms(1), of rs "map snd votes" "\<lambda>_. 0"]
  by (auto simp: length_filter_votes [OF assms(2)] support_def fun_eq_iff filter_map)

subsection \<open>Walking down\<close>

definition eligible :: "(root \<rightharpoonup> Block) \<Rightarrow> weights \<Rightarrow> int \<Rightarrow> root \<Rightarrow> root \<Rightarrow> bool" where
  "eligible f w minScore p c \<longleftrightarrow> (\<exists>b. f c = Some b \<and> b_parent_root b = p) \<and> minScore \<le> w c"

text \<open>The heaviest eligible child, ties broken by slot and then by hash.\<close>

definition best_of :: "(root \<rightharpoonup> Block) \<Rightarrow> weights \<Rightarrow> int \<Rightarrow> root \<Rightarrow> root \<Rightarrow> bool" where
  "best_of f w minScore p c \<longleftrightarrow>
     eligible f w minScore p c \<and>
     (\<forall>c'. eligible f w minScore p c' \<longrightarrow> c' \<noteq> c \<longrightarrow>
        better (w c, b_slot (the (f c)), c) (w c', b_slot (the (f c')), c'))"

text \<open>The GHOST rule: from the root down along best children to a block without eligible child.\<close>

inductive ghost :: "(root \<rightharpoonup> Block) \<Rightarrow> weights \<Rightarrow> int \<Rightarrow> root \<Rightarrow> root \<Rightarrow> bool" for f w minScore where
  leaf: "(\<forall>c. \<not> eligible f w minScore h c) \<Longrightarrow> ghost f w minScore h h"
| child: "best_of f w minScore p c \<Longrightarrow> ghost f w minScore c h \<Longrightarrow> ghost f w minScore p h"

inductive_cases ghostE: "ghost f w minScore p h"

lemma best_of_unique:
  assumes "best_of f w minScore p c" and "best_of f w minScore p c'"
  shows "c = c'"
proof (rule ccontr)
  let ?x = "(w c, b_slot (the (f c)), c)" and ?y = "(w c', b_slot (the (f c')), c')"
  assume "c \<noteq> c'"
  then have "better ?x ?y" "better ?y ?x" using assms by (simp_all add: best_of_def)
  then have "better ?x ?x" by (rule candidates.trans)
  then show False using candidates.irrefl by blast
qed

lemma ghost_deterministic: "ghost f w minScore p h \<Longrightarrow> ghost f w minScore p h' \<Longrightarrow> h = h'"
proof (induction arbitrary: h' rule: ghost.induct)
  case (leaf h)
  from leaf.prems show ?case by (cases rule: ghost.cases) (use leaf.hyps in \<open>auto simp: best_of_def\<close>)
next
  case (child p c h)
  note best = child.hyps(1) and IH = child.IH
  from child.prems show ?case
  proof (cases rule: ghost.cases)
    case leaf
    then show ?thesis using best by (auto simp: best_of_def)
  next
    case (child c')
    then show ?thesis using IH best_of_unique [OF best] by blast
  qed
qed

lemma ghost_end:
  assumes "ghost f w minScore p h"
  shows "descends f h p" and "\<not> eligible f w minScore h c"
    and "h = p \<or> (\<exists>b. f h = Some b) \<and> minScore \<le> w h"
  using assms
proof (induction rule: ghost.induct)
  case (leaf h)
  { case 1 show ?case by (rule descends.self) }
  { case 2 show ?case using leaf by blast }
  { case 3 show ?case by simp }
next
  case (child p c h)
  then have c: "descends f c p" by (auto simp: best_of_def eligible_def intro: descends.intros)
  { case 1 show ?case using child.IH(1) c by (rule descends_trans) }
  { case 2 show ?case by (rule child.IH(2)) }
  { case 3 show ?case using child.IH(3) child.hyps(1) by (auto simp: best_of_def eligible_def) }
qed

lemma children_map_filter:
  "children_map blocks w minScore p =
     map fst (filter (\<lambda>(h, b). minScore \<le> w h \<and> b_parent_root b = p) blocks)"
proof -
  have "fold (\<lambda>(h, b) cm. if w h \<ge> minScore then cm(b_parent_root b := cm (b_parent_root b) @ [h]) else cm)
      blocks cm p = cm p @ map fst (filter (\<lambda>(h, b). minScore \<le> w h \<and> b_parent_root b = p) blocks)" for cm
    by (induction blocks arbitrary: cm) (auto split: if_splits)
  then show ?thesis by (simp add: children_map_def)
qed

lemma set_children_map:
  assumes "distinct (map fst blocks)"
  shows "c \<in> set (children_map blocks w minScore p) \<longleftrightarrow> eligible (map_of blocks) w minScore p c"
  using map_of_eq_Some_iff [OF assms]
  by (force simp: children_map_filter eligible_def simp del: map_of_eq_Some_iff)

lemma best_child_pick:
  "best_child blocks w c cs =
     snd (snd (candidates.pick (candidate_of blocks w c) (map (candidate_of blocks w) cs)))"
  by (simp add: best_child_def candidates.pick_def fold_map comp_def Let_def)

lemma best_child_best_of:
  assumes "distinct (map fst blocks)" and "children_map blocks w minScore p = c # cs"
  shows "best_of (map_of blocks) w minScore p (best_child blocks w c cs)"
proof -
  let ?cand = "candidate_of blocks w" and ?best = "best_child blocks w c cs"
  have set: "c' \<in> set (c # cs) \<longleftrightarrow> eligible (map_of blocks) w minScore p c'" for c'
    using set_children_map [OF assms(1), of c' w minScore p] assms(2) by simp
  have "candidates.is_max (set (map ?cand (c # cs))) (candidates.pick (?cand c) (map ?cand cs))"
    using candidates.pick_max [of "?cand c" "map ?cand cs"] by simp
  then have im: "candidates.pick (?cand c) (map ?cand cs) \<in> ?cand ` set (c # cs)"
    and max: "\<forall>y \<in> ?cand ` set (c # cs). y \<noteq> candidates.pick (?cand c) (map ?cand cs) \<longrightarrow>
      better (candidates.pick (?cand c) (map ?cand cs)) y"
    unfolding candidates.is_max_def by simp_all
  then obtain x where x: "candidates.pick (?cand c) (map ?cand cs) = ?cand x" "x \<in> set (c # cs)"
    by (elim imageE)
  have "?best = x" by (simp add: best_child_pick x(1)) (simp add: candidate_of_def)
  moreover have "better (?cand x) (?cand c')" if "eligible (map_of blocks) w minScore p c'" "c' \<noteq> x" for c'
    using that max x(1) set [of c'] by (auto simp: candidate_of_def)
  ultimately show ?thesis
    using x(2) unfolding set by (simp add: best_of_def candidate_of_def)
qed

lemma descend_ghost:
  assumes "forest blocks" and "map_of blocks p = Some b"
  shows "\<exists>h. descend blocks w (children_map blocks w minScore) p = Some h \<and>
    ghost (map_of blocks) w minScore p h"
  using assms(2)
proof (induction "2 ^ 64 - unat (b_slot b)" arbitrary: p b rule: less_induct)
  case less
  let ?cm = "children_map blocks w minScore"
  show ?case
  proof (cases "?cm p")
    case Nil
    then have "\<not> eligible (map_of blocks) w minScore p c" for c
      using set_children_map [OF forest_distinct [OF assms(1)], of c w minScore p] by simp
    then show ?thesis using Nil by (auto simp: descend.simps [of blocks w ?cm p] intro: ghost.leaf)
  next
    case (Cons c cs)
    let ?c = "best_child blocks w c cs"
    have best: "best_of (map_of blocks) w minScore p ?c"
      using forest_distinct [OF assms(1)] Cons by (rule best_child_best_of)
    then obtain b' where b': "map_of blocks ?c = Some b'" "b_parent_root b' = p"
      by (auto simp: best_of_def eligible_def)
    then have "b_slot b < b_slot b'" using forest_parent [OF assms(1)] less.prems by auto
    then have "2 ^ 64 - unat (b_slot b') < 2 ^ 64 - unat (b_slot b)"
      using unat_lt_2_64 [of "b_slot b"] by (simp add: word_less_nat_alt diff_less_mono2)
    then obtain h where "descend blocks w ?cm ?c = Some h" "ghost (map_of blocks) w minScore ?c h"
      using less.hyps b'(1) by blast
    then show ?thesis
      using best Cons by (auto simp: descend.simps [of blocks w ?cm p] intro: ghost.child)
  qed
qed

subsection \<open>The head\<close>

definition start_root :: "MemoryStore \<Rightarrow> root \<Rightarrow> root" where
  "start_root store root = (if root = ZeroHash then earliest_block (GetAllBlocks store) else root)"

lemma GetForkChoiceHead_unknown:
  assumes "mem_valid store" and "GetBlock store (start_root store root) = None"
  shows "GetForkChoiceHead store root votes minScore = Some (start_root store root)"
  using assms by (simp add: GetForkChoiceHead_def start_root_def [symmetric] Let_def blocks.map_of_get_all)

lemma GetForkChoiceHead_ghost:
  assumes "mem_valid store" and "forest (GetAllBlocks store)" and "distinct (map fst votes)"
    and "GetBlock store (start_root store root) = Some rb"
  shows "\<exists>h. GetForkChoiceHead store root votes minScore = Some h \<and>
    ghost (GetBlock store) (support (GetBlock store) (b_slot rb) (map_of votes)) minScore
      (start_root store root) h"
proof -
  note f = blocks.map_of_get_all [OF assms(1)]
  have w: "count_votes_loop (GetAllBlocks store) (b_slot rb) (map snd votes) (\<lambda>_. 0) =
      Some (support (GetBlock store) (b_slot rb) (map_of votes))"
    using vote_weights_support [OF assms(2,3)] by (simp add: f)
  from descend_ghost [OF assms(2), of "start_root store root" rb
      "support (GetBlock store) (b_slot rb) (map_of votes)" minScore] assms(4)
  show ?thesis
    by (auto simp: GetForkChoiceHead_def start_root_def [symmetric] Let_def f w)
qed

lemma GetForkChoiceHead_total:
  assumes "mem_valid store" and "forest (GetAllBlocks store)" and "distinct (map fst votes)"
  obtains h where "GetForkChoiceHead store root votes minScore = Some h"
  using GetForkChoiceHead_unknown [OF assms(1)] GetForkChoiceHead_ghost [OF assms]
  by (cases "GetBlock store (start_root store root)") blast+

lemma earliest_block_min:
  assumes "map_of blocks h = Some b" and "b_slot b \<noteq> - 1"
  shows "\<exists>b'. (earliest_block blocks, b') \<in> set blocks \<and> (\<forall>(k, c) \<in> set blocks. b_slot b' \<le> b_slot c)"
proof -
  let ?step = "\<lambda>(h, b) (e, m). if b_slot b < m then (h, b_slot b) else (e, m :: u64)"
  have inv: "(\<forall>(k, c) \<in> set blocks. snd (fold ?step blocks (ZeroHash, - 1)) \<le> b_slot c) \<and>
      (snd (fold ?step blocks (ZeroHash, - 1)) = - 1 \<or>
       (\<exists>b'. (fst (fold ?step blocks (ZeroHash, - 1)), b') \<in> set blocks \<and>
         b_slot b' = snd (fold ?step blocks (ZeroHash, - 1))))"
  proof (induction blocks rule: rev_induct)
    case (snoc x blocks)
    obtain k c where x: "x = (k, c)" by force
    show ?case
    proof (cases "b_slot c < snd (fold ?step blocks (ZeroHash, - 1))")
      case True
      then show ?thesis using snoc by (auto simp: x case_prod_unfold intro: order.trans [OF less_imp_le])
    next
      case False
      then show ?thesis using snoc by (auto simp: x case_prod_unfold)
    qed
  qed simp
  have "(h, b) \<in> set blocks" using assms(1) by (rule map_of_SomeD)
  then have "snd (fold ?step blocks (ZeroHash, - 1)) \<le> b_slot b" using inv by auto
  then have "snd (fold ?step blocks (ZeroHash, - 1)) \<noteq> - 1"
    using assms(2) by (metis word_order.extremum_uniqueI)
  then obtain b' where "(fst (fold ?step blocks (ZeroHash, - 1)), b') \<in> set blocks"
    "b_slot b' = snd (fold ?step blocks (ZeroHash, - 1))" using inv by blast
  then show ?thesis using inv by (intro exI [of _ b']) (simp add: earliest_block_def)
qed

subsection \<open>Example tree\<close>

text \<open>
  A root with two children, one of them with a child, and a vote for the other one: with a positive
  weight the lighter but longer branch loses.
\<close>

definition ex_tree_block :: "u64 \<Rightarrow> root \<Rightarrow> Block" where
  "ex_tree_block slot parent =
     \<lparr>b_slot = slot, b_proposer = 0, b_parent_root = parent, b_state_root = ZeroHash,
      b_body = \<lparr>body_attestations = []\<rparr>\<rparr>"

definition ex_hash_of :: "byte \<Rightarrow> root" where
  "ex_hash_of b = bytes_of [b]"

definition ex_tree :: MemoryStore where
  "ex_tree = fold (\<lambda>(h, s, p). PutBlock (ex_hash_of h) (ex_tree_block s (ex_hash_of p)))
     [(1, 0, 0), (2, 1, 1), (3, 2, 1), (4, 3, 2)] New"

definition ex_tree_shuffled :: MemoryStore where
  "ex_tree_shuffled = fold (\<lambda>(h, s, p). PutBlock (ex_hash_of h) (ex_tree_block s (ex_hash_of p)))
     [(4, 3, 2), (3, 2, 1), (1, 0, 0), (2, 1, 1)] New"

definition ex_head_vote :: "u64 \<Rightarrow> byte \<Rightarrow> SignedAttestation" where
  "ex_head_vote v h =
     (let c = \<lparr>cp_root = ex_hash_of 1, cp_slot = 0\<rparr> in
      \<lparr>sa_validator = v,
       sa_message = \<lparr>ad_slot = 3, ad_head = \<lparr>cp_root = ex_hash_of h, cp_slot = 2\<rparr>, ad_target = c, ad_source = c\<rparr>,
       sa_signature = bytes_of []\<rparr>)"

definition ex_tree_votes :: vote_map where
  "ex_tree_votes = [(0, ex_head_vote 0 3), (1, ex_head_vote 1 4), (2, ex_head_vote 2 3)]"

lemma ex_tree_facts:
  "mem_valid ex_tree" "mem_valid ex_tree_shuffled" "forest (GetAllBlocks ex_tree)"
  "forest (GetAllBlocks ex_tree_shuffled)" "distinct (map fst ex_tree_votes)"
  "GetBlock ex_tree (start_root ex_tree (ex_hash_of 1)) = Some (ex_tree_block 0 (ex_hash_of 0))"
  "ex_hash_of 1 \<noteq> ZeroHash"
  "GetForkChoiceHead ex_tree (ex_hash_of 1) ex_tree_votes 0 = Some (ex_hash_of 3)"
  by code_simp+

lemma ex_tree_same_blocks: "GetBlock ex_tree = GetBlock ex_tree_shuffled"
  by (auto simp: fun_eq_iff ex_tree_def ex_tree_shuffled_def blocks.get_put ex_hash_of_def bytes_eq_iff
      list_of_bytes_bytes_of)

subsection \<open>Theorems\<close>

text \<open>
  C3: on stored blocks whose parents have smaller slots, \<open>GetForkChoiceHead\<close> ends and
  returns the GHOST head. Block weights are exactly the numbers of validators whose latest vote is
  for the block or one of its descendants; the head descends from the start root along the best
  eligible children and has no eligible child itself.
\<close>

theorem GetForkChoiceHead_correct:
  assumes "mem_valid store" and "forest (GetAllBlocks store)" and "distinct (map fst votes)"
    and "GetBlock store (start_root store root) = Some rb"
  shows "\<exists>h. GetForkChoiceHead store root votes minScore = Some h \<and>
    ghost (GetBlock store) (support (GetBlock store) (b_slot rb) (map_of votes)) minScore
      (start_root store root) h \<and>
    descends (GetBlock store) h (start_root store root) \<and>
    (\<forall>c b. GetBlock store c = Some b \<and> b_parent_root b = h \<longrightarrow>
      support (GetBlock store) (b_slot rb) (map_of votes) c < minScore)"
proof -
  obtain h where h: "GetForkChoiceHead store root votes minScore = Some h"
    "ghost (GetBlock store) (support (GetBlock store) (b_slot rb) (map_of votes)) minScore
      (start_root store root) h"
    using GetForkChoiceHead_ghost [OF assms] by blast
  then show ?thesis using ghost_end(1,2) [OF h(2)] by (auto simp: eligible_def not_le [symmetric])
qed

theorem GetForkChoiceHead_correct_witness:
  "descends (GetBlock ex_tree) (ex_hash_of 3) (ex_hash_of 1)"
proof -
  have "start_root ex_tree (ex_hash_of 1) = ex_hash_of 1" by code_simp
  then show ?thesis
    using GetForkChoiceHead_correct [OF ex_tree_facts(1,3,5,6), of 0] ex_tree_facts(8) by auto
qed



text \<open>
  A head found with a positive minimum score is the start root or a block that at least
  that many validators support with their latest vote.
\<close>

theorem GetForkChoiceHead_min_score:
  assumes "mem_valid store" and "forest (GetAllBlocks store)" and "distinct (map fst votes)"
    and "GetBlock store (start_root store root) = Some rb"
    and "GetForkChoiceHead store root votes minScore = Some h"
  shows "h = start_root store root \<or>
    minScore \<le> support (GetBlock store) (b_slot rb) (map_of votes) h \<and> descends (GetBlock store) h (start_root store root)"
proof -
  have g: "ghost (GetBlock store) (support (GetBlock store) (b_slot rb) (map_of votes)) minScore
      (start_root store root) h"
    using GetForkChoiceHead_ghost [OF assms(1-4), of minScore] assms(5) by auto
  show ?thesis using ghost_end(1,3) [OF g] by blast
qed

theorem GetForkChoiceHead_min_score_witness:
  "2 \<le> support (GetBlock ex_tree) 0 (map_of ex_tree_votes) (ex_hash_of 3)"
proof -
  have "GetForkChoiceHead ex_tree (ex_hash_of 1) ex_tree_votes 2 = Some (ex_hash_of 3)"
    "ex_hash_of 3 \<noteq> start_root ex_tree (ex_hash_of 1)" "b_slot (ex_tree_block 0 (ex_hash_of 0)) = 0"
    by code_simp+
  then show ?thesis using GetForkChoiceHead_min_score [OF ex_tree_facts(1,3,5,6)] by fastforce
qed

end
