(* ===== verification/Leansig.thy ===== *)
theory Leansig
  imports Types
begin

text \<open>
  The Go side of the XMSS bindings, \<open>xmss/leansig/leansig.go\<close>. The Rust library behind them is a
  parameter: the record \<open>leansig_ffi\<close> has one field per C function that is called, over an abstract
  type of key handles. Functions that hand out a buffer return its bytes; copying it to a Go slice
  and freeing it (\<open>leansig_bytes_free\<close>) leaves nothing to model.
\<close>

subsection \<open>Result codes and errors\<close>

definition ResultOK :: int where "ResultOK = 0"
definition ResultVerificationFailed :: int where "ResultVerificationFailed = 5"

datatype leansig_error =
    KeypairNil
  | EmptyPublicKey
  | EmptySecretKey
  | EmptyPubkeyOrSignature
  | EmptySignature
  | VerificationFailed
  | FailedWithCode string int

record 'kp leansig_ffi =
  c_keypair_generate :: "u64 \<Rightarrow> u64 \<Rightarrow> u64 \<Rightarrow> int \<times> 'kp"
  c_keypair_restore :: "byte list \<Rightarrow> byte list \<Rightarrow> int \<times> 'kp"
  c_pubkey_serialize :: "'kp \<Rightarrow> int \<times> byte list"
  c_seckey_serialize :: "'kp \<Rightarrow> int \<times> byte list"
  c_activation_start :: "'kp \<Rightarrow> u64"
  c_activation_end :: "'kp \<Rightarrow> u64"
  c_prepared_start :: "'kp \<Rightarrow> u64"
  c_prepared_end :: "'kp \<Rightarrow> u64"
  c_advance_preparation :: "'kp \<Rightarrow> int \<times> 'kp"
  c_sign :: "'kp \<Rightarrow> u32 \<Rightarrow> root \<Rightarrow> int \<times> byte list"
  c_verify :: "byte list \<Rightarrow> u32 \<Rightarrow> root \<Rightarrow> byte list \<Rightarrow> int"
  c_verify_with_keypair :: "'kp \<Rightarrow> u32 \<Rightarrow> root \<Rightarrow> byte list \<Rightarrow> int"

subsection \<open>The wrappers\<close>

record 'kp Keypair =
  kp_ptr :: "'kp option"

definition checked :: "string \<Rightarrow> int \<Rightarrow> 'a \<Rightarrow> leansig_error + 'a" where
  "checked name result x = (if result \<noteq> ResultOK then Inl (FailedWithCode name result) else Inr x)"

definition GenerateKeypair ::
    "'kp leansig_ffi \<Rightarrow> u64 \<Rightarrow> u64 \<Rightarrow> u64 \<Rightarrow> leansig_error + 'kp Keypair" where
  "GenerateKeypair ffi seed activationEpoch numActiveEpochs =
     (case c_keypair_generate ffi seed activationEpoch numActiveEpochs of
        (result, ptr) \<Rightarrow> checked ''leansig_keypair_generate'' result \<lparr>kp_ptr = Some ptr\<rparr>)"

definition RestoreKeypair :: "'kp leansig_ffi \<Rightarrow> byte list \<Rightarrow> byte list \<Rightarrow> leansig_error + 'kp Keypair" where
  "RestoreKeypair ffi pkBytes skBytes =
     (if length pkBytes = 0 then Inl EmptyPublicKey
      else if length skBytes = 0 then Inl EmptySecretKey
      else case c_keypair_restore ffi pkBytes skBytes of
        (result, kpPtr) \<Rightarrow> checked ''leansig_keypair_restore'' result \<lparr>kp_ptr = Some kpPtr\<rparr>)"

text \<open>The handles to be released by \<open>leansig_keypair_free\<close>, and the wrapper afterwards.\<close>

definition Free :: "'kp Keypair \<Rightarrow> 'kp list \<times> 'kp Keypair" where
  "Free kp = (case kp_ptr kp of None \<Rightarrow> ([], kp) | Some ptr \<Rightarrow> ([ptr], kp\<lparr>kp_ptr := None\<rparr>))"

definition PublicKeyBytes :: "'kp leansig_ffi \<Rightarrow> 'kp Keypair \<Rightarrow> leansig_error + byte list" where
  "PublicKeyBytes ffi kp =
     (case kp_ptr kp of None \<Rightarrow> Inl KeypairNil
      | Some ptr \<Rightarrow> (case c_pubkey_serialize ffi ptr of
          (result, data) \<Rightarrow> checked ''leansig_pubkey_serialize'' result data))"

definition SecretKeyBytes :: "'kp leansig_ffi \<Rightarrow> 'kp Keypair \<Rightarrow> leansig_error + byte list" where
  "SecretKeyBytes ffi kp =
     (case kp_ptr kp of None \<Rightarrow> Inl KeypairNil
      | Some ptr \<Rightarrow> (case c_seckey_serialize ffi ptr of
          (result, data) \<Rightarrow> checked ''leansig_seckey_serialize'' result data))"

definition ActivationStart :: "'kp leansig_ffi \<Rightarrow> 'kp Keypair \<Rightarrow> u64" where
  "ActivationStart ffi kp = (case kp_ptr kp of None \<Rightarrow> 0 | Some ptr \<Rightarrow> c_activation_start ffi ptr)"

definition ActivationEnd :: "'kp leansig_ffi \<Rightarrow> 'kp Keypair \<Rightarrow> u64" where
  "ActivationEnd ffi kp = (case kp_ptr kp of None \<Rightarrow> 0 | Some ptr \<Rightarrow> c_activation_end ffi ptr)"

definition PreparedStart :: "'kp leansig_ffi \<Rightarrow> 'kp Keypair \<Rightarrow> u64" where
  "PreparedStart ffi kp = (case kp_ptr kp of None \<Rightarrow> 0 | Some ptr \<Rightarrow> c_prepared_start ffi ptr)"

definition PreparedEnd :: "'kp leansig_ffi \<Rightarrow> 'kp Keypair \<Rightarrow> u64" where
  "PreparedEnd ffi kp = (case kp_ptr kp of None \<Rightarrow> 0 | Some ptr \<Rightarrow> c_prepared_end ffi ptr)"

text \<open>The library advances the key behind the handle in place.\<close>

definition AdvancePreparation ::
    "'kp leansig_ffi \<Rightarrow> 'kp Keypair \<Rightarrow> leansig_error option \<times> 'kp Keypair" where
  "AdvancePreparation ffi kp =
     (case kp_ptr kp of None \<Rightarrow> (Some KeypairNil, kp)
      | Some ptr \<Rightarrow> (case c_advance_preparation ffi ptr of
          (result, ptr') \<Rightarrow>
            (if result \<noteq> ResultOK then Some (FailedWithCode ''leansig_sk_advance_preparation'' result) else None,
             kp\<lparr>kp_ptr := Some ptr'\<rparr>)))"

definition Sign :: "'kp leansig_ffi \<Rightarrow> 'kp Keypair \<Rightarrow> u32 \<Rightarrow> root \<Rightarrow> leansig_error + byte list" where
  "Sign ffi kp epoch message =
     (case kp_ptr kp of None \<Rightarrow> Inl KeypairNil
      | Some ptr \<Rightarrow> (case c_sign ffi ptr epoch message of
          (result, sig) \<Rightarrow> checked ''leansig_sign'' result sig))"

definition verify_result :: "string \<Rightarrow> int \<Rightarrow> leansig_error option" where
  "verify_result name result =
     (if result = ResultOK then None
      else if result = ResultVerificationFailed then Some VerificationFailed
      else Some (FailedWithCode name result))"

text \<open>\<open>cverify\<close> is the C function \<open>leansig_verify\<close>, the only one that needs no key handle.\<close>

definition Verify ::
    "(byte list \<Rightarrow> u32 \<Rightarrow> root \<Rightarrow> byte list \<Rightarrow> int) \<Rightarrow> byte list \<Rightarrow> u32 \<Rightarrow> root \<Rightarrow> byte list \<Rightarrow>
      leansig_error option" where
  "Verify cverify pubkeyBytes epoch message sigBytes =
     (if length pubkeyBytes = 0 \<or> length sigBytes = 0 then Some EmptyPubkeyOrSignature
      else verify_result ''leansig_verify'' (cverify pubkeyBytes epoch message sigBytes))"

definition VerifyWithKeypair ::
    "'kp leansig_ffi \<Rightarrow> 'kp Keypair \<Rightarrow> u32 \<Rightarrow> root \<Rightarrow> byte list \<Rightarrow> leansig_error option" where
  "VerifyWithKeypair ffi kp epoch message sigBytes =
     (case kp_ptr kp of None \<Rightarrow> Some KeypairNil
      | Some ptr \<Rightarrow>
          if length sigBytes = 0 then Some EmptySignature
          else verify_result ''leansig_verify_with_keypair'' (c_verify_with_keypair ffi ptr epoch message sigBytes))"

subsection \<open>Lemmas\<close>

lemma Verify_None_iff:
  "Verify cverify pk epoch message sig = None \<longleftrightarrow>
     pk \<noteq> [] \<and> sig \<noteq> [] \<and> cverify pk epoch message sig = ResultOK"
  by (simp add: Verify_def verify_result_def)

text \<open>
  A signature produced through the bindings verifies through them, if the library accepts, under the
  serialized public key, every signature it makes with a key.
\<close>

lemma sign_verify:
  assumes correct: "\<And>kp pk epoch message sig.
      c_pubkey_serialize ffi kp = (ResultOK, pk) \<Longrightarrow> c_sign ffi kp epoch message = (ResultOK, sig) \<Longrightarrow>
      pk \<noteq> [] \<and> sig \<noteq> [] \<and> c_verify ffi pk epoch message sig = ResultOK"
    and "PublicKeyBytes ffi kp = Inr pk" and "Sign ffi kp epoch message = Inr sig"
  shows "Verify (c_verify ffi) pk epoch message sig = None"
proof -
  obtain ptr where "c_pubkey_serialize ffi ptr = (ResultOK, pk)" "c_sign ffi ptr epoch message = (ResultOK, sig)"
    using assms(2,3) by (auto simp: PublicKeyBytes_def Sign_def checked_def split: option.splits prod.splits if_splits)
  then show ?thesis using correct by (simp add: Verify_None_iff)
qed

text \<open>
  A key pair is released exactly once and is unusable afterwards: freeing it a second
  time frees nothing, and every operation on it reports the missing key.
\<close>

theorem Free_once:
  assumes "Free kp = (freed, kp')"
  shows "(case kp_ptr kp of None \<Rightarrow> freed = [] | Some ptr \<Rightarrow> freed = [ptr]) \<and>
    Free kp' = ([], kp') \<and> Sign ffi kp' epoch message = Inl KeypairNil \<and>
    PublicKeyBytes ffi kp' = Inl KeypairNil \<and> SecretKeyBytes ffi kp' = Inl KeypairNil \<and>
    fst (AdvancePreparation ffi kp') = Some KeypairNil \<and>
    VerifyWithKeypair ffi kp' epoch message sig = Some KeypairNil \<and>
    ActivationStart ffi kp' = 0 \<and> PreparedEnd ffi kp' = 0"
  using assms
  by (auto simp: Free_def Sign_def PublicKeyBytes_def SecretKeyBytes_def AdvancePreparation_def
      VerifyWithKeypair_def ActivationStart_def PreparedEnd_def split: option.splits)

theorem Free_once_witness:
  "Free \<lparr>kp_ptr = (None :: byte option)\<rparr> = ([], \<lparr>kp_ptr = None\<rparr>)"
proof -
  have "Free \<lparr>kp_ptr = Some (7 :: byte)\<rparr> = ([7], \<lparr>kp_ptr = None\<rparr>)" by (simp add: Free_def)
  then show ?thesis using Free_once by blast
qed

end
