(* ===== verification/ForkChoice.thy ===== *)
theory ForkChoice
  imports Ghost Transition Leansig
begin

text \<open>
  The fork choice store, \<open>chain/forkchoice/store.go\<close>, \<open>time.go\<close>, \<open>attestation.go\<close> and
  \<open>block.go\<close>. Every exported method takes the store's mutex and keeps it to its end, so each is
  one atomic step; the model passes the store as a value. Logging is left out, and metrics are in \<open>Metrics\<close>.

  Three things come from outside: the hasher of fastssz and the C verification function, both fields
  of \<open>env\<close>, and the clock \<open>NowFn\<close>, the argument \<open>now\<close> (\<open>None\<close> when the field is nil).
  \<open>env_verify_signatures\<close> is the build tag that selects \<open>sig_verify.go\<close> or
  \<open>sig_verify_skip.go\<close>.

  Operations that look for a head return \<open>None\<close> when that search does not end.
\<close>

subsection \<open>The store\<close>

record env =
  env_hash :: hasher
  env_cverify :: "byte list \<Rightarrow> u32 \<Rightarrow> root \<Rightarrow> byte list \<Rightarrow> int"
  env_verify_signatures :: bool

record Store =
  fc_time :: u64
  fc_genesis_time :: u64
  fc_num_validators :: u64
  fc_head :: root
  fc_safe_target :: root
  fc_latest_justified :: Checkpoint
  fc_latest_finalized :: Checkpoint
  fc_storage :: MemoryStore
  fc_known :: vote_map
  fc_new :: vote_map

record ChainStatus =
  cs_head :: root
  cs_head_slot :: u64
  cs_justified_root :: root
  cs_justified_slot :: u64
  cs_finalized_root :: root
  cs_finalized_slot :: u64

definition GetStatus :: "Store \<Rightarrow> ChainStatus" where
  "GetStatus c =
     \<lparr>cs_head = fc_head c,
      cs_head_slot = (case GetBlock (fc_storage c) (fc_head c) of None \<Rightarrow> 0 | Some hb \<Rightarrow> b_slot hb),
      cs_justified_root = cp_root (fc_latest_justified c), cs_justified_slot = cp_slot (fc_latest_justified c),
      cs_finalized_root = cp_root (fc_latest_finalized c), cs_finalized_slot = cp_slot (fc_latest_finalized c)\<rparr>"

definition NumValidators :: "Store \<Rightarrow> u64" where
  "NumValidators c = fc_num_validators c"

definition Store_GetBlock :: "Store \<Rightarrow> root \<Rightarrow> Block option" where
  "Store_GetBlock c r = GetBlock (fc_storage c) r"

definition Store_GetSignedBlock :: "Store \<Rightarrow> root \<Rightarrow> SignedBlockWithAttestation option" where
  "Store_GetSignedBlock c r = GetSignedBlock (fc_storage c) r"

definition GetKnownAttestation :: "Store \<Rightarrow> u64 \<Rightarrow> SignedAttestation option" where
  "GetKnownAttestation c validator = map_of (fc_known c) validator"

definition GetNewAttestation :: "Store \<Rightarrow> u64 \<Rightarrow> SignedAttestation option" where
  "GetNewAttestation c validator = map_of (fc_new c) validator"

text \<open>\<open>None\<close> is the panic on an anchor block that does not carry the anchor state's root.\<close>

definition NewStore :: "hasher \<Rightarrow> State \<Rightarrow> Block \<Rightarrow> MemoryStore \<Rightarrow> Store option" where
  "NewStore hash state anchorBlock store =
     (let stateRoot = fst (State_HashTreeRoot hash state) in
      if b_state_root anchorBlock \<noteq> stateRoot then None
      else
        let anchorRoot = fst (Block_HashTreeRoot hash anchorBlock);
            store1 = PutBlock anchorRoot anchorBlock store;
            store2 = PutSignedBlock anchorRoot
              \<lparr>sb_message = \<lparr>bwa_block = anchorBlock, bwa_proposer_attestation = None\<rparr>, sb_signature = []\<rparr> store1;
            store3 = PutState anchorRoot state store2
        in Some
          \<lparr>fc_time = b_slot anchorBlock * SecondsPerSlot,
           fc_genesis_time = cfg_genesis_time (st_config state),
           fc_num_validators = of_nat (length (st_validators state)),
           fc_head = anchorRoot, fc_safe_target = anchorRoot,
           fc_latest_justified = \<lparr>cp_root = anchorRoot, cp_slot = b_slot anchorBlock\<rparr>,
           fc_latest_finalized = \<lparr>cp_root = anchorRoot, cp_slot = b_slot anchorBlock\<rparr>,
           fc_storage = store3, fc_known = [], fc_new = []\<rparr>)"

subsection \<open>Time\<close>

definition updateHeadLocked :: "Store \<Rightarrow> Store option" where
  "updateHeadLocked c =
     map_option (\<lambda>h. c\<lparr>fc_head := h\<rparr>)
       (GetForkChoiceHead (fc_storage c) (cp_root (fc_latest_justified c)) (fc_known c) 0)"

definition acceptNewAttestationsLocked :: "Store \<Rightarrow> Store option" where
  "acceptNewAttestationsLocked c =
     updateHeadLocked
       (c\<lparr>fc_known := fold (\<lambda>(id, sa) m. AList.update id sa m) (fc_new c) (fc_known c), fc_new := []\<rparr>)"

definition updateSafeTargetLocked :: "Store \<Rightarrow> Store option" where
  "updateSafeTargetLocked c =
     (let minScore = sint (ceilDiv (fc_num_validators c * 2) 3) in
      map_option (\<lambda>h. c\<lparr>fc_safe_target := h\<rparr>)
        (GetForkChoiceHead (fc_storage c) (cp_root (fc_latest_justified c)) (fc_new c) minScore))"

definition tickIntervalLocked :: "bool \<Rightarrow> Store \<Rightarrow> Store option" where
  "tickIntervalLocked hasProposal c0 =
     (let c = c0\<lparr>fc_time := fc_time c0 + 1\<rparr>;
          currentInterval = fc_time c mod IntervalsPerSlot
      in if currentInterval = 0 then if hasProposal then acceptNewAttestationsLocked c else Some c
         else if currentInterval = 1 then Some c
         else if currentInterval = 2 then updateSafeTargetLocked c
         else if currentInterval = 3 then acceptNewAttestationsLocked c
         else Some c)"

partial_function (option) advance_loop :: "u64 \<Rightarrow> bool \<Rightarrow> Store \<Rightarrow> Store option" where
  "advance_loop tickInterval hasProposal c =
     (if fc_time c < tickInterval then
        let shouldSignal = hasProposal \<and> fc_time c + 1 = tickInterval in
        Option.bind (tickIntervalLocked shouldSignal c) (advance_loop tickInterval hasProposal)
      else Some c)"

declare advance_loop.simps [code]

definition advanceTimeLocked :: "u64 \<Rightarrow> bool \<Rightarrow> Store \<Rightarrow> Store option" where
  "advanceTimeLocked time hasProposal c =
     (if time \<le> fc_genesis_time c then Some c
      else
        let tickInterval = (time - fc_genesis_time c) div SecondsPerInterval in
        advance_loop tickInterval hasProposal c)"

text \<open>\<open>if c.NowFn != nil { c.advanceTimeLocked(c.NowFn(), false) }\<close>.\<close>

definition advance_now :: "u64 option \<Rightarrow> Store \<Rightarrow> Store option" where
  "advance_now now c = (case now of None \<Rightarrow> Some c | Some t \<Rightarrow> advanceTimeLocked t False c)"

subsection \<open>Attestations\<close>

text \<open>The rejection reasons; \<open>None\<close> is the empty string of an acceptable attestation.\<close>

datatype reject_reason =
    SourceUnknown
  | TargetUnknown
  | HeadUnknown
  | SourceAfterTarget
  | SourceSlotMismatch
  | TargetSlotMismatch
  | TooFarInFuture

definition validateAttestationData :: "Store \<Rightarrow> AttestationData \<Rightarrow> reject_reason option" where
  "validateAttestationData c data =
     (case GetBlock (fc_storage c) (cp_root (ad_source data)) of
        None \<Rightarrow> Some SourceUnknown
      | Some sourceBlock \<Rightarrow>
      (case GetBlock (fc_storage c) (cp_root (ad_target data)) of
        None \<Rightarrow> Some TargetUnknown
      | Some targetBlock \<Rightarrow>
      (case GetBlock (fc_storage c) (cp_root (ad_head data)) of
        None \<Rightarrow> Some HeadUnknown
      | Some _ \<Rightarrow>
        if b_slot sourceBlock > b_slot targetBlock then Some SourceAfterTarget
        else if cp_slot (ad_source data) > cp_slot (ad_target data) then Some SourceAfterTarget
        else if b_slot sourceBlock \<noteq> cp_slot (ad_source data) then Some SourceSlotMismatch
        else if b_slot targetBlock \<noteq> cp_slot (ad_target data) then Some TargetSlotMismatch
        else
          let currentSlot = fc_time c div IntervalsPerSlot in
          if ad_slot data > currentSlot + 1 then Some TooFarInFuture else None)))"

datatype sig_error =
    HeadStateNotFound
  | InvalidValidatorIndex u64
  | HashFailed ssz_error
  | SignatureRejected leansig_error

definition verifyAttestationSignatureWithState ::
    "env \<Rightarrow> State \<Rightarrow> Attestation \<Rightarrow> signature \<Rightarrow> sig_error option" where
  "verifyAttestationSignatureWithState e state att sig =
     (let valID = att_validator att in
      if unat valID \<ge> length (st_validators state) then Some (InvalidValidatorIndex valID)
      else
        let pubkey = val_pubkey (st_validators state ! unat valID) in
        case Attestation_HashTreeRoot (env_hash e) att of
          (_, Some err) \<Rightarrow> Some (HashFailed err)
        | (messageRoot, None) \<Rightarrow>
            let signingSlot = ucast (ad_slot (att_data att)) in
            map_option SignatureRejected
              (Verify (env_cverify e) (list_of_bytes pubkey) signingSlot messageRoot (list_of_bytes sig)))"

definition verifyAttestationSignature :: "env \<Rightarrow> Store \<Rightarrow> SignedAttestation \<Rightarrow> sig_error option" where
  "verifyAttestationSignature e c sa =
     (case GetState (fc_storage c) (fc_head c) of
        None \<Rightarrow> Some HeadStateNotFound
      | Some headState \<Rightarrow>
          verifyAttestationSignatureWithState e headState
            \<lparr>att_validator = sa_validator sa, att_data = sa_message sa\<rparr> (sa_signature sa))"

definition processAttestationLocked :: "env \<Rightarrow> SignedAttestation \<Rightarrow> bool \<Rightarrow> Store \<Rightarrow> Store" where
  "processAttestationLocked e sa isFromBlock c =
     (let data = sa_message sa; validatorID = sa_validator sa in
      if validateAttestationData c data \<noteq> None then c
      else if \<not> isFromBlock \<and> env_verify_signatures e \<and> verifyAttestationSignature e c sa \<noteq> None then c
      else if isFromBlock then
        let known = (case map_of (fc_known c) validatorID of
                       None \<Rightarrow> AList.update validatorID sa (fc_known c)
                     | Some existing \<Rightarrow>
                         if ad_slot (sa_message existing) < ad_slot data
                         then AList.update validatorID sa (fc_known c) else fc_known c);
            new = (case map_of (fc_new c) validatorID of
                     None \<Rightarrow> fc_new c
                   | Some newAtt \<Rightarrow>
                       if ad_slot (sa_message newAtt) \<le> ad_slot data
                       then AList.delete validatorID (fc_new c) else fc_new c)
        in c\<lparr>fc_known := known, fc_new := new\<rparr>
      else
        let currentSlot = fc_time c div IntervalsPerSlot in
        if ad_slot data > currentSlot then c
        else case map_of (fc_new c) validatorID of
               None \<Rightarrow> c\<lparr>fc_new := AList.update validatorID sa (fc_new c)\<rparr>
             | Some existing \<Rightarrow>
                 if ad_slot (sa_message existing) < ad_slot data
                 then c\<lparr>fc_new := AList.update validatorID sa (fc_new c)\<rparr> else c)"

definition ProcessAttestation :: "env \<Rightarrow> u64 option \<Rightarrow> SignedAttestation \<Rightarrow> Store \<Rightarrow> Store option" where
  "ProcessAttestation e now sa c =
     map_option (processAttestationLocked e sa False) (advance_now now c)"

subsection \<open>Blocks\<close>

datatype fc_error =
    ParentStateNotFound root
  | StateTransitionFailed st_error
  | SignatureCountMismatch nat nat
  | InvalidBodySignature nat sig_error
  | InvalidProposerSignature sig_error

text \<open>The loop over the body attestations, from index \<open>i\<close>.\<close>

fun verify_body :: "env \<Rightarrow> State \<Rightarrow> signature list \<Rightarrow> nat \<Rightarrow> Attestation list \<Rightarrow> fc_error option" where
  "verify_body e parentState sigs i [] = None"
| "verify_body e parentState sigs i (att # atts) =
     (case verifyAttestationSignatureWithState e parentState att (sigs ! i) of
        Some err \<Rightarrow> Some (InvalidBodySignature i err)
      | None \<Rightarrow> verify_body e parentState sigs (i + 1) atts)"

definition verify_envelope :: "env \<Rightarrow> State \<Rightarrow> SignedBlockWithAttestation \<Rightarrow> fc_error option" where
  "verify_envelope e parentState envelope =
     (let atts = body_attestations (b_body (bwa_block (sb_message envelope)));
          numBodyAtts = length atts
      in case verify_body e parentState (sb_signature envelope) 0 atts of
           Some err \<Rightarrow> Some err
         | None \<Rightarrow>
             (case bwa_proposer_attestation (sb_message envelope) of
                None \<Rightarrow> None
              | Some proposerAtt \<Rightarrow>
                  map_option InvalidProposerSignature
                    (verifyAttestationSignatureWithState e parentState proposerAtt
                      (sb_signature envelope ! numBodyAtts))))"

fun apply_body :: "env \<Rightarrow> signature list \<Rightarrow> nat \<Rightarrow> Attestation list \<Rightarrow> Store \<Rightarrow> Store" where
  "apply_body e sigs i [] c = c"
| "apply_body e sigs i (att # atts) c =
     apply_body e sigs (i + 1) atts
       (processAttestationLocked e
          \<lparr>sa_validator = att_validator att, sa_message = att_data att, sa_signature = sigs ! i\<rparr> True c)"

text \<open>The three writes of a block, its envelope and its post state.\<close>

definition store_block :: "root \<Rightarrow> SignedBlockWithAttestation \<Rightarrow> State \<Rightarrow> MemoryStore \<Rightarrow> MemoryStore" where
  "store_block r envelope state m =
     PutState r state (PutSignedBlock r envelope (PutBlock r (bwa_block (sb_message envelope)) m))"

text \<open>The checkpoints of the post state replace the store's when they are newer.\<close>

definition adopt_checkpoints :: "State \<Rightarrow> Store \<Rightarrow> Store" where
  "adopt_checkpoints state c =
     (let c2 = (if cp_slot (st_latest_justified state) > cp_slot (fc_latest_justified c)
                then c\<lparr>fc_latest_justified := st_latest_justified state\<rparr> else c)
      in if cp_slot (st_latest_finalized state) > cp_slot (fc_latest_finalized c2)
         then c2\<lparr>fc_latest_finalized := st_latest_finalized state\<rparr> else c2)"

text \<open>What is done with a block once all checks have passed.\<close>

definition import_block :: "env \<Rightarrow> root \<Rightarrow> SignedBlockWithAttestation \<Rightarrow> State \<Rightarrow> Store \<Rightarrow> Store option" where
  "import_block e blockHash envelope state c =
     (let block = bwa_block (sb_message envelope);
          atts = body_attestations (b_body block);
          c1 = c\<lparr>fc_storage := store_block blockHash envelope state (fc_storage c)\<rparr>;
          c3 = adopt_checkpoints state c1;
          c4 = apply_body e (sb_signature envelope) 0 atts c3
      in map_option
           (\<lambda>c5. case bwa_proposer_attestation (sb_message envelope) of
                    None \<Rightarrow> c5
                  | Some proposerAtt \<Rightarrow>
                      processAttestationLocked e
                        \<lparr>sa_validator = att_validator proposerAtt, sa_message = att_data proposerAtt,
                         sa_signature = sb_signature envelope ! length atts\<rparr> False c5)
           (updateHeadLocked c4))"

text \<open>The result is the error, if any, and the store; a panic of the transition is \<open>Panic\<close>.\<close>

definition Store_ProcessBlock ::
    "env \<Rightarrow> u64 option \<Rightarrow> SignedBlockWithAttestation \<Rightarrow> Store \<Rightarrow> (fc_error option \<times> Store) option" where
  "Store_ProcessBlock e now envelope c0 =
     Option.bind (advance_now now c0) (\<lambda>c.
     let block = bwa_block (sb_message envelope);
         blockHash = fst (Block_HashTreeRoot (env_hash e) block)
     in case GetBlock (fc_storage c) blockHash of
          Some _ \<Rightarrow> Some (None, c)
        | None \<Rightarrow>
     (case GetState (fc_storage c) (b_parent_root block) of
        None \<Rightarrow> Some (Some (ParentStateNotFound (b_parent_root block)), c)
      | Some parentState \<Rightarrow>
     (case StateTransition (env_hash e) parentState block of
        Inl err \<Rightarrow> Some (Some (StateTransitionFailed err), c)
      | Inr state \<Rightarrow>
        let numBodyAtts = length (body_attestations (b_body block));
            want = (if bwa_proposer_attestation (sb_message envelope) \<noteq> None
                    then numBodyAtts + 1 else numBodyAtts)
        in if length (sb_signature envelope) \<noteq> want then
             Some (Some (SignatureCountMismatch (length (sb_signature envelope)) want), c)
           else
             case (if env_verify_signatures e then verify_envelope e parentState envelope else None) of
               Some err \<Rightarrow> Some (Some err, c)
             | None \<Rightarrow> map_option (Pair None) (import_block e blockHash envelope state c))))"

subsection \<open>The invariant\<close>

abbreviation block_root :: "hasher \<Rightarrow> Block \<Rightarrow> root" where
  "block_root hash b \<equiv> fst (Block_HashTreeRoot hash b)"

text \<open>
  What holds of the store between two operations. \<open>ap\<close> is the parent root of the anchor block,
  which is never stored. Every stored block is stored under its own root, together with its post
  state, and is the anchor or has a stored parent with a smaller slot; votes are kept once per
  validator.
\<close>

definition block_ok :: "hasher \<Rightarrow> root \<Rightarrow> MemoryStore \<Rightarrow> root \<Rightarrow> Block \<Rightarrow> bool" where
  "block_ok hash ap m r b \<longleftrightarrow>
     r = block_root hash b \<and>
     (\<exists>s. GetState m r = Some s \<and> st_slot s = b_slot b) \<and>
     (b_parent_root b = ap \<or> (\<exists>p. GetBlock m (b_parent_root b) = Some p \<and> b_slot p < b_slot b))"

definition storage_inv :: "hasher \<Rightarrow> root \<Rightarrow> MemoryStore \<Rightarrow> bool" where
  "storage_inv hash ap m \<longleftrightarrow>
     mem_valid m \<and> GetBlock m ap = None \<and>
     (\<forall>r b. GetBlock m r = Some b \<longrightarrow> block_ok hash ap m r b) \<and>
     (\<forall>r s. GetState m r = Some s \<longrightarrow> GetBlock m r \<noteq> None)"

definition fc_inv :: "hasher \<Rightarrow> root \<Rightarrow> Store \<Rightarrow> bool" where
  "fc_inv hash ap c \<longleftrightarrow>
     storage_inv hash ap (fc_storage c) \<and> distinct (map fst (fc_known c)) \<and> distinct (map fst (fc_new c))"

lemma storage_inv_forest:
  assumes "storage_inv hash ap m"
  shows "forest (GetAllBlocks m)"
proof -
  have v: "mem_valid m" using assms by (simp add: storage_inv_def)
  have "case GetBlock m (b_parent_root b) of None \<Rightarrow> True | Some p \<Rightarrow> b_slot p < b_slot b"
    if "(r, b) \<in> set (GetAllBlocks m)" for r b
  proof -
    have "block_ok hash ap m r b" and "GetBlock m ap = None"
      using that assms by (simp_all add: blocks.mem_get_all [OF v] storage_inv_def)
    then show ?thesis by (auto simp: block_ok_def split: option.split)
  qed
  then show ?thesis
    by (auto simp: forest_def list_all_iff blocks.get_all_distinct [OF v] blocks.map_of_get_all [OF v])
qed

lemma fc_inv_head_total:
  assumes "fc_inv hash ap c" and "distinct (map fst votes)"
  obtains h where "GetForkChoiceHead (fc_storage c) r votes minScore = Some h"
proof -
  have "mem_valid (fc_storage c)" "forest (GetAllBlocks (fc_storage c))"
    using assms(1) storage_inv_forest by (auto simp: fc_inv_def storage_inv_def)
  then show ?thesis using GetForkChoiceHead_total [OF _ _ assms(2)] that by blast
qed

text \<open>Blocks, checkpoints and the parameters of the chain are as before.\<close>

definition same_chain :: "Store \<Rightarrow> Store \<Rightarrow> bool" where
  "same_chain c c' \<longleftrightarrow>
     fc_storage c' = fc_storage c \<and> fc_latest_justified c' = fc_latest_justified c \<and>
     fc_latest_finalized c' = fc_latest_finalized c \<and> fc_genesis_time c' = fc_genesis_time c \<and>
     fc_num_validators c' = fc_num_validators c"

lemma same_chain_refl [simp]: "same_chain c c"
  by (simp add: same_chain_def)

lemma same_chain_trans: "same_chain c c' \<Longrightarrow> same_chain c' c'' \<Longrightarrow> same_chain c c''"
  by (simp add: same_chain_def)

subsection \<open>Time\<close>

lemma distinct_fold_update [simp]:
  "distinct (map fst m) \<Longrightarrow> distinct (map fst (fold (\<lambda>(k, v) m. AList.update k v m) xs m))"
  by (induction xs arbitrary: m) auto

lemma updateHeadLocked_total:
  assumes "fc_inv hash ap c"
  obtains h where "updateHeadLocked c = Some (c\<lparr>fc_head := h\<rparr>)"
proof -
  have "distinct (map fst (fc_known c))" using assms by (simp add: fc_inv_def)
  from fc_inv_head_total [OF assms this] show ?thesis using that by (metis updateHeadLocked_def option.simps(9))
qed

lemma updateSafeTargetLocked_total:
  assumes "fc_inv hash ap c"
  obtains h where "updateSafeTargetLocked c = Some (c\<lparr>fc_safe_target := h\<rparr>)"
proof -
  have "distinct (map fst (fc_new c))" using assms by (simp add: fc_inv_def)
  from fc_inv_head_total [OF assms this] show ?thesis
    using that by (metis (no_types, lifting) updateSafeTargetLocked_def option.simps(9))
qed

lemma acceptNewAttestationsLocked_total:
  assumes "fc_inv hash ap c"
  obtains h where "acceptNewAttestationsLocked c =
    Some (c\<lparr>fc_known := fold (\<lambda>(id, sa) m. AList.update id sa m) (fc_new c) (fc_known c), fc_new := [], fc_head := h\<rparr>)"
proof -
  let ?c = "c\<lparr>fc_known := fold (\<lambda>(id, sa) m. AList.update id sa m) (fc_new c) (fc_known c), fc_new := []\<rparr>"
  have "fc_inv hash ap ?c" using assms by (simp add: fc_inv_def)
  from updateHeadLocked_total [OF this] show ?thesis
    using that by (metis acceptNewAttestationsLocked_def)
qed

lemma acceptNewAttestationsLocked_inv:
  assumes "fc_inv hash ap c"
  obtains c' where "acceptNewAttestationsLocked c = Some c'" and "fc_inv hash ap c'" and "same_chain c c'"
    and "fc_time c' = fc_time c" and "fc_new c' = []"
proof -
  from acceptNewAttestationsLocked_total [OF assms] obtain h where acc: "acceptNewAttestationsLocked c =
    Some (c\<lparr>fc_known := fold (\<lambda>(id, sa) m. AList.update id sa m) (fc_new c) (fc_known c), fc_new := [], fc_head := h\<rparr>)" .
  show ?thesis using assms by (intro that [OF acc]) (simp_all add: fc_inv_def same_chain_def)
qed

lemma tickIntervalLocked_inv:
  assumes "fc_inv hash ap c"
  obtains c' where "tickIntervalLocked hasProposal c = Some c'" and "fc_inv hash ap c'" and "same_chain c c'"
    and "fc_time c' = fc_time c + 1"
proof -
  let ?c = "c\<lparr>fc_time := fc_time c + 1\<rparr>"
  have inv: "fc_inv hash ap ?c" and same: "same_chain c ?c"
    using assms by (simp_all add: fc_inv_def same_chain_def)
  obtain a where a: "acceptNewAttestationsLocked ?c = Some a" "fc_inv hash ap a" "same_chain ?c a" "fc_time a = fc_time ?c"
    by (rule acceptNewAttestationsLocked_inv [OF inv])
  obtain h where h: "updateSafeTargetLocked ?c = Some (?c\<lparr>fc_safe_target := h\<rparr>)"
    by (rule updateSafeTargetLocked_total [OF inv])
  have "fc_inv hash ap (?c\<lparr>fc_safe_target := h\<rparr>)" "same_chain c (?c\<lparr>fc_safe_target := h\<rparr>)"
    using inv by (simp_all add: fc_inv_def same_chain_def)
  then have "\<exists>c'. tickIntervalLocked hasProposal c = Some c' \<and> fc_inv hash ap c' \<and> same_chain c c' \<and>
      fc_time c' = fc_time c + 1"
    unfolding tickIntervalLocked_def Let_def
    using a h inv same same_chain_trans [OF same a(3)] by simp
  then show ?thesis using that by blast
qed

lemma advance_loop_inv:
  assumes "fc_inv hash ap c"
  shows "\<exists>c'. advance_loop t hasProposal c = Some c' \<and> fc_inv hash ap c' \<and> same_chain c c' \<and>
    fc_time c' = max (fc_time c) t"
  using assms
proof (induction "unat t - unat (fc_time c)" arbitrary: c rule: less_induct)
  case less
  show ?case
  proof (cases "fc_time c < t")
    case True
    obtain c1 where c1: "tickIntervalLocked (hasProposal \<and> fc_time c + 1 = t) c = Some c1"
      "fc_inv hash ap c1" "same_chain c c1" "fc_time c1 = fc_time c + 1"
      by (rule tickIntervalLocked_inv [OF less.prems])
    have succ: "unat (fc_time c + 1) = Suc (unat (fc_time c))" using True by (rule unat_Suc_u64)
    have "unat t - unat (fc_time c1) < unat t - unat (fc_time c)"
      using True by (simp add: c1(4) succ word_less_nat_alt)
    from less.hyps [OF this c1(2)] obtain c' where c': "advance_loop t hasProposal c1 = Some c'"
      "fc_inv hash ap c'" "same_chain c1 c'" "fc_time c' = max (fc_time c1) t" by blast
    have "max (fc_time c1) t = max (fc_time c) t"
      using True by (simp add: c1(4) max_def word_le_nat_alt succ word_less_nat_alt)
    then show ?thesis
      using c1 c' True same_chain_trans by (subst advance_loop.simps) (auto simp: Let_def)
  next
    case False
    then show ?thesis using less.prems by (subst advance_loop.simps) (auto simp: max_def)
  qed
qed

text \<open>The interval a wall-clock time falls into, never before the store's own.\<close>

definition time_at :: "Store \<Rightarrow> u64 \<Rightarrow> u64" where
  "time_at c t = (if t \<le> fc_genesis_time c then fc_time c
                  else max (fc_time c) ((t - fc_genesis_time c) div SecondsPerInterval))"

lemma advanceTimeLocked_inv:
  assumes "fc_inv hash ap c"
  obtains c' where "advanceTimeLocked t hasProposal c = Some c'" and "fc_inv hash ap c'" and "same_chain c c'"
    and "fc_time c' = time_at c t"
proof (cases "t \<le> fc_genesis_time c")
  case True
  show ?thesis using assms True by (intro that [of c]) (simp_all add: advanceTimeLocked_def time_at_def)
next
  case False
  let ?t = "(t - fc_genesis_time c) div SecondsPerInterval"
  obtain c' where "advance_loop ?t hasProposal c = Some c'" "fc_inv hash ap c'" "same_chain c c'"
    "fc_time c' = max (fc_time c) ?t"
    using advance_loop_inv [OF assms] by blast
  then show ?thesis using False by (intro that [of c']) (simp_all add: advanceTimeLocked_def time_at_def Let_def)
qed

lemma advance_now_inv:
  assumes "fc_inv hash ap c"
  obtains c' where "advance_now now c = Some c'" and "fc_inv hash ap c'" and "same_chain c c'"
proof (cases now)
  case (Some t)
  obtain c' where "advanceTimeLocked t False c = Some c'" "fc_inv hash ap c'" "same_chain c c'"
    by (rule advanceTimeLocked_inv [OF assms])
  then show ?thesis using that by (simp add: advance_now_def Some)
qed (use assms that in \<open>simp add: advance_now_def\<close>)

subsection \<open>Votes\<close>

text \<open>Attestations touch nothing but the two vote maps.\<close>

lemma processAttestationLocked_frame [simp]:
  "fc_storage (processAttestationLocked e sa fromBlock c) = fc_storage c"
  "fc_time (processAttestationLocked e sa fromBlock c) = fc_time c"
  "fc_head (processAttestationLocked e sa fromBlock c) = fc_head c"
  "fc_latest_justified (processAttestationLocked e sa fromBlock c) = fc_latest_justified c"
  "fc_latest_finalized (processAttestationLocked e sa fromBlock c) = fc_latest_finalized c"
  "fc_genesis_time (processAttestationLocked e sa fromBlock c) = fc_genesis_time c"
  "fc_num_validators (processAttestationLocked e sa fromBlock c) = fc_num_validators c"
  by (simp_all add: processAttestationLocked_def Let_def split: option.split)

lemma validateAttestationData_cong:
  "fc_storage c = fc_storage c' \<Longrightarrow> fc_time c = fc_time c' \<Longrightarrow>
     validateAttestationData c data = validateAttestationData c' data"
  by (simp only: validateAttestationData_def)

lemma processAttestationLocked_distinct:
  assumes "distinct (map fst (fc_known c))" and "distinct (map fst (fc_new c))"
  shows "distinct (map fst (fc_known (processAttestationLocked e sa fromBlock c)))"
    and "distinct (map fst (fc_new (processAttestationLocked e sa fromBlock c)))"
  using assms by (simp_all add: processAttestationLocked_def Let_def split: option.split)

lemma processAttestationLocked_inv: "fc_inv hash ap c \<Longrightarrow> fc_inv hash ap (processAttestationLocked e sa fromBlock c)"
  by (simp add: fc_inv_def processAttestationLocked_distinct)

lemma apply_body_inv:
  assumes "fc_inv hash ap c"
  shows "fc_inv hash ap (apply_body e sigs i atts c) \<and> same_chain c (apply_body e sigs i atts c)"
  using assms
proof (induction atts arbitrary: i c)
  case (Cons att atts)
  then show ?case
    using processAttestationLocked_inv [OF Cons.prems] by (simp add: same_chain_def)
qed simp

subsection \<open>Storing blocks\<close>

lemma StateTransition_slots:
  assumes "StateTransition hash s b = Inr s'"
  shows "st_slot s < b_slot b" and "st_slot s' = b_slot b"
  using assms by (elim StateTransition_Inr, simp add: linked_def Let_def)+

lemma store_block_lookup:
  "GetBlock (store_block r envelope state m) k =
     (if k = r then Some (bwa_block (sb_message envelope)) else GetBlock m k)"
  "GetState (store_block r envelope state m) k = (if k = r then Some state else GetState m k)"
  "GetSignedBlock (store_block r envelope state m) k = (if k = r then Some envelope else GetSignedBlock m k)"
  "mem_valid m \<Longrightarrow> mem_valid (store_block r envelope state m)"
  by (simp_all add: store_block_def blocks.get_put states.get_put signed_blocks.get_put
      blocks.valid_put states.valid_put signed_blocks.valid_put)

lemma storage_inv_store_block:
  assumes inv: "storage_inv hash ap m" and b: "bwa_block (sb_message envelope) = b"
    and r: "r = block_root hash b" "r \<noteq> ap" and same: "\<And>b'. GetBlock m r = Some b' \<Longrightarrow> b' = b"
    and parent: "GetState m (b_parent_root b) = Some ps" "st_slot ps < b_slot b" and "st_slot s = b_slot b"
  shows "storage_inv hash ap (store_block r envelope s m)"
proof -
  let ?m = "store_block r envelope s m"
  obtain p where p: "GetBlock m (b_parent_root b) = Some p" and slot: "b_slot p = st_slot ps"
    using inv parent(1) by (fastforce simp: storage_inv_def block_ok_def)
  have "b_parent_root b \<noteq> r" using same p slot parent(2) by auto
  then have new: "block_ok hash ap ?m r b"
    using r assms(8) p slot parent(2) by (auto simp: block_ok_def store_block_lookup)
  have "block_ok hash ap ?m k b'" if k: "GetBlock ?m k = Some b'" for k b'
  proof (cases "k = r")
    case True
    then show ?thesis using k new by (simp add: store_block_lookup b)
  next
    case False
    then have "block_ok hash ap m k b'" using k inv by (simp add: store_block_lookup storage_inv_def)
    then show ?thesis using False same by (auto simp: block_ok_def store_block_lookup b)
  qed
  then show ?thesis
    using inv r(2) by (auto simp: storage_inv_def store_block_lookup)
qed

text \<open>The checkpoints only move forward, and nothing stored is lost.\<close>

definition fc_grows :: "Store \<Rightarrow> Store \<Rightarrow> bool" where
  "fc_grows c c' \<longleftrightarrow>
     cp_slot (fc_latest_justified c) \<le> cp_slot (fc_latest_justified c') \<and>
     cp_slot (fc_latest_finalized c) \<le> cp_slot (fc_latest_finalized c') \<and>
     (\<forall>r b. GetBlock (fc_storage c) r = Some b \<longrightarrow> GetBlock (fc_storage c') r = Some b) \<and>
     fc_num_validators c' = fc_num_validators c \<and> fc_genesis_time c' = fc_genesis_time c"

lemma same_chain_grows: "same_chain c c' \<Longrightarrow> fc_grows c c'"
  by (simp add: same_chain_def fc_grows_def)

lemma fc_grows_trans: "fc_grows c c' \<Longrightarrow> fc_grows c' c'' \<Longrightarrow> fc_grows c c''"
  by (auto simp: fc_grows_def)

lemma adopt_checkpoints_frame [simp]:
  "fc_storage (adopt_checkpoints s c) = fc_storage c"
  "fc_known (adopt_checkpoints s c) = fc_known c" "fc_new (adopt_checkpoints s c) = fc_new c"
  "fc_genesis_time (adopt_checkpoints s c) = fc_genesis_time c"
  "fc_num_validators (adopt_checkpoints s c) = fc_num_validators c"
  by (simp_all add: adopt_checkpoints_def Let_def)

lemma adopt_checkpoints_mono:
  "cp_slot (fc_latest_justified c) \<le> cp_slot (fc_latest_justified (adopt_checkpoints s c))"
  "cp_slot (fc_latest_finalized c) \<le> cp_slot (fc_latest_finalized (adopt_checkpoints s c))"
  by (auto simp: adopt_checkpoints_def Let_def)

lemma import_block_inv:
  assumes inv: "fc_inv hash ap c" and b: "bwa_block (sb_message envelope) = b"
    and r: "r = block_root hash b" "r \<noteq> ap" "GetBlock (fc_storage c) r = None"
    and parent: "GetState (fc_storage c) (b_parent_root b) = Some ps" "StateTransition hash ps b = Inr s"
  obtains c' where "import_block e r envelope s c = Some c'" and "fc_inv hash ap c'" and "fc_grows c c'"
    and "fc_storage c' = store_block r envelope s (fc_storage c)"
proof -
  let ?m = "store_block r envelope s (fc_storage c)" and ?atts = "body_attestations (b_body b)"
  define c3 where "c3 = adopt_checkpoints s (c\<lparr>fc_storage := ?m\<rparr>)"
  let ?c4 = "apply_body e (sb_signature envelope) 0 ?atts c3"
  have "storage_inv hash ap ?m"
    using inv r parent StateTransition_slots [OF parent(2)]
    by (intro storage_inv_store_block [OF _ b]) (auto simp: fc_inv_def)
  then have "fc_inv hash ap c3" using inv by (simp add: fc_inv_def c3_def)
  then have c4: "fc_inv hash ap ?c4" "same_chain c3 ?c4" using apply_body_inv by blast+
  from updateHeadLocked_total [OF c4(1)] obtain h where h: "updateHeadLocked ?c4 = Some (?c4\<lparr>fc_head := h\<rparr>)" .
  let ?c5 = "?c4\<lparr>fc_head := h\<rparr>"
  let ?c6 = "case bwa_proposer_attestation (sb_message envelope) of None \<Rightarrow> ?c5
    | Some p \<Rightarrow> processAttestationLocked e \<lparr>sa_validator = att_validator p, sa_message = att_data p,
        sa_signature = sb_signature envelope ! length ?atts\<rparr> False ?c5"
  have c5: "fc_inv hash ap ?c5" "same_chain c3 ?c5" using c4 by (simp_all add: fc_inv_def same_chain_def)
  then have c6: "fc_inv hash ap ?c6" "same_chain c3 ?c6"
    by (simp_all add: processAttestationLocked_inv same_chain_def split: option.split)
  have "import_block e r envelope s c = Some ?c6"
    by (simp add: import_block_def Let_def b c3_def [symmetric] h)
  moreover have "fc_grows c c3"
    using r(3) adopt_checkpoints_mono [of "c\<lparr>fc_storage := ?m\<rparr>" s]
    by (auto simp: fc_grows_def c3_def store_block_lookup)
  ultimately show ?thesis
    using c6 same_chain_grows [OF c6(2)] fc_grows_trans that by (auto simp: same_chain_def c3_def)
qed

subsection \<open>Processing blocks\<close>

text \<open>All the checks a new block has to pass, against its parent's post state.\<close>

definition block_checked :: "env \<Rightarrow> MemoryStore \<Rightarrow> SignedBlockWithAttestation \<Rightarrow> State \<Rightarrow> State \<Rightarrow> bool" where
  "block_checked e m envelope ps s \<longleftrightarrow>
     (let block = bwa_block (sb_message envelope); n = length (body_attestations (b_body block)) in
      GetBlock m (block_root (env_hash e) block) = None \<and>
      GetState m (b_parent_root block) = Some ps \<and> StateTransition (env_hash e) ps block = Inr s \<and>
      length (sb_signature envelope) =
        (if bwa_proposer_attestation (sb_message envelope) \<noteq> None then n + 1 else n) \<and>
      (env_verify_signatures e \<longrightarrow> verify_envelope e ps envelope = None))"

lemma Store_ProcessBlock_cases:
  assumes "advance_now now c0 = Some c"
  obtains
    (known) b where "GetBlock (fc_storage c) (block_root (env_hash e) (bwa_block (sb_message envelope))) = Some b"
      "Store_ProcessBlock e now envelope c0 = Some (None, c)"
  | (refused) err where "Store_ProcessBlock e now envelope c0 = Some (Some err, c)"
  | (imported) ps s where "block_checked e (fc_storage c) envelope ps s"
      "Store_ProcessBlock e now envelope c0 = map_option (Pair None)
        (import_block e (block_root (env_hash e) (bwa_block (sb_message envelope))) envelope s c)"
proof -
  let ?b = "bwa_block (sb_message envelope)" and ?n = "length (sb_signature envelope)"
  let ?want = "if bwa_proposer_attestation (sb_message envelope) \<noteq> None
    then length (body_attestations (b_body ?b)) + 1 else length (body_attestations (b_body ?b))"
  note def = Store_ProcessBlock_def [of e now envelope c0, unfolded assms, simplified, unfolded Let_def]
  show ?thesis
  proof (cases "GetBlock (fc_storage c) (block_root (env_hash e) ?b)")
    case (Some b)
    then show ?thesis using known by (simp add: def)
  next
    case unknown: None
    show ?thesis
    proof (cases "GetState (fc_storage c) (b_parent_root ?b)")
      case None
      then show ?thesis using refused unknown by (simp add: def)
    next
      case (Some ps)
      show ?thesis
      proof (cases "StateTransition (env_hash e) ps ?b")
        case (Inl err)
        then show ?thesis using refused unknown Some by (simp add: def)
      next
        case (Inr s)
        show ?thesis
        proof (cases "?n = ?want \<and> (env_verify_signatures e \<longrightarrow> verify_envelope e ps envelope = None)")
          case True
          then show ?thesis
            using imported [of ps s] unknown Some Inr by (simp add: def block_checked_def Let_def)
        next
          case False
          then consider "?n \<noteq> ?want"
            | err where "?n = ?want" "env_verify_signatures e" "verify_envelope e ps envelope = Some err"
            by (metis not_None_eq)
          then have "\<exists>err. Store_ProcessBlock e now envelope c0 = Some (Some err, c)"
            by cases (simp_all add: def unknown Some Inr)
          then show ?thesis using refused by blast
        qed
      qed
    qed
  qed
qed

lemma Store_ProcessBlock_inv:
  assumes inv: "fc_inv (env_hash e) ap c"
    and ap: "block_root (env_hash e) (bwa_block (sb_message envelope)) \<noteq> ap"
  obtains err c' where "Store_ProcessBlock e now envelope c = Some (err, c')" and "fc_inv (env_hash e) ap c'"
    and "fc_grows c c'"
proof -
  obtain c1 where c1: "advance_now now c = Some c1" "fc_inv (env_hash e) ap c1" "same_chain c c1"
    by (rule advance_now_inv [OF inv])
  note grows = same_chain_grows [OF c1(3)]
  from c1(1) show ?thesis
  proof (cases rule: Store_ProcessBlock_cases [where e = e and envelope = envelope])
    case (imported ps s)
    from imported(1) have checked: "GetBlock (fc_storage c1) (block_root (env_hash e) (bwa_block (sb_message envelope))) = None"
      "GetState (fc_storage c1) (b_parent_root (bwa_block (sb_message envelope))) = Some ps"
      "StateTransition (env_hash e) ps (bwa_block (sb_message envelope)) = Inr s"
      by (simp_all add: block_checked_def Let_def)
    obtain c' where "import_block e (block_root (env_hash e) (bwa_block (sb_message envelope))) envelope s c1 = Some c'"
      "fc_inv (env_hash e) ap c'" "fc_grows c1 c'"
      by (rule import_block_inv [OF c1(2) refl refl ap checked])
    then show ?thesis using that fc_grows_trans [OF grows] by (simp add: imported(2))
  qed (use that c1(2) grows in blast)+
qed

subsection \<open>Example store\<close>

text \<open>
  A store at genesis and a block on top of it. The library of the example accepts the signatures of the
  key that begins with the low byte of the slot.
\<close>

definition ex_env :: env where
  "ex_env = \<lparr>env_hash = ex_hash,
     env_cverify = \<lambda>pk epoch message sig. if hd pk = ucast epoch then 0 else 5,
     env_verify_signatures = True\<rparr>"

definition ex_anchor :: Block where
  "ex_anchor = \<lparr>b_slot = 0, b_proposer = 0, b_parent_root = ZeroHash,
     b_state_root = fst (State_HashTreeRoot ex_hash ex_genesis), b_body = \<lparr>body_attestations = []\<rparr>\<rparr>"

definition ex_store :: Store where
  "ex_store = the (NewStore ex_hash ex_genesis ex_anchor New)"

definition ex_root_cp :: Checkpoint where
  "ex_root_cp = \<lparr>cp_root = fc_head ex_store, cp_slot = 0\<rparr>"

definition ex_sa :: "u64 \<Rightarrow> u64 \<Rightarrow> SignedAttestation" where
  "ex_sa v slot =
     \<lparr>sa_validator = v,
      sa_message = \<lparr>ad_slot = slot, ad_head = ex_root_cp, ad_target = ex_root_cp, ad_source = ex_root_cp\<rparr>,
      sa_signature = bytes_of []\<rparr>"

definition ex_envelope :: SignedBlockWithAttestation where
  "ex_envelope =
     \<lparr>sb_message = \<lparr>bwa_block = ex_block ex_genesis 2,
        bwa_proposer_attestation = Some \<lparr>att_validator = 2, att_data = sa_message (ex_sa 2 2)\<rparr>\<rparr>,
      sb_signature = [bytes_of []]\<rparr>"

lemma ex_store_new: "NewStore ex_hash ex_genesis ex_anchor New = Some ex_store"
  by (simp add: ex_store_def NewStore_def ex_anchor_def Let_def)

lemma ex_anchor_fields:
  "b_slot ex_anchor = 0" "b_parent_root ex_anchor = ZeroHash" "block_root ex_hash ex_anchor = bytes_of [1, 0, 0]"
  "b_state_root ex_anchor = fst (State_HashTreeRoot ex_hash ex_genesis)"
  by (simp_all add: ex_block_root ex_anchor_def)

lemma ex_genesis_fields:
  "st_slot ex_genesis = 0" "length (st_validators ex_genesis) = 3" "cfg_genesis_time (st_config ex_genesis) = 1000"
  by (simp_all add: ex_genesis_def GenerateGenesis_def Let_def)

lemma ex_store_fields:
  "fc_time ex_store = 0" "fc_genesis_time ex_store = 1000" "fc_num_validators ex_store = 3"
  "fc_head ex_store = bytes_of [1, 0, 0]" "fc_safe_target ex_store = bytes_of [1, 0, 0]"
  "fc_latest_justified ex_store = \<lparr>cp_root = bytes_of [1, 0, 0], cp_slot = 0\<rparr>"
  "fc_latest_finalized ex_store = \<lparr>cp_root = bytes_of [1, 0, 0], cp_slot = 0\<rparr>" "fc_known ex_store = []" "fc_new ex_store = []"
  by (simp_all add: ex_store_def NewStore_def Let_def ex_anchor_fields ex_genesis_fields)

lemma ex_roots_differ:
  "bytes_of [1, 2, 2] \<noteq> ZeroHash" "bytes_of [1, 2, 2] \<noteq> (bytes_of [1, 0, 0] :: root)" "bytes_of [1, 0, 0] \<noteq> ZeroHash"
  by code_simp+

lemma NewStore_fields:
  assumes "NewStore hash s b m = Some c"
  shows "fc_storage c = store_block (block_root hash b)
      \<lparr>sb_message = \<lparr>bwa_block = b, bwa_proposer_attestation = None\<rparr>, sb_signature = []\<rparr> s m"
    and "fc_known c = []" and "fc_new c = []"
  using assms by (auto simp: NewStore_def Let_def store_block_def split: if_splits)

lemma NewStore_inv:
  assumes "NewStore hash s b New = Some c" and "st_slot s = b_slot b" and "block_root hash b \<noteq> b_parent_root b"
  shows "fc_inv hash (b_parent_root b) c"
proof -
  let ?r = "block_root hash b"
  let ?env = "\<lparr>sb_message = \<lparr>bwa_block = b, bwa_proposer_attestation = None\<rparr>, sb_signature = []\<rparr>"
  note c = NewStore_fields [OF assms(1)]
  have "storage_inv hash (b_parent_root b) (store_block ?r ?env s New)"
    using assms(2,3) by (auto simp: storage_inv_def store_block_lookup block_ok_def split: if_splits)
  then show ?thesis by (simp add: fc_inv_def c)
qed

lemma ex_store_inv: "fc_inv (env_hash ex_env) ZeroHash ex_store"
  using NewStore_inv [OF ex_store_new] by (simp add: ex_env_def ex_anchor_fields ex_genesis_fields ex_roots_differ)

lemma ex_envelope_block: "bwa_block (sb_message ex_envelope) = ex_block ex_genesis 2"
  by (simp add: ex_envelope_def)

lemma ex_envelope_root:
  "block_root (env_hash ex_env) (bwa_block (sb_message ex_envelope)) = bytes_of [1, 2, 2]"
proof -
  have "(2 :: u64) mod 3 = 2" by code_simp
  then show ?thesis by (simp add: ex_envelope_block ex_env_def ex_block_root)
qed

lemma ex_store_storage:
  "GetBlock (fc_storage ex_store) = [bytes_of [1, 0, 0] \<mapsto> ex_anchor]"
  "GetState (fc_storage ex_store) = [bytes_of [1, 0, 0] \<mapsto> ex_genesis]"
proof -
  have "block_root ex_hash ex_anchor = bytes_of [1, 0, 0]" by (simp add: ex_block_root ex_anchor_def)
  then show "GetBlock (fc_storage ex_store) = [bytes_of [1, 0, 0] \<mapsto> ex_anchor]"
    and "GetState (fc_storage ex_store) = [bytes_of [1, 0, 0] \<mapsto> ex_genesis]"
    by (simp_all add: NewStore_fields(1) [OF ex_store_new] store_block_lookup fun_eq_iff)
qed

lemma ex_envelope_parent:
  "GetBlock (fc_storage ex_store) (block_root (env_hash ex_env) (bwa_block (sb_message ex_envelope))) = None"
  "GetState (fc_storage ex_store) (b_parent_root (bwa_block (sb_message ex_envelope))) = Some ex_genesis"
  by (simp_all add: ex_store_storage ex_envelope_root ex_roots_differ) (simp add: ex_envelope_block ex_first_parent)

lemma ex_envelope_checked:
  "block_checked ex_env (fc_storage ex_store) ex_envelope ex_genesis (ex_child ex_genesis 2)"
proof -
  have body: "body_attestations (b_body (bwa_block (sb_message ex_envelope))) = []"
    "length (st_validators ex_genesis) = 3"
    by (simp_all add: ex_envelope_block ex_genesis_def GenerateGenesis_def Let_def)
  let ?att = "\<lparr>att_validator = 2, att_data = sa_message (ex_sa 2 2)\<rparr>"
  have pk: "hd (list_of_bytes (val_pubkey (st_validators ex_genesis ! 2))) = 2"
    by (simp add: ex_genesis_def GenerateGenesis_def list_of_bytes_bytes_of Let_def)
  have hash: "snd (Attestation_HashTreeRoot (env_hash ex_env) ?att) = None"
    by (simp add: Attestation_HashTreeRoot_def Attestation_HashTreeRootWith_def AttestationData_HashTreeRootWith_def
        Checkpoint_HashTreeRootWith_def ex_env_def ex_hash_def split: sum.split)
  have "verifyAttestationSignatureWithState ex_env ex_genesis ?att sig = None" for sig
    using hash body(2) pk
    by (auto simp: verifyAttestationSignatureWithState_def Verify_def verify_result_def ResultOK_def Let_def
        ex_env_def ex_sa_def split: prod.split option.split)
  then have "verify_envelope ex_env ex_genesis ex_envelope = None"
    by (simp add: verify_envelope_def body Let_def) (simp add: ex_envelope_def)
  moreover have "length (sb_signature ex_envelope) = 1" "bwa_proposer_attestation (sb_message ex_envelope) \<noteq> None"
    "bwa_block (sb_message ex_envelope) = ex_block ex_genesis 2" "env_hash ex_env = ex_hash"
    by (simp_all add: ex_envelope_def ex_env_def)
  ultimately show ?thesis
    using ex_envelope_parent ex_first_block body by (simp add: block_checked_def Let_def)
qed

subsection \<open>Theorems\<close>

text \<open>
  C28: advancing the clock always ends, exactly at the interval of the given time. On a store
  that satisfies the invariant the loop of ticks returns; the store's time is then the number of
  intervals since genesis, or what it was if that is later; blocks and checkpoints are untouched, the
  invariant holds, and advancing to the same time again changes nothing.
\<close>

theorem advanceTime_exact:
  assumes "fc_inv hash ap c"
  shows "\<exists>c'. advanceTimeLocked t hasProposal c = Some c' \<and> fc_time c' = time_at c t \<and> same_chain c c' \<and>
    fc_inv hash ap c' \<and> advanceTimeLocked t hasProposal c' = Some c'"
proof -
  obtain c' where c': "advanceTimeLocked t hasProposal c = Some c'" "fc_inv hash ap c'" "same_chain c c'"
    "fc_time c' = time_at c t"
    by (rule advanceTimeLocked_inv [OF assms])
  have "fc_genesis_time c' = fc_genesis_time c" using c'(3) by (simp add: same_chain_def)
  then have "advanceTimeLocked t hasProposal c' = Some c'"
    using c'(4) by (auto simp: advanceTimeLocked_def time_at_def Let_def advance_loop.simps max_def not_less)
  then show ?thesis using c' by blast
qed

theorem advanceTime_exact_witness:
  "\<exists>c'. advanceTimeLocked 1024 False ex_store = Some c' \<and> fc_time c' = time_at ex_store 1024"
  using advanceTime_exact [OF ex_store_inv] by blast

text \<open>
  Processing a block always ends, and keeps the invariant of the store: every stored
  block has its state and its parent, with increasing slots. The justified and finalized checkpoints
  of the store never move back and no stored block is lost. The only assumption on the block is that
  it does not hash to the root below the anchor.
\<close>

theorem ProcessBlock_invariant:
  assumes "fc_inv (env_hash e) ap c"
    and "block_root (env_hash e) (bwa_block (sb_message envelope)) \<noteq> ap"
  shows "\<exists>err c'. Store_ProcessBlock e now envelope c = Some (err, c') \<and> fc_inv (env_hash e) ap c' \<and> fc_grows c c'"
  by (rule Store_ProcessBlock_inv [OF assms]) blast

theorem ProcessBlock_invariant_witness:
  "\<exists>err c'. Store_ProcessBlock ex_env (Some 1009) ex_envelope ex_store = Some (err, c') \<and>
     fc_inv (env_hash ex_env) ZeroHash c' \<and> fc_grows ex_store c'"
  using ex_store_inv by (rule ProcessBlock_invariant) (simp add: ex_envelope_root ex_roots_differ)

text \<open>
  C26: a refused block leaves no trace. When processing a block returns an error, the store is
  the one left by advancing the clock, with the same blocks, votes and checkpoints.
\<close>

theorem ProcessBlock_error_atomic:
  assumes "Store_ProcessBlock e now envelope c = Some (Some err, c')"
  shows "advance_now now c = Some c'"
proof -
  from assms obtain c1 where c1: "advance_now now c = Some c1"
    by (auto simp: Store_ProcessBlock_def bind_eq_Some_conv)
  then show ?thesis
  proof (cases rule: Store_ProcessBlock_cases [where e = e and envelope = envelope])
    case (imported ps s)
    then have "\<exists>x. Some (Some err, c') = Some (None, x)" using assms by (auto simp: map_option_case split: option.splits)
    then show ?thesis by simp
  qed (use assms c1 in auto)
qed

definition ex_orphan :: SignedBlockWithAttestation where
  "ex_orphan = \<lparr>sb_message = \<lparr>bwa_block = ex_tree_block 5 ZeroHash, bwa_proposer_attestation = None\<rparr>, sb_signature = []\<rparr>"

theorem ProcessBlock_error_atomic_witness: "advance_now None ex_store = Some ex_store"
proof -
  have "block_root ex_hash (ex_tree_block 5 ZeroHash) = bytes_of [1, 5, 0]"
    by (simp add: ex_block_root ex_tree_block_def)
  moreover have "bytes_of [1, 5, 0] \<noteq> (bytes_of [1, 0, 0] :: root)" "ZeroHash \<noteq> (bytes_of [1, 0, 0] :: root)"
    by code_simp+
  ultimately have "Store_ProcessBlock ex_env None ex_orphan ex_store = Some (Some (ParentStateNotFound ZeroHash), ex_store)"
    by (simp add: Store_ProcessBlock_def ex_orphan_def advance_now_def Let_def ex_env_def ex_store_storage ex_tree_block_def)
  then show ?thesis by (rule ProcessBlock_error_atomic)
qed



text \<open>
  What a gossip vote must pass. If handling a gossip attestation changes the pending vote
  of a validator, the validator is the attestation's, the pending vote is now this attestation, its
  blocks are known with the slots it names and its source not after its target, it is not from a
  future slot, its signature verified under the head state (when verification is on), and it is newer
  than the vote it replaces.
\<close>

theorem gossip_vote_sound:
  assumes "map_of (fc_new (processAttestationLocked e sa False c)) v \<noteq> map_of (fc_new c) v"
  shows "v = sa_validator sa \<and> map_of (fc_new (processAttestationLocked e sa False c)) v = Some sa \<and>
    validateAttestationData c (sa_message sa) = None \<and>
    ad_slot (sa_message sa) \<le> fc_time c div IntervalsPerSlot \<and>
    (env_verify_signatures e \<longrightarrow> verifyAttestationSignature e c sa = None) \<and>
    (case map_of (fc_new c) v of None \<Rightarrow> True | Some old \<Rightarrow> ad_slot (sa_message old) < ad_slot (sa_message sa))"
  using assms
  by (auto simp: processAttestationLocked_def Let_def not_less split: if_splits option.splits)

definition ex_env_skip :: env where
  "ex_env_skip = ex_env\<lparr>env_verify_signatures := False\<rparr>"

definition ex_store_late :: Store where
  "ex_store_late = ex_store\<lparr>fc_time := 24\<rparr>"

lemma ex_late_slot: "fc_time ex_store_late div IntervalsPerSlot = 6"
  by (simp add: ex_store_late_def IntervalsPerSlot_def)

lemma ex_vote_valid:
  "validateAttestationData ex_store_late (sa_message (ex_sa v 3)) = None"
  "validateAttestationData ex_store_late (sa_message (ex_sa v 5)) = None"
  unfolding validateAttestationData_def ex_late_slot Let_def
  by (simp_all add: ex_sa_def ex_root_cp_def ex_store_late_def ex_store_storage ex_store_fields ex_anchor_fields)

theorem gossip_vote_sound_witness:
  "validateAttestationData ex_store_late (sa_message (ex_sa 0 3)) = None \<and>
   ad_slot (sa_message (ex_sa 0 3)) \<le> fc_time ex_store_late div IntervalsPerSlot"
proof -
  have "map_of (fc_new (processAttestationLocked ex_env_skip (ex_sa 0 3) False ex_store_late)) 0 \<noteq> None"
    by (simp add: processAttestationLocked_def ex_vote_valid ex_late_slot ex_env_skip_def Let_def)
      (simp add: ex_store_late_def ex_store_fields ex_sa_def)
  moreover have "map_of (fc_new ex_store_late) 0 = None" by (simp add: ex_store_late_def NewStore_fields(3) [OF ex_store_new])
  ultimately show ?thesis
    using gossip_vote_sound [of ex_env_skip "ex_sa 0 3" ex_store_late 0] by simp
qed

text \<open>
  Accepting pending votes can replace a newer vote by an older one. A vote from a block
  is recorded as known; an older vote of the same validator that arrives by gossip afterwards is only
  compared with pending votes, becomes pending, and overwrites the newer known vote.
\<close>

theorem stale_gossip_vote_wins:
  "\<exists>e c newer older c2 v.
     ad_slot (sa_message older) < ad_slot (sa_message newer) \<and>
     GetKnownAttestation (processAttestationLocked e newer True c) v = Some newer \<and>
     acceptNewAttestationsLocked
       (processAttestationLocked e older False (processAttestationLocked e newer True c)) = Some c2 \<and>
     GetKnownAttestation c2 v = Some older"
proof -
  let ?c1 = "processAttestationLocked ex_env_skip (ex_sa 0 5) True ex_store_late"
  let ?c = "processAttestationLocked ex_env_skip (ex_sa 0 3) False ?c1"
  have valid: "validateAttestationData ex_store_late (sa_message (ex_sa 0 5)) = None"
    "validateAttestationData ex_store_late (sa_message (ex_sa 0 3)) = None"
    "ad_slot (sa_message (ex_sa 0 3)) \<le> fc_time ex_store_late div IntervalsPerSlot"
    by (simp_all only: ex_vote_valid ex_late_slot) (simp add: ex_sa_def)
  have sa: "sa_validator (ex_sa v k) = v" "ad_slot (sa_message (ex_sa v k)) = k" for v k by (simp_all add: ex_sa_def)
  have late: "fc_known ex_store_late = []" "fc_new ex_store_late = []"
    using NewStore_fields(2,3) [OF ex_store_new] by (simp_all add: ex_store_late_def)
  have skip: "\<not> env_verify_signatures ex_env_skip" by (simp add: ex_env_skip_def)
  have c1: "?c1 = ex_store_late\<lparr>fc_known := [(0, ex_sa 0 5)], fc_new := []\<rparr>"
    by (simp add: processAttestationLocked_def [of _ "ex_sa 0 5"] valid sa late Let_def skip)
  have "validateAttestationData ?c1 (sa_message (ex_sa 0 3)) = None"
    using valid(2) validateAttestationData_cong [of ?c1 ex_store_late] by simp
  then have c: "?c = ?c1\<lparr>fc_new := [(0, ex_sa 0 3)]\<rparr>"
    using valid(3) by (simp add: processAttestationLocked_def [of _ "ex_sa 0 3"] sa Let_def skip c1 not_less)
  have inv: "fc_inv ex_hash ZeroHash ?c"
    using ex_store_inv by (intro processAttestationLocked_inv) (simp add: fc_inv_def ex_store_late_def ex_env_def)
  obtain h where "acceptNewAttestationsLocked ?c =
      Some (?c\<lparr>fc_known := fold (\<lambda>(id, sa) m. AList.update id sa m) (fc_new ?c) (fc_known ?c), fc_new := [], fc_head := h\<rparr>)"
    by (rule acceptNewAttestationsLocked_total [OF inv])
  moreover have "fc_new ?c = [(0, ex_sa 0 3)]" and "fc_known ?c = [(0, ex_sa 0 5)]"
    and "fc_known ?c1 = [(0, ex_sa 0 5)]"
    unfolding c by (simp_all add: c1)
  ultimately show ?thesis
    by (intro exI [of _ ex_env_skip] exI [of _ ex_store_late] exI [of _ "ex_sa 0 5"] exI [of _ "ex_sa 0 3"]
        exI [of _ "?c\<lparr>fc_known := [(0, ex_sa 0 3)], fc_new := [], fc_head := h\<rparr>"] exI [of _ 0])
      (simp add: GetKnownAttestation_def sa)
qed

lemma two_thirds_score:
  assumes "unat n \<le> 4096"
  shows "2 * int (unat n) \<le> 3 * sint (ceilDiv (n * 2) 3)"
proof -
  have n: "n = of_nat (unat n)" by simp
  have "ceilDiv (n * 2) 3 = of_nat ((2 * unat n + 2) div 3)"
  proof (rule unsigned_word_eqI [where ?'a = nat])
    have "unat (n * 2) = 2 * unat n" using assms by (subst unat_mult_lem [THEN iffD1]) simp_all
    then have "unat (n * 2 + 3 - 1) = 2 * unat n + 2"
      using assms by (simp add: unat_word_ariths)
    then show "unat (ceilDiv (n * 2) 3) = unat (of_nat ((2 * unat n + 2) div 3) :: u64)"
      using assms by (simp add: ceilDiv_def unat_div)
  qed
  moreover have "sint (of_nat ((2 * unat n + 2) div 3) :: u64) = int ((2 * unat n + 2) div 3)"
    using assms by (simp add: signed_of_nat signed_take_bit_int_eq_self_iff)
  ultimately have "sint (ceilDiv (n * 2) 3) = int ((2 * unat n + 2) div 3)" by simp
  moreover have "2 * unat n \<le> 3 * ((2 * unat n + 2) div 3)" by presburger
  ultimately show ?thesis by linarith
qed

text \<open>
  C25: the safe target has the support of two thirds of the validators. After an update, the
  safe target is the latest justified block or one of its descendants that at least two thirds of the
  validators support with their pending votes.
\<close>

theorem safe_target_supermajority:
  assumes "fc_inv hash ap c" and "unat (fc_num_validators c) \<le> 4096"
    and "cp_root (fc_latest_justified c) \<noteq> ZeroHash"
    and "GetBlock (fc_storage c) (cp_root (fc_latest_justified c)) = Some rb"
    and "updateSafeTargetLocked c = Some c'"
  shows "fc_safe_target c' = cp_root (fc_latest_justified c) \<or>
    descends (GetBlock (fc_storage c)) (fc_safe_target c') (cp_root (fc_latest_justified c)) \<and>
    2 * unat (fc_num_validators c) \<le>
      3 * card {v. \<exists>sa. GetNewAttestation c v = Some sa \<and>
                 supports (GetBlock (fc_storage c)) (b_slot rb) (fc_safe_target c') sa}"
proof -
  let ?lj = "cp_root (fc_latest_justified c)" and ?f = "GetBlock (fc_storage c)"
  let ?min = "sint (ceilDiv (fc_num_validators c * 2) 3)"
  let ?w = "support ?f (b_slot rb) (map_of (fc_new c))"
  have start: "start_root (fc_storage c) ?lj = ?lj" using assms(3) by (simp add: start_root_def)
  have "\<exists>h. GetForkChoiceHead (fc_storage c) ?lj (fc_new c) ?min = Some h \<and> ghost ?f ?w ?min ?lj h"
    using GetForkChoiceHead_ghost [of "fc_storage c" "fc_new c" ?lj rb ?min] assms(1,4) storage_inv_forest
    by (auto simp: start fc_inv_def storage_inv_def)
  then have g: "ghost ?f ?w ?min ?lj (fc_safe_target c')"
    using assms(5) by (auto simp: updateSafeTargetLocked_def Let_def)
  let ?n = "card {v. \<exists>sa. GetNewAttestation c v = Some sa \<and> supports ?f (b_slot rb) (fc_safe_target c') sa}"
  have "2 * unat (fc_num_validators c) \<le> 3 * ?n" if "?min \<le> ?w (fc_safe_target c')"
  proof -
    have "?min \<le> int ?n" using that by (simp add: support_def GetNewAttestation_def)
    then have "2 * int (unat (fc_num_validators c)) \<le> 3 * int ?n"
      using two_thirds_score [OF assms(2)] by linarith
    then show ?thesis by linarith
  qed
  then show ?thesis using ghost_end(1,3) [OF g] by blast
qed

theorem safe_target_supermajority_witness:
  "fc_safe_target (the (updateSafeTargetLocked ex_store_late)) = cp_root (fc_latest_justified ex_store_late) \<or>
   descends (GetBlock (fc_storage ex_store_late)) (fc_safe_target (the (updateSafeTargetLocked ex_store_late)))
     (cp_root (fc_latest_justified ex_store_late)) \<and>
   2 * unat (fc_num_validators ex_store_late) \<le>
     3 * card {v. \<exists>sa. GetNewAttestation ex_store_late v = Some sa \<and>
       supports (GetBlock (fc_storage ex_store_late)) 0 (fc_safe_target (the (updateSafeTargetLocked ex_store_late))) sa}"
proof -
  have inv: "fc_inv ex_hash ZeroHash ex_store_late"
    using ex_store_inv by (simp add: fc_inv_def ex_store_late_def ex_env_def)
  have facts: "unat (fc_num_validators ex_store_late) \<le> 4096" "cp_root (fc_latest_justified ex_store_late) \<noteq> ZeroHash"
    "cp_root (fc_latest_justified ex_store_late) = bytes_of [1, 0, 0]" "b_slot ex_anchor = 0"
    by (simp_all add: ex_store_late_def ex_store_fields ex_anchor_fields ex_roots_differ)
  have "GetBlock (fc_storage ex_store_late) (cp_root (fc_latest_justified ex_store_late)) = Some ex_anchor"
    by (simp add: facts(3)) (simp add: ex_store_late_def ex_store_storage)
  moreover obtain h where "updateSafeTargetLocked ex_store_late = Some (ex_store_late\<lparr>fc_safe_target := h\<rparr>)"
    by (rule updateSafeTargetLocked_total [OF inv])
  ultimately show ?thesis
    using safe_target_supermajority [OF inv facts(1,2)] facts(4) by fastforce
qed

end
