(* ===== verification/Produce.thy ===== *)
theory Produce
  imports ForkChoice
begin

text \<open>
  Block and attestation production, \<open>chain/forkchoice/produce.go\<close>, and \<open>containsAttestation\<close> of
  \<open>helpers.go\<close>. The signer is an interface of the code; here it is the argument \<open>sign\<close>, a
  function from slot and message to an error or a signature.

  The walk to a justifiable target and the collection of attestations to a fixed point are loops
  whose end depends on the data: partial functions, shown to end below.
\<close>

subsection \<open>The code\<close>

datatype produce_error =
    NotProposerForSlot u64 u64
  | ProposerPanic
  | ProposalStateNotFound
  | SlotsFailed st_error
  | BlockFailed st_error
  | VoteTargetNotFound
  | VoteTargetFailed produce_error
  | HeadBlockNotFound
  | HashAttestationFailed ssz_error
  | SignFailed string

type_synonym signer = "u32 \<Rightarrow> root \<Rightarrow> string + byte list"

definition GetProposalHead :: "u64 \<Rightarrow> Store \<Rightarrow> (root \<times> Store) option" where
  "GetProposalHead slot c =
     (let slotTime = fc_genesis_time c + slot * SecondsPerSlot in
      Option.bind (advanceTimeLocked slotTime True c) (\<lambda>c1.
      Option.bind (acceptNewAttestationsLocked c1) (\<lambda>c2. Some (fc_head c2, c2))))"

text \<open>The bounded walk back towards the safe target.\<close>

primrec lookback :: "nat \<Rightarrow> Store \<Rightarrow> root \<Rightarrow> root" where
  "lookback 0 c targetRoot = targetRoot"
| "lookback (Suc n) c targetRoot =
     lookback n c
       (case (GetBlock (fc_storage c) targetRoot, GetBlock (fc_storage c) (fc_safe_target c)) of
          (Some tBlock, Some safeBlock) \<Rightarrow>
            if b_slot tBlock > b_slot safeBlock then b_parent_root tBlock else targetRoot
        | _ \<Rightarrow> targetRoot)"

partial_function (option) justifiable_ancestor :: "MemoryStore \<Rightarrow> u64 \<Rightarrow> root \<Rightarrow> root option" where
  "justifiable_ancestor m finalizedSlot targetRoot =
     (case GetBlock m targetRoot of
        None \<Rightarrow> Some targetRoot
      | Some tBlock \<Rightarrow>
          if IsJustifiableAfter (b_slot tBlock) finalizedSlot then Some targetRoot
          else justifiable_ancestor m finalizedSlot (b_parent_root tBlock))"

declare justifiable_ancestor.simps [code]

definition getVoteTargetLocked :: "hasher \<Rightarrow> Store \<Rightarrow> (produce_error + Checkpoint) option" where
  "getVoteTargetLocked hash c =
     map_option
       (\<lambda>targetRoot.
          case GetBlock (fc_storage c) targetRoot of
            None \<Rightarrow> Inl VoteTargetNotFound
          | Some tBlock \<Rightarrow> Inr \<lparr>cp_root = fst (Block_HashTreeRoot hash tBlock), cp_slot = b_slot tBlock\<rparr>)
       (justifiable_ancestor (fc_storage c) (cp_slot (fc_latest_finalized c))
          (lookback JustificationLookback c (fc_head c)))"

definition containsAttestation :: "Attestation list \<Rightarrow> Attestation \<Rightarrow> bool" where
  "containsAttestation list att \<longleftrightarrow>
     (\<exists>existing \<in> set list.
        att_validator existing = att_validator att \<and>
        ad_slot (att_data existing) = ad_slot (att_data att))"

definition attestation_of :: "SignedAttestation \<Rightarrow> Attestation" where
  "attestation_of sa = \<lparr>att_validator = sa_validator sa, att_data = sa_message sa\<rparr>"

text \<open>The votes of one round: head known, source justified in the post state, not yet included.\<close>

definition select_votes ::
    "MemoryStore \<Rightarrow> vote_map \<Rightarrow> Checkpoint \<Rightarrow> Attestation list \<Rightarrow> SignedAttestation list" where
  "select_votes m known justified attestations =
     filter (\<lambda>sa. GetBlock m (cp_root (ad_head (sa_message sa))) \<noteq> None \<and>
         cp_root (ad_source (sa_message sa)) = cp_root justified \<and>
         cp_slot (ad_source (sa_message sa)) = cp_slot justified \<and>
         \<not> containsAttestation attestations (attestation_of sa))
       (map snd known)"

definition candidate_block :: "u64 \<Rightarrow> u64 \<Rightarrow> root \<Rightarrow> Attestation list \<Rightarrow> Block" where
  "candidate_block slot validatorIndex headRoot attestations =
     \<lparr>b_slot = slot, b_proposer = validatorIndex, b_parent_root = headRoot, b_state_root = ZeroHash,
      b_body = \<lparr>body_attestations = attestations\<rparr>\<rparr>"

partial_function (option) collect ::
    "hasher \<Rightarrow> MemoryStore \<Rightarrow> vote_map \<Rightarrow> State \<Rightarrow> u64 \<Rightarrow> u64 \<Rightarrow> root \<Rightarrow> Attestation list \<Rightarrow>
     SignedAttestation list \<Rightarrow> (st_error + Attestation list \<times> SignedAttestation list) option" where
  "collect hash m known advancedState slot validatorIndex headRoot attestations collectedSigned =
     (case ProcessBlock hash advancedState (candidate_block slot validatorIndex headRoot attestations) of
        Inl err \<Rightarrow> Some (Inl err)
      | Inr postState \<Rightarrow>
          let newSigned = select_votes m known (st_latest_justified postState) attestations in
          if length newSigned = 0 then Some (Inr (attestations, collectedSigned))
          else collect hash m known advancedState slot validatorIndex headRoot
                 (attestations @ map attestation_of newSigned) (collectedSigned @ newSigned))"

declare collect.simps [code]

text \<open>
  The part of \<open>ProduceBlock\<close> after the attestations are collected: the final block, the proposer's
  own attestation, its signature, and the three writes.
\<close>

definition finish_block ::
    "hasher \<Rightarrow> signer \<Rightarrow> u64 \<Rightarrow> u64 \<Rightarrow> root \<Rightarrow> State \<Rightarrow> Attestation list \<Rightarrow> SignedAttestation list \<Rightarrow> Store \<Rightarrow>
     ((produce_error + SignedBlockWithAttestation) \<times> Store) option" where
  "finish_block hash sign slot validatorIndex headRoot advancedState attestations collectedSigned c =
     (let block0 = candidate_block slot validatorIndex headRoot attestations in
      case ProcessBlock hash advancedState block0 of
        Inl err \<Rightarrow> Some (Inl (BlockFailed err), c)
      | Inr finalState \<Rightarrow>
        let stateRoot = fst (State_HashTreeRoot hash finalState);
            finalBlock = block0\<lparr>b_state_root := stateRoot\<rparr>;
            blockHash = fst (Block_HashTreeRoot hash finalBlock)
        in Option.bind (getVoteTargetLocked hash c) (\<lambda>target.
        case target of
          Inl err \<Rightarrow> Some (Inl (VoteTargetFailed err), c)
        | Inr voteTarget \<Rightarrow>
          let proposerAtt = \<lparr>att_validator = validatorIndex,
                att_data = \<lparr>ad_slot = slot, ad_head = \<lparr>cp_root = blockHash, cp_slot = slot\<rparr>,
                  ad_target = voteTarget, ad_source = fc_latest_justified c\<rparr>\<rparr>
          in case Attestation_HashTreeRoot hash proposerAtt of
               (_, Some err) \<Rightarrow> Some (Inl (HashAttestationFailed err), c)
             | (msgRoot, None) \<Rightarrow>
               (case sign (ucast slot) msgRoot of
                  Inl err \<Rightarrow> Some (Inl (SignFailed err), c)
                | Inr sig \<Rightarrow>
                  let envelope = \<lparr>sb_message = \<lparr>bwa_block = finalBlock, bwa_proposer_attestation = Some proposerAtt\<rparr>,
                        sb_signature = map sa_signature collectedSigned @ [bytes_of sig]\<rparr>
                  in Some (Inr envelope,
                       c\<lparr>fc_storage := store_block blockHash envelope finalState (fc_storage c)\<rparr>))))"

definition ProduceBlock ::
    "hasher \<Rightarrow> signer \<Rightarrow> u64 \<Rightarrow> u64 \<Rightarrow> Store \<Rightarrow>
     ((produce_error + SignedBlockWithAttestation) \<times> Store) option" where
  "ProduceBlock hash sign slot validatorIndex c0 =
     (case IsProposer validatorIndex slot (fc_num_validators c0) of
        None \<Rightarrow> Some (Inl ProposerPanic, c0)
      | Some False \<Rightarrow> Some (Inl (NotProposerForSlot validatorIndex slot), c0)
      | Some True \<Rightarrow>
        let slotTime = fc_genesis_time c0 + slot * SecondsPerSlot in
        Option.bind (advanceTimeLocked slotTime True c0) (\<lambda>c1.
        Option.bind (acceptNewAttestationsLocked c1) (\<lambda>c.
        let headRoot = fc_head c in
        case GetState (fc_storage c) headRoot of
          None \<Rightarrow> Some (Inl ProposalStateNotFound, c)
        | Some headState \<Rightarrow>
        (case ProcessSlots hash headState slot of
           Inl err \<Rightarrow> Some (Inl (SlotsFailed err), c)
         | Inr advancedState \<Rightarrow>
           Option.bind
             (collect hash (fc_storage c) (fc_known c) advancedState slot validatorIndex headRoot [] [])
             (\<lambda>r. case r of
                     Inl err \<Rightarrow> Some (Inl (BlockFailed err), c)
                   | Inr (attestations, collectedSigned) \<Rightarrow>
                       finish_block hash sign slot validatorIndex headRoot advancedState
                         attestations collectedSigned c)))))"

definition ProduceAttestation ::
    "hasher \<Rightarrow> signer \<Rightarrow> u64 \<Rightarrow> u64 \<Rightarrow> Store \<Rightarrow> ((produce_error + SignedAttestation) \<times> Store) option" where
  "ProduceAttestation hash sign slot validatorIndex c0 =
     (let slotTime = fc_genesis_time c0 + slot * SecondsPerSlot in
      Option.bind (advanceTimeLocked slotTime True c0) (\<lambda>c1.
      Option.bind (acceptNewAttestationsLocked c1) (\<lambda>c.
      let headRoot = fc_head c in
      case GetBlock (fc_storage c) headRoot of
        None \<Rightarrow> Some (Inl HeadBlockNotFound, c)
      | Some headBlock \<Rightarrow>
        Option.bind (getVoteTargetLocked hash c) (\<lambda>target.
        case target of
          Inl err \<Rightarrow> Some (Inl (VoteTargetFailed err), c)
        | Inr targetCheckpoint \<Rightarrow>
          let data = \<lparr>ad_slot = slot, ad_head = \<lparr>cp_root = headRoot, cp_slot = b_slot headBlock\<rparr>,
                ad_target = targetCheckpoint, ad_source = fc_latest_justified c\<rparr>
          in case Attestation_HashTreeRoot hash \<lparr>att_validator = validatorIndex, att_data = data\<rparr> of
               (_, Some err) \<Rightarrow> Some (Inl (HashAttestationFailed err), c)
             | (messageRoot, None) \<Rightarrow>
               (case sign (ucast slot) messageRoot of
                  Inl err \<Rightarrow> Some (Inl (SignFailed err), c)
                | Inr sig \<Rightarrow>
                  Some (Inr \<lparr>sa_validator = validatorIndex, sa_message = data, sa_signature = bytes_of sig\<rparr>, c))))))"

subsection \<open>The vote target\<close>

lemma storage_inv_parent:
  assumes "storage_inv hash ap m" and "GetBlock m r = Some b" and "GetBlock m (b_parent_root b) = Some p"
  shows "b_slot p < b_slot b"
proof -
  have "block_ok hash ap m r b" "GetBlock m ap = None" using assms(1,2) by (simp_all add: storage_inv_def)
  then show ?thesis using assms(3) by (auto simp: block_ok_def)
qed

lemma storage_inv_root: "storage_inv hash ap m \<Longrightarrow> GetBlock m r = Some b \<Longrightarrow> block_root hash b = r"
  by (auto simp: storage_inv_def block_ok_def)

lemma justifiable_ancestor_spec:
  assumes "storage_inv hash ap m"
  shows "\<exists>r. justifiable_ancestor m f t = Some r \<and> descends (GetBlock m) t r \<and>
    (\<forall>b. GetBlock m r = Some b \<longrightarrow> IsJustifiableAfter (b_slot b) f)"
proof (induction "case GetBlock m t of None \<Rightarrow> 0 | Some b \<Rightarrow> Suc (unat (b_slot b))" arbitrary: t rule: less_induct)
  case less
  show ?case
  proof (cases "GetBlock m t")
    case None
    then show ?thesis by (auto simp: justifiable_ancestor.simps [of m f t] intro: descends.self)
  next
    case (Some b)
    show ?thesis
    proof (cases "IsJustifiableAfter (b_slot b) f")
      case True
      then show ?thesis using Some by (auto simp: justifiable_ancestor.simps [of m f t] intro: descends.self)
    next
      case False
      have "(case GetBlock m (b_parent_root b) of None \<Rightarrow> 0 | Some p \<Rightarrow> Suc (unat (b_slot p))) < Suc (unat (b_slot b))"
        using storage_inv_parent [OF assms Some] by (auto simp: word_less_nat_alt split: option.split)
      then obtain r where "justifiable_ancestor m f (b_parent_root b) = Some r"
        "descends (GetBlock m) (b_parent_root b) r" "\<forall>b. GetBlock m r = Some b \<longrightarrow> IsJustifiableAfter (b_slot b) f"
        using less [of "b_parent_root b"] Some by auto
      then show ?thesis
        using Some False by (auto simp: justifiable_ancestor.simps [of m f t] intro: descends.parent)
    qed
  qed
qed

lemma lookback_descends: "descends (GetBlock (fc_storage c)) t (lookback n c t)"
proof (induction n arbitrary: t)
  case (Suc n)
  show ?case
    by (auto intro: Suc descends.parent split: option.split)
qed (auto intro: descends.self)

lemma getVoteTargetLocked_spec:
  assumes inv: "fc_inv hash ap c"
  shows "\<exists>r. getVoteTargetLocked hash c = Some r \<and>
    (\<forall>cp. r = Inr cp \<longrightarrow>
      (\<exists>b. GetBlock (fc_storage c) (cp_root cp) = Some b \<and> b_slot b = cp_slot cp) \<and>
      IsJustifiableAfter (cp_slot cp) (cp_slot (fc_latest_finalized c)) \<and>
      descends (GetBlock (fc_storage c)) (fc_head c) (cp_root cp))"
proof -
  let ?m = "fc_storage c" and ?t = "lookback JustificationLookback c (fc_head c)"
  have st: "storage_inv hash ap ?m" using inv by (simp add: fc_inv_def)
  obtain r where r: "justifiable_ancestor ?m (cp_slot (fc_latest_finalized c)) ?t = Some r"
    "descends (GetBlock ?m) ?t r"
    "\<And>b. GetBlock ?m r = Some b \<Longrightarrow> IsJustifiableAfter (b_slot b) (cp_slot (fc_latest_finalized c))"
    using justifiable_ancestor_spec [OF st] by blast
  have d: "descends (GetBlock ?m) (fc_head c) r"
    using lookback_descends r(2) by (rule descends_trans)
  show ?thesis
  proof (cases "GetBlock ?m r")
    case None
    then show ?thesis by (simp add: getVoteTargetLocked_def r(1))
  next
    case (Some b)
    then show ?thesis
      using d r(3) storage_inv_root [OF st Some] by (simp add: getVoteTargetLocked_def r(1))
  qed
qed

text \<open>
  The walk stays on the chain of a stored ancestor \<open>a\<close> at the finalized slot, and stops there at
  the latest.
\<close>

lemma descends_parent:
  "descends f t a \<Longrightarrow> f t = Some b \<Longrightarrow> t \<noteq> a \<Longrightarrow> descends f (b_parent_root b) a"
  by (subst (asm) descends_unfold) auto

lemma lookback_stays:
  assumes "descends (GetBlock (fc_storage c)) t a" and "GetBlock (fc_storage c) a = Some ab"
    and "GetBlock (fc_storage c) (fc_safe_target c) = Some sb" and "b_slot ab \<le> b_slot sb"
  shows "descends (GetBlock (fc_storage c)) (lookback n c t) a"
  using assms(1)
proof (induction n arbitrary: t)
  case (Suc n)
  show ?case
  proof (cases "GetBlock (fc_storage c) t")
    case None
    then show ?thesis using Suc by simp
  next
    case (Some b)
    then have "t \<noteq> a" if "b_slot b > b_slot sb" using that assms(2,4) by auto
    then have "descends (GetBlock (fc_storage c)) (b_parent_root b) a" if "b_slot b > b_slot sb"
      using that Suc.prems Some by (auto intro: descends_parent)
    then show ?thesis using Suc Some assms(3) by simp
  qed
qed simp

lemma justifiable_ancestor_stays:
  assumes "storage_inv hash ap m" and "descends (GetBlock m) t a" and "GetBlock m a = Some ab" and "b_slot ab = f"
  shows "\<exists>r b. justifiable_ancestor m f t = Some r \<and> GetBlock m r = Some b"
  using assms(2,3)
proof (induction rule: descends.induct)
  case (self h)
  then show ?case using assms(4) by (simp add: justifiable_ancestor.simps [of m f h])
next
  case (parent h b a)
  then show ?case by (simp add: justifiable_ancestor.simps [of m f h])
qed

subsection \<open>Collecting attestations\<close>

definition missing :: "vote_map \<Rightarrow> Attestation list \<Rightarrow> SignedAttestation list" where
  "missing known atts = filter (\<lambda>sa. \<not> containsAttestation atts (attestation_of sa)) (map snd known)"

lemma containsAttestation_append:
  "containsAttestation (xs @ ys) att \<longleftrightarrow> containsAttestation xs att \<or> containsAttestation ys att"
  by (auto simp: containsAttestation_def)

lemma containsAttestation_member: "att \<in> set xs \<Longrightarrow> containsAttestation xs att"
  by (auto simp: containsAttestation_def)

lemma length_filter_strict:
  assumes "x \<in> set xs" "P x" "\<not> Q x" and "\<And>y. Q y \<Longrightarrow> P y"
  shows "length (filter Q xs) < length (filter P xs)"
proof -
  have "filter Q xs = filter Q (filter P xs)"
    using assms(4) by (induction xs) auto
  also have "length \<dots> < length (filter P xs)"
    by (rule length_filter_less [of x]) (use assms(1-3) in auto)
  finally show ?thesis .
qed

text \<open>A round that adds a vote leaves fewer votes that are not included.\<close>

lemma missing_decreases:
  assumes "select_votes m known j atts \<noteq> []"
  shows "length (missing known (atts @ map attestation_of (select_votes m known j atts))) < length (missing known atts)"
proof -
  let ?new = "select_votes m known j atts"
  obtain sa where "sa \<in> set ?new" using assms by (meson last_in_set)
  then have "containsAttestation (map attestation_of ?new) (attestation_of sa)"
    "sa \<in> set (map snd known)" "\<not> containsAttestation atts (attestation_of sa)"
    by (simp_all add: containsAttestation_member) (auto simp: select_votes_def)
  then show ?thesis
    unfolding missing_def by (intro length_filter_strict) (auto simp: containsAttestation_append)
qed

text \<open>What the collection ends with: a block body that is processed without error and a fixed point.\<close>

definition collected :: "hasher \<Rightarrow> MemoryStore \<Rightarrow> vote_map \<Rightarrow> State \<Rightarrow> u64 \<Rightarrow> u64 \<Rightarrow> root \<Rightarrow>
    Attestation list \<Rightarrow> SignedAttestation list \<Rightarrow> bool" where
  "collected hash m known adv slot v headRoot atts sas \<longleftrightarrow>
     map attestation_of sas = atts \<and> set sas \<subseteq> set (map snd known) \<and>
     (distinct (map snd known) \<longrightarrow> distinct sas) \<and>
     (\<exists>post. ProcessBlock hash adv (candidate_block slot v headRoot atts) = Inr post \<and>
       select_votes m known (st_latest_justified post) atts = [])"

lemma collect_spec:
  assumes "map attestation_of sas = atts" and "set sas \<subseteq> set (map snd known)" and "distinct (map snd known) \<longrightarrow> distinct sas"
  shows "\<exists>r. collect hash m known adv slot v headRoot atts sas = Some r \<and>
    (\<forall>atts' sas'. r = Inr (atts', sas') \<longrightarrow> collected hash m known adv slot v headRoot atts' sas')"
  using assms
proof (induction "length (missing known atts)" arbitrary: atts sas rule: less_induct)
  case less
  note unfold = collect.simps [of hash m known adv slot v headRoot atts sas]
  show ?case
  proof (cases "ProcessBlock hash adv (candidate_block slot v headRoot atts)")
    case (Inl err)
    then show ?thesis by (simp add: unfold)
  next
    case (Inr post)
    let ?new = "select_votes m known (st_latest_justified post) atts"
    show ?thesis
    proof (cases "?new = []")
      case True
      then show ?thesis using less.prems Inr by (simp add: unfold collected_def)
    next
      case False
      have "set ?new \<subseteq> set (map snd known)" by (auto simp: select_votes_def)
      moreover have "distinct (map snd known) \<longrightarrow> distinct (sas @ ?new)"
        using less.prems by (auto simp: select_votes_def containsAttestation_def attestation_of_def)
      ultimately obtain r where "collect hash m known adv slot v headRoot (atts @ map attestation_of ?new) (sas @ ?new) = Some r"
        "\<forall>atts' sas'. r = Inr (atts', sas') \<longrightarrow> collected hash m known adv slot v headRoot atts' sas'"
        using less.hyps [OF missing_decreases [OF False], of "sas @ ?new"] less.prems by auto
      then show ?thesis using Inr False by (simp add: unfold Let_def)
    qed
  qed
qed

subsection \<open>Producing blocks\<close>

text \<open>A block made from the head state by \<open>ProcessSlots\<close> and \<open>ProcessBlock\<close> passes the transition.\<close>

lemma StateTransition_of_production:
  assumes "ProcessSlots hash hs slot = Inr adv"
    and "ProcessBlock hash adv (candidate_block slot v headRoot atts) = Inr fs"
  shows "StateTransition hash hs
    ((candidate_block slot v headRoot atts)\<lparr>b_state_root := fst (State_HashTreeRoot hash fs)\<rparr>) = Inr fs"
  using assms by (simp add: StateTransition_def ProcessBlock_state_root) (simp add: candidate_block_def)

text \<open>What a produced envelope is.\<close>

definition produced :: "hasher \<Rightarrow> signer \<Rightarrow> u64 \<Rightarrow> u64 \<Rightarrow> Store \<Rightarrow> SignedBlockWithAttestation \<Rightarrow> State \<Rightarrow> bool" where
  "produced hash sign slot v c envelope fs \<longleftrightarrow>
     (let block = bwa_block (sb_message envelope) in
      b_slot block = slot \<and> b_proposer block = v \<and> b_parent_root block = fc_head c \<and>
      (\<exists>hs. GetState (fc_storage c) (fc_head c) = Some hs \<and> StateTransition hash hs block = Inr fs) \<and>
      (\<exists>att sas rt sig. bwa_proposer_attestation (sb_message envelope) = Some att \<and>
        att_validator att = v \<and> ad_slot (att_data att) = slot \<and>
        ad_head (att_data att) = \<lparr>cp_root = block_root hash block, cp_slot = slot\<rparr> \<and>
        ad_source (att_data att) = fc_latest_justified c \<and>
        set sas \<subseteq> set (map snd (fc_known c)) \<and> (distinct (map snd (fc_known c)) \<longrightarrow> distinct sas) \<and>
        body_attestations (b_body block) = map attestation_of sas \<and>
        Attestation_HashTreeRoot hash att = (rt, None) \<and> sign (ucast slot) rt = Inr sig \<and>
        sb_signature envelope = map sa_signature sas @ [bytes_of sig]))"

lemma finish_block_cases:
  assumes inv: "fc_inv hash ap c" and hs: "GetState (fc_storage c) (fc_head c) = Some hs"
    and adv: "ProcessSlots hash hs slot = Inr adv"
    and coll: "collected hash (fc_storage c) (fc_known c) adv slot v (fc_head c) atts sas"
  obtains (failed) err where "finish_block hash sign slot v (fc_head c) adv atts sas c = Some (Inl err, c)"
  | (made) envelope fs where "produced hash sign slot v c envelope fs"
      "finish_block hash sign slot v (fc_head c) adv atts sas c = Some (Inr envelope,
        c\<lparr>fc_storage := store_block (block_root hash (bwa_block (sb_message envelope))) envelope fs (fc_storage c)\<rparr>)"
proof -
  let ?b0 = "candidate_block slot v (fc_head c) atts"
  obtain fs where fs: "ProcessBlock hash adv ?b0 = Inr fs" using coll by (auto simp: collected_def)
  let ?b = "?b0\<lparr>b_state_root := fst (State_HashTreeRoot hash fs)\<rparr>"
  obtain t where t: "getVoteTargetLocked hash c = Some t" using getVoteTargetLocked_spec [OF inv] by blast
  note unfold = finish_block_def [of hash sign slot v "fc_head c" adv atts sas c]
  show ?thesis
  proof (cases t)
    case (Inl err)
    have "finish_block hash sign slot v (fc_head c) adv atts sas c = Some (Inl (VoteTargetFailed err), c)"
      by (simp add: unfold Let_def fs t Inl)
    then show ?thesis by (rule failed)
  next
    case (Inr cp)
    let ?att = "\<lparr>att_validator = v, att_data = \<lparr>ad_slot = slot, ad_head = \<lparr>cp_root = block_root hash ?b, cp_slot = slot\<rparr>,
      ad_target = cp, ad_source = fc_latest_justified c\<rparr>\<rparr>"
    obtain rt err where hash: "Attestation_HashTreeRoot hash ?att = (rt, err)" by force
    show ?thesis
    proof (cases err)
      case (Some e)
      have "finish_block hash sign slot v (fc_head c) adv atts sas c = Some (Inl (HashAttestationFailed e), c)"
        by (simp add: unfold Let_def fs t Inr hash Some)
      then show ?thesis by (rule failed)
    next
      case None
      show ?thesis
      proof (cases "sign (ucast slot) rt")
        case (Inl e)
        have "finish_block hash sign slot v (fc_head c) adv atts sas c = Some (Inl (SignFailed e), c)"
          by (simp add: unfold Let_def fs t Inr hash None Inl)
        then show ?thesis by (rule failed)
      next
        case sg: (Inr sig)
        let ?env = "\<lparr>sb_message = \<lparr>bwa_block = ?b, bwa_proposer_attestation = Some ?att\<rparr>,
          sb_signature = map sa_signature sas @ [bytes_of sig]\<rparr>"
        have "produced hash sign slot v c ?env fs"
          using hs StateTransition_of_production [OF adv fs] coll hash None sg
          by (auto simp: produced_def candidate_block_def collected_def Let_def intro!: exI [of _ sas])
        moreover have "finish_block hash sign slot v (fc_head c) adv atts sas c = Some (Inr ?env,
            c\<lparr>fc_storage := store_block (block_root hash ?b) ?env fs (fc_storage c)\<rparr>)"
          by (simp add: unfold Let_def fs t Inr hash None sg)
        ultimately show ?thesis using made [of ?env fs] by simp
      qed
    qed
  qed
qed

lemma ProduceBlock_cases:
  assumes inv: "fc_inv hash ap c0"
  obtains (failed) err c where "ProduceBlock hash sign slot v c0 = Some (Inl err, c)" "fc_inv hash ap c" "same_chain c0 c"
      "c = c0 \<or> GetProposalHead slot c0 = Some (fc_head c, c)"
  | (made) envelope fs c where "produced hash sign slot v c envelope fs" "fc_inv hash ap c" "same_chain c0 c"
      "IsProposer v slot (fc_num_validators c0) = Some True" "fc_new c = []"
      "ProduceBlock hash sign slot v c0 = Some (Inr envelope,
        c\<lparr>fc_storage := store_block (block_root hash (bwa_block (sb_message envelope))) envelope fs (fc_storage c)\<rparr>)"
      "GetProposalHead slot c0 = Some (fc_head c, c)"
proof (cases "IsProposer v slot (fc_num_validators c0)")
  case None
  then show ?thesis using failed inv by (simp add: ProduceBlock_def)
next
  case (Some p)
  show ?thesis
  proof (cases p)
    case False
    then show ?thesis using failed inv Some by (simp add: ProduceBlock_def)
  next
    case True
    obtain c1 where c1: "advanceTimeLocked (fc_genesis_time c0 + slot * SecondsPerSlot) True c0 = Some c1"
      "fc_inv hash ap c1" "same_chain c0 c1" by (rule advanceTimeLocked_inv [OF inv])
    obtain c where c: "acceptNewAttestationsLocked c1 = Some c" "fc_inv hash ap c" "same_chain c1 c" "fc_new c = []"
      by (rule acceptNewAttestationsLocked_inv [OF c1(2)])
    have same: "same_chain c0 c" using c1(3) c(3) by (rule same_chain_trans)
    have head: "GetProposalHead slot c0 = Some (fc_head c, c)" using c1(1) c(1) by (simp add: GetProposalHead_def)
    note unfold = ProduceBlock_def [of hash sign slot v c0]
    note start = Some True c1(1) c(1)
    show ?thesis
    proof (cases "GetState (fc_storage c) (fc_head c)")
      case None
      have "ProduceBlock hash sign slot v c0 = Some (Inl ProposalStateNotFound, c)"
        by (simp add: unfold start Let_def None)
      then show ?thesis using c(2) same head by (blast intro: failed)
    next
      case hs: (Some hs)
      show ?thesis
      proof (cases "ProcessSlots hash hs slot")
        case (Inl err)
        have "ProduceBlock hash sign slot v c0 = Some (Inl (SlotsFailed err), c)"
          by (simp add: unfold start Let_def hs Inl)
        then show ?thesis using c(2) same head by (blast intro: failed)
      next
        case adv: (Inr adv)
        obtain r where r: "collect hash (fc_storage c) (fc_known c) adv slot v (fc_head c) [] [] = Some r"
          "\<And>atts sas. r = Inr (atts, sas) \<Longrightarrow> collected hash (fc_storage c) (fc_known c) adv slot v (fc_head c) atts sas"
          using collect_spec [of "[]" "[]" "fc_known c" hash "fc_storage c" adv slot v "fc_head c"] by auto
        show ?thesis
        proof (cases r)
          case (Inl err)
          have "ProduceBlock hash sign slot v c0 = Some (Inl (BlockFailed err), c)"
            by (simp add: unfold start Let_def hs adv r(1) Inl)
          then show ?thesis using c(2) same head by (blast intro: failed)
        next
          case (Inr p)
          obtain atts sas where p: "r = Inr (atts, sas)" using Inr by (cases p) simp
          have eq: "ProduceBlock hash sign slot v c0 = finish_block hash sign slot v (fc_head c) adv atts sas c"
            by (simp add: unfold start Let_def hs adv r(1) p)
          from c(2) hs adv r(2) [OF p] show ?thesis
            by (cases rule: finish_block_cases [where sign = sign])
              (use eq c(2,4) same head Some True in \<open>auto intro: failed made\<close>)
        qed
      qed
    qed
  qed
qed

definition ex_sign :: signer where
  "ex_sign slot message = Inr [1]"

definition ex_store2 :: Store where
  "ex_store2 = ex_store\<lparr>fc_time := 8\<rparr>"

lemma ex_produces: "\<exists>envelope c. ProduceBlock ex_hash ex_sign 2 2 ex_store2 = Some (Inr envelope, c)"
proof -
  have "(case ProduceBlock ex_hash ex_sign 2 2 ex_store2 of Some (Inr _, _) \<Rightarrow> True | _ \<Rightarrow> False)" by code_simp
  then show ?thesis by (auto split: option.splits sum.splits)
qed

lemma produced_signature_count:
  "produced hash sign slot v c envelope fs \<Longrightarrow>
     bwa_proposer_attestation (sb_message envelope) \<noteq> None \<and>
     length (sb_signature envelope) = length (body_attestations (b_body (bwa_block (sb_message envelope)))) + 1"
  by (auto simp: produced_def Let_def)

lemma ProduceBlock_inv:
  assumes inv: "fc_inv hash ap c" and "ProduceBlock hash sign slot v c = Some (r, c')"
    and fresh: "\<And>envelope b. r = Inr envelope \<Longrightarrow>
      block_root hash (bwa_block (sb_message envelope)) \<noteq> ap \<and>
      (GetBlock (fc_storage c) (block_root hash (bwa_block (sb_message envelope))) = Some b \<longrightarrow>
        b = bwa_block (sb_message envelope))"
  shows "fc_inv hash ap c'" and "fc_grows c c'"
proof -
  have "fc_inv hash ap c' \<and> fc_grows c c'"
  using inv
  proof (cases rule: ProduceBlock_cases [where sign = sign and slot = slot and v = v])
    case (failed err c1)
    then show ?thesis using assms(2) same_chain_grows by auto
  next
    case (made envelope fs c1)
    let ?b = "bwa_block (sb_message envelope)"
    let ?c = "c1\<lparr>fc_storage := store_block (block_root hash ?b) envelope fs (fc_storage c1)\<rparr>"
    have r: "r = Inr envelope" "c' = ?c" using made(6) assms(2) by auto
    have m: "fc_storage c1 = fc_storage c" using made(3) by (simp add: same_chain_def)
    obtain hs where hs: "GetState (fc_storage c) (b_parent_root ?b) = Some hs" "StateTransition hash hs ?b = Inr fs"
      using made(1) by (auto simp: produced_def Let_def m)
    have "storage_inv hash ap (store_block (block_root hash ?b) envelope fs (fc_storage c))"
      using inv fresh [OF r(1)] StateTransition_slots [OF hs(2)] hs(1)
      by (intro storage_inv_store_block [OF _ refl refl]) (auto simp: fc_inv_def)
    then have "fc_inv hash ap ?c" using made(2) by (simp add: fc_inv_def m)
    moreover have "fc_grows c ?c"
      using made(3) fresh [OF r(1)] by (auto simp: fc_grows_def same_chain_def store_block_lookup)
    ultimately show ?thesis by (simp add: r(2))
  qed
  then show "fc_inv hash ap c'" and "fc_grows c c'" by simp_all
qed

subsection \<open>Producing attestations\<close>

lemma ProduceAttestation_cases:
  assumes inv: "fc_inv hash ap c0"
  obtains (failed) err c where "ProduceAttestation hash sign slot v c0 = Some (Inl err, c)" "fc_inv hash ap c" "same_chain c0 c"
      "GetProposalHead slot c0 = Some (fc_head c, c)"
  | (made) sa hb t c where "ProduceAttestation hash sign slot v c0 = Some (Inr sa, c)" "fc_inv hash ap c" "same_chain c0 c"
      "GetBlock (fc_storage c) (fc_head c) = Some hb" "getVoteTargetLocked hash c = Some (Inr t)" "sa_validator sa = v"
      "sa_message sa = \<lparr>ad_slot = slot, ad_head = \<lparr>cp_root = fc_head c, cp_slot = b_slot hb\<rparr>, ad_target = t,
        ad_source = fc_latest_justified c\<rparr>" "GetProposalHead slot c0 = Some (fc_head c, c)"
proof -
  obtain c1 where c1: "advanceTimeLocked (fc_genesis_time c0 + slot * SecondsPerSlot) True c0 = Some c1"
    "fc_inv hash ap c1" "same_chain c0 c1" by (rule advanceTimeLocked_inv [OF inv])
  obtain c where c: "acceptNewAttestationsLocked c1 = Some c" "fc_inv hash ap c" "same_chain c1 c"
    by (rule acceptNewAttestationsLocked_inv [OF c1(2)])
  have same: "same_chain c0 c" using c1(3) c(3) by (rule same_chain_trans)
  have head: "GetProposalHead slot c0 = Some (fc_head c, c)" using c1(1) c(1) by (simp add: GetProposalHead_def)
  note unfold = ProduceAttestation_def [of hash sign slot v c0] and start = c1(1) c(1)
  obtain t where t: "getVoteTargetLocked hash c = Some t" using getVoteTargetLocked_spec [OF c(2)] by blast
  show ?thesis
  proof (cases "GetBlock (fc_storage c) (fc_head c)")
    case None
    have "ProduceAttestation hash sign slot v c0 = Some (Inl HeadBlockNotFound, c)"
      by (simp add: unfold start Let_def None)
    then show ?thesis using c(2) same head by (rule failed)
  next
    case hb: (Some hb)
    show ?thesis
    proof (cases t)
      case (Inl err)
      have "ProduceAttestation hash sign slot v c0 = Some (Inl (VoteTargetFailed err), c)"
        by (simp add: unfold start Let_def hb t Inl)
      then show ?thesis using c(2) same head by (rule failed)
    next
      case target: (Inr cp)
      let ?data = "\<lparr>ad_slot = slot, ad_head = \<lparr>cp_root = fc_head c, cp_slot = b_slot hb\<rparr>, ad_target = cp,
        ad_source = fc_latest_justified c\<rparr>"
      obtain rt err where hash: "Attestation_HashTreeRoot hash \<lparr>att_validator = v, att_data = ?data\<rparr> = (rt, err)" by force
      show ?thesis
      proof (cases err)
        case (Some e)
        have "ProduceAttestation hash sign slot v c0 = Some (Inl (HashAttestationFailed e), c)"
          by (simp add: unfold start Let_def hb t target hash Some)
        then show ?thesis using c(2) same head by (rule failed)
      next
        case None
        show ?thesis
        proof (cases "sign (ucast slot) rt")
          case (Inl e)
          have "ProduceAttestation hash sign slot v c0 = Some (Inl (SignFailed e), c)"
            by (simp add: unfold start Let_def hb t target hash None Inl)
          then show ?thesis using c(2) same head by (rule failed)
        next
          case sg: (Inr sig)
          have "ProduceAttestation hash sign slot v c0 =
              Some (Inr \<lparr>sa_validator = v, sa_message = ?data, sa_signature = bytes_of sig\<rparr>, c)"
            by (simp add: unfold start Let_def hb t target hash None sg)
          from made [OF this c(2) same hb] show ?thesis by (simp add: t target head)
        qed
      qed
    qed
  qed
qed

subsection \<open>Theorems\<close>


lemma ex_store2_inv: "fc_inv ex_hash ZeroHash ex_store2"
  using ex_store_inv by (simp add: fc_inv_def ex_store2_def ex_env_def)


text \<open>
  Production always ends. On a store that satisfies the invariant \<open>ProduceBlock\<close> and
  \<open>ProduceAttestation\<close> return, with an error or a result: the collection of attestations reaches a
  fixed point, and the walks for the head and the vote target end. On an error nothing but the clock,
  the votes and the head has changed.
\<close>

theorem production_terminates:
  assumes "fc_inv hash ap c"
  shows "(\<exists>r c'. ProduceBlock hash sign slot v c = Some (r, c') \<and> (\<forall>err. r = Inl err \<longrightarrow> same_chain c c')) \<and>
    (\<exists>r c'. ProduceAttestation hash sign slot v c = Some (r, c') \<and> same_chain c c')"
proof
  from assms show "\<exists>r c'. ProduceBlock hash sign slot v c = Some (r, c') \<and> (\<forall>err. r = Inl err \<longrightarrow> same_chain c c')"
    by (cases rule: ProduceBlock_cases [where sign = sign and slot = slot and v = v]) auto
  from assms show "\<exists>r c'. ProduceAttestation hash sign slot v c = Some (r, c') \<and> same_chain c c'"
    by (cases rule: ProduceAttestation_cases [where sign = sign and slot = slot and v = v]) auto
qed

theorem production_terminates_witness:
  "\<exists>r c'. ProduceAttestation ex_hash ex_sign 3 0 ex_store2 = Some (r, c') \<and> same_chain ex_store2 c'"
  using production_terminates [OF ex_store2_inv] by blast

text \<open>
  C23: what a produced attestation says. It names the validator and the slot, the store's head
  with its slot, the latest justified checkpoint as source, and as target a stored block with its
  slot, an ancestor of the head (or the head itself) whose slot is justifiable after the finalized one.
\<close>

theorem ProduceAttestation_sound:
  assumes "fc_inv hash ap c" and "ProduceAttestation hash sign slot v c = Some (Inr sa, c')"
  shows "sa_validator sa = v \<and> ad_slot (sa_message sa) = slot \<and>
    ad_source (sa_message sa) = fc_latest_justified c \<and>
    cp_root (ad_head (sa_message sa)) = fc_head c' \<and>
    (\<exists>hb. GetBlock (fc_storage c) (fc_head c') = Some hb \<and> cp_slot (ad_head (sa_message sa)) = b_slot hb) \<and>
    (\<exists>tb. GetBlock (fc_storage c) (cp_root (ad_target (sa_message sa))) = Some tb \<and>
      cp_slot (ad_target (sa_message sa)) = b_slot tb) \<and>
    IsJustifiableAfter (cp_slot (ad_target (sa_message sa))) (cp_slot (fc_latest_finalized c)) \<and>
    descends (GetBlock (fc_storage c)) (fc_head c') (cp_root (ad_target (sa_message sa)))"
  using assms(1)
proof (cases rule: ProduceAttestation_cases [where sign = sign and slot = slot and v = v])
  case (failed err c1)
  then show ?thesis using assms(2) by simp
next
  case (made sa1 hb t c1)
  have eq: "sa1 = sa" "c1 = c'" using made(1) assms(2) by simp_all
  have same: "fc_storage c' = fc_storage c" "fc_latest_justified c' = fc_latest_justified c"
    "fc_latest_finalized c' = fc_latest_finalized c"
    using made(3) by (simp_all add: same_chain_def eq)
  show ?thesis
    using made(4-7) getVoteTargetLocked_spec [OF made(2)] by (auto simp: eq same)
qed


lemma ex_store2_facts:
  "GetBlock (fc_storage ex_store2) (bytes_of [1, 0, 0]) = Some ex_anchor"
  "fc_head ex_store2 = bytes_of [1, 0, 0]" "fc_safe_target ex_store2 = bytes_of [1, 0, 0]"
  "cp_slot (fc_latest_finalized ex_store2) = 0" "b_slot ex_anchor = 0"
  by (simp_all add: ex_store2_def ex_store_storage ex_store_fields ex_anchor_fields)


theorem ProduceAttestation_sound_witness:
  "\<exists>sa c. ProduceAttestation ex_hash ex_sign 3 0 ex_store2 = Some (Inr sa, c) \<and>
     sa_validator sa = 0 \<and> ad_slot (sa_message sa) = 3"
proof -
  have "(case ProduceAttestation ex_hash ex_sign 3 0 ex_store2 of Some (Inr _, _) \<Rightarrow> True | _ \<Rightarrow> False)" by code_simp
  then obtain sa c where "ProduceAttestation ex_hash ex_sign 3 0 ex_store2 = Some (Inr sa, c)"
    by (auto split: option.splits sum.splits)
  then show ?thesis using ProduceAttestation_sound [OF ex_store2_inv] by blast
qed

text \<open>
  A producer does not process its own block. \<open>ProduceBlock\<close> stores the block itself and
  leaves the head, the votes and the checkpoints of the store as they were before the block; when the
  envelope comes back, \<open>ProcessBlock\<close> finds the block known and changes nothing. So the votes and the
  checkpoints a block carries reach every store but the producer's.
\<close>

theorem own_block_not_processed:
  assumes "fc_inv (env_hash e) ap c" and "ProduceBlock (env_hash e) sign slot v c = Some (Inr envelope, c')"
  shows "Store_ProcessBlock e None envelope c' = Some (None, c') \<and>
    fc_latest_justified c' = fc_latest_justified c \<and> fc_latest_finalized c' = fc_latest_finalized c \<and>
    fc_new c' = [] \<and> fc_head c' = b_parent_root (bwa_block (sb_message envelope))"
  using assms(1)
proof (cases rule: ProduceBlock_cases [where sign = sign and slot = slot and v = v])
  case (failed err c1)
  then show ?thesis using assms(2) by simp
next
  case (made env fs c1)
  let ?r = "block_root (env_hash e) (bwa_block (sb_message envelope))"
  have c': "env = envelope" "c' = c1\<lparr>fc_storage := store_block ?r envelope fs (fc_storage c1)\<rparr>"
    using made(6) assms(2) by auto
  then have "GetBlock (fc_storage c') ?r = Some (bwa_block (sb_message envelope))"
    by (simp add: store_block_lookup)
  then have "Store_ProcessBlock e None envelope c' = Some (None, c')"
    by (simp add: Store_ProcessBlock_def advance_now_def Let_def)
  then show ?thesis using made(1,3,5) by (simp add: c' produced_def Let_def same_chain_def)
qed

theorem own_block_not_processed_witness:
  "\<exists>envelope c. ProduceBlock ex_hash ex_sign 2 2 ex_store2 = Some (Inr envelope, c) \<and>
     Store_ProcessBlock ex_env None envelope c = Some (None, c)"
proof -
  have e: "env_hash ex_env = ex_hash" by (simp add: ex_env_def)
  obtain envelope c where p: "ProduceBlock ex_hash ex_sign 2 2 ex_store2 = Some (Inr envelope, c)"
    using ex_produces by blast
  have "Store_ProcessBlock ex_env None envelope c = Some (None, c)"
    using own_block_not_processed [of ex_env ZeroHash ex_store2 ex_sign 2 2 envelope c] ex_store2_inv p by (simp add: e)
  then show ?thesis using p by blast
qed

end
