(* ===== verification/Aggregation.thy ===== *)
theory Aggregation
  imports ForkChoice
begin

text \<open>
  Aggregated attestations, \<open>chain/forkchoice/aggregation.go\<close>: the participants as a bitlist and their
  signatures concatenated in the order of the validator indices.

  \<open>sort.Slice\<close> is not stable; the model sorts stably. The two agree when no validator occurs twice,
  which the round trip below assumes.
\<close>

subsection \<open>The code\<close>

datatype agg_error =
    NoAttestations
  | SignatureLengthMismatch nat nat
  | DisaggregateFailed agg_error
  | AggHashFailed ssz_error

definition AggregateAttestations :: "SignedAttestation list \<Rightarrow> agg_error + AggregatedAttestation" where
  "AggregateAttestations attestations =
     (if length attestations = 0 then Inl NoAttestations
      else
        let sorted = sort_key sa_validator attestations;
            maxID = sa_validator (sorted ! (length sorted - 1));
            bits = fold (\<lambda>sa bits. SetBit bits (sa_validator sa) True) sorted (MakeBitlist (maxID + 1));
            aggSig = fold (\<lambda>sa aggSig. aggSig @ list_of_bytes (sa_signature sa)) sorted []
        in Inr \<lparr>agg_data = sa_message (sorted ! 0), agg_bits = bits, agg_signature = aggSig\<rparr>)"

definition DisaggregateAttestation :: "AggregatedAttestation \<Rightarrow> agg_error + u64 list \<times> signature list" where
  "DisaggregateAttestation agg =
     (let numBits = BitlistLen (agg_bits agg);
          validatorIDs = filter (GetBit (agg_bits agg)) (map of_nat [0..<numBits]);
          expectedLen = length validatorIDs * XMSSSignatureSize
      in if length (agg_signature agg) \<noteq> expectedLen
         then Inl (SignatureLengthMismatch (length (agg_signature agg)) expectedLen)
         else Inr (validatorIDs,
           map (\<lambda>i. bytes_of (take XMSSSignatureSize (drop (i * XMSSSignatureSize) (agg_signature agg))))
             [0..<length validatorIDs]))"

text \<open>The loop that counts valid signatures.\<close>

fun verify_agg_loop :: "env \<Rightarrow> State \<Rightarrow> AttestationData \<Rightarrow> (u64 \<times> signature) list \<Rightarrow> nat \<Rightarrow> agg_error + nat" where
  "verify_agg_loop e state data [] verified = Inr verified"
| "verify_agg_loop e state data ((valID, sig) # rest) verified =
     (if unat valID \<ge> length (st_validators state) then verify_agg_loop e state data rest verified
      else
        let pubkey = val_pubkey (st_validators state ! unat valID) in
        case Attestation_HashTreeRoot (env_hash e) \<lparr>att_validator = valID, att_data = data\<rparr> of
          (_, Some err) \<Rightarrow> Inl (AggHashFailed err)
        | (messageRoot, None) \<Rightarrow>
            (case Verify (env_cverify e) (list_of_bytes pubkey) (ucast (ad_slot data)) messageRoot (list_of_bytes sig) of
               Some _ \<Rightarrow> verify_agg_loop e state data rest verified
             | None \<Rightarrow> verify_agg_loop e state data rest (verified + 1)))"

text \<open>The count and the error; the count is 0 beside an error.\<close>

definition VerifyAggregatedAttestation :: "env \<Rightarrow> State \<Rightarrow> AggregatedAttestation \<Rightarrow> agg_error + nat" where
  "VerifyAggregatedAttestation e state agg =
     (case DisaggregateAttestation agg of
        Inl err \<Rightarrow> Inl (DisaggregateFailed err)
      | Inr (validatorIDs, sigs) \<Rightarrow> verify_agg_loop e state (agg_data agg) (zip validatorIDs sigs) 0)"

text \<open>The loop that counts votes: an error of the hasher ends it with the votes counted so far.\<close>

fun process_agg_loop :: "env \<Rightarrow> State \<Rightarrow> AttestationData \<Rightarrow> u64 \<Rightarrow> (u64 \<times> signature) list \<Rightarrow> Store \<Rightarrow> Store" where
  "process_agg_loop e headState data currentSlot [] c = c"
| "process_agg_loop e headState data currentSlot ((valID, sig) # rest) c =
     (if unat valID \<ge> length (st_validators headState) then process_agg_loop e headState data currentSlot rest c
      else
        let pubkey = val_pubkey (st_validators headState ! unat valID) in
        case Attestation_HashTreeRoot (env_hash e) \<lparr>att_validator = valID, att_data = data\<rparr> of
          (_, Some _) \<Rightarrow> c
        | (messageRoot, None) \<Rightarrow>
            if Verify (env_cverify e) (list_of_bytes pubkey) (ucast (ad_slot data)) messageRoot (list_of_bytes sig) \<noteq> None
            then process_agg_loop e headState data currentSlot rest c
            else if ad_slot data > currentSlot then process_agg_loop e headState data currentSlot rest c
            else
              let sa = \<lparr>sa_validator = valID, sa_message = data, sa_signature = sig\<rparr> in
              process_agg_loop e headState data currentSlot rest
                (case map_of (fc_new c) valID of
                   None \<Rightarrow> c\<lparr>fc_new := AList.update valID sa (fc_new c)\<rparr>
                 | Some existing \<Rightarrow>
                     if ad_slot (sa_message existing) < ad_slot data
                     then c\<lparr>fc_new := AList.update valID sa (fc_new c)\<rparr> else c))"

definition ProcessAggregatedAttestation :: "env \<Rightarrow> u64 option \<Rightarrow> AggregatedAttestation \<Rightarrow> Store \<Rightarrow> Store option" where
  "ProcessAggregatedAttestation e now agg c0 =
     Option.bind (advance_now now c0) (\<lambda>c.
     if validateAttestationData c (agg_data agg) \<noteq> None then Some c
     else case GetState (fc_storage c) (fc_head c) of
            None \<Rightarrow> Some c
          | Some headState \<Rightarrow>
              (case DisaggregateAttestation agg of
                 Inl _ \<Rightarrow> Some c
               | Inr (validatorIDs, sigs) \<Rightarrow>
                   Some (process_agg_loop e headState (agg_data agg) (fc_time c div IntervalsPerSlot)
                     (zip validatorIDs sigs) c)))"

subsection \<open>The participants\<close>

lemma fold_SetBit:
  assumes "bitlist_wf bl" and "\<forall>sa \<in> set sas. unat (sa_validator sa) < BitlistLen bl"
  shows "bitlist_wf (fold (\<lambda>sa bits. SetBit bits (sa_validator sa) True) sas bl) \<and>
    BitlistLen (fold (\<lambda>sa bits. SetBit bits (sa_validator sa) True) sas bl) = BitlistLen bl \<and>
    (\<forall>i < BitlistLen bl. bit_at (fold (\<lambda>sa bits. SetBit bits (sa_validator sa) True) sas bl) i \<longleftrightarrow>
      bit_at bl i \<or> i \<in> (unat \<circ> sa_validator) ` set sas)"
  using assms
proof (induction sas arbitrary: bl)
  case (Cons sa sas)
  let ?bl = "SetBit bl (sa_validator sa) True"
  have idx: "unat (sa_validator sa) < BitlistLen bl" using Cons.prems(2) by simp
  note set = SetBit_data [OF Cons.prems(1) idx, of True]
  have "bit_at ?bl i \<longleftrightarrow> bit_at bl i \<or> i = unat (sa_validator sa)" if "i < BitlistLen bl" for i
    using arg_cong [OF set(3), of "\<lambda>bs. bs ! i"] that set(2) idx
    by (cases "i = unat (sa_validator sa)") auto
  then show ?case using Cons.IH [of ?bl] Cons.prems(2) set(1,2) by auto
qed simp

lemma fold_append_signatures:
  "fold (\<lambda>sa acc. acc @ list_of_bytes (sa_signature sa)) sas acc = acc @ concat (map (list_of_bytes \<circ> sa_signature) sas)"
  by (induction sas arbitrary: acc) auto

lemma concat_chunk:
  assumes "\<forall>xs \<in> set xss. length xs = n" and "i < length xss"
  shows "take n (drop (i * n) (concat xss)) = xss ! i"
  using assms
proof (induction xss arbitrary: i)
  case (Cons xs xss)
  then show ?case by (cases i) auto
qed simp

lemma sorted_validators_max:
  assumes "sas \<noteq> []" and "sa \<in> set sas"
  shows "sa_validator sa \<le> sa_validator (sort_key sa_validator sas ! (length sas - 1))"
proof -
  let ?s = "sort_key sa_validator sas"
  obtain i where i: "i < length sas" "?s ! i = sa"
    using assms(2) by (metis in_set_conv_nth length_sort set_sort)
  have "map sa_validator ?s ! i \<le> map sa_validator ?s ! (length sas - 1)"
    using i assms(1) by (intro sorted_nth_mono) auto
  then show ?thesis using i assms(1) by simp
qed

text \<open>The participants read back from the bitlist: the validators in ascending order.\<close>

lemma aggregated_bits:
  assumes "sas \<noteq> []" and "distinct (map sa_validator sas)" and bound: "\<forall>sa \<in> set sas. unat (sa_validator sa) < 2 ^ 63"
    and s: "s = sort_key sa_validator sas"
    and bits: "bits = fold (\<lambda>sa bits. SetBit bits (sa_validator sa) True) s
      (MakeBitlist (sa_validator (s ! (length s - 1)) + 1))"
  shows "filter (GetBit bits) (map of_nat [0..<BitlistLen bits]) = map sa_validator s"
proof -
  define mx where "mx = sa_validator (s ! (length s - 1))"
  have bits': "bits = fold (\<lambda>sa bits. SetBit bits (sa_validator sa) True) s (MakeBitlist (mx + 1))"
    by (simp add: bits mx_def)
  have len: "length s = length sas" and set: "set s = set sas" by (simp_all add: s)
  then have "s ! (length s - 1) \<in> set sas" using assms(1) by (metis diff_less length_greater_0_conv less_one nth_mem)
  then have max: "unat (mx + 1) = unat mx + 1" "unat mx < 2 ^ 63"
    using bound by (auto simp: unat_plus_if' mx_def)
  note mk = MakeBitlist_bits [of "mx + 1"]
  have mk_len: "BitlistLen (MakeBitlist (mx + 1)) = unat mx + 1"
    using arg_cong [OF mk(2), of length] max by simp
  have le: "\<forall>sa \<in> set s. unat (sa_validator sa) < unat mx + 1"
    using sorted_validators_max [OF assms(1)] by (auto simp: set mx_def s [symmetric] len word_le_nat_alt less_Suc_eq_le)
  have mk_bit: "\<not> bit_at (MakeBitlist (mx + 1)) i" if "i < unat mx + 1" for i
    using arg_cong [OF mk(2), of "\<lambda>bs. bs ! i"] max that mk_len by (simp del: replicate.simps)
  have wf: "bitlist_wf (MakeBitlist (mx + 1))" using mk(1) max by simp
  have b: "BitlistLen bits = unat mx + 1"
    "\<And>i. i < unat mx + 1 \<Longrightarrow> bit_at bits i \<longleftrightarrow> i \<in> (unat \<circ> sa_validator) ` set s"
    using fold_SetBit [OF wf, of s, unfolded mk_len] le mk_bit by (simp_all add: bits' mk_len)
  let ?ids = "filter (GetBit bits) (map of_nat [0..<BitlistLen bits])"
  have small: "unat (of_nat i :: u64) = i" if "i < BitlistLen bits" for i
    using that b(1) max(2) by simp
  have "sorted (map of_nat [0..<BitlistLen bits] :: u64 list) \<and> distinct (map of_nat [0..<BitlistLen bits] :: u64 list)"
    using small by (auto simp: sorted_iff_nth_mono word_le_nat_alt distinct_map intro!: inj_onI) (metis)
  then have ids: "sorted ?ids" "distinct ?ids" by (auto intro: sorted_wrt_filter)
  have "set ?ids = sa_validator ` set s"
  proof (intro set_eqI iffI)
    fix v assume "v \<in> set ?ids"
    then obtain i where "i < BitlistLen bits" "v = of_nat i" "bit_at bits i" by (auto simp: GetBit_bit_at small)
    then show "v \<in> sa_validator ` set s" using b by fastforce
  next
    fix v assume "v \<in> sa_validator ` set s"
    then have "unat v < BitlistLen bits" "bit_at bits (unat v)" using le b by auto
    then show "v \<in> set ?ids" by (auto simp: GetBit_bit_at image_iff intro!: bexI [of _ "unat v"])
  qed
  moreover have "sorted (map sa_validator s)" "distinct (map sa_validator s)"
    using assms(2) by (auto simp: s distinct_map sorted_sort_key)
  ultimately show ?thesis using ids sorted_distinct_set_unique by (metis set_map)
qed

subsection \<open>Theorems\<close>

text \<open>
  C27: aggregation loses nothing. For attestations of distinct validators, disaggregating the
  aggregate gives the validators in ascending order, each with its own signature.
\<close>

theorem aggregate_roundtrip:
  assumes "sas \<noteq> []" and "distinct (map sa_validator sas)" and "\<forall>sa \<in> set sas. unat (sa_validator sa) < 2 ^ 63"
  shows "\<exists>agg. AggregateAttestations sas = Inr agg \<and>
    DisaggregateAttestation agg =
      Inr (map sa_validator (sort_key sa_validator sas), map sa_signature (sort_key sa_validator sas))"
proof -
  let ?s = "sort_key sa_validator sas"
  let ?bits = "fold (\<lambda>sa bits. SetBit bits (sa_validator sa) True) ?s (MakeBitlist (sa_validator (?s ! (length ?s - 1)) + 1))"
  let ?sig = "concat (map (list_of_bytes \<circ> sa_signature) ?s)"
  let ?agg = "\<lparr>agg_data = sa_message (?s ! 0), agg_bits = ?bits, agg_signature = ?sig\<rparr>"
  have agg: "AggregateAttestations sas = Inr ?agg"
    using assms(1) by (simp add: AggregateAttestations_def Let_def fold_append_signatures)
  have ids: "filter (GetBit ?bits) (map of_nat [0..<BitlistLen ?bits]) = map sa_validator ?s"
    using aggregated_bits [OF assms refl refl] .
  have chunks: "\<forall>xs \<in> set (map (list_of_bytes \<circ> sa_signature) ?s). length xs = 3112" by simp
  have len: "length ?sig = length ?s * 3112" using length_concat_equal [OF chunks] by simp
  have "map (\<lambda>i. bytes_of (take 3112 (drop (i * 3112) ?sig))) [0..<length ?s] = map sa_signature ?s"
  proof (rule nth_equalityI)
    fix i assume "i < length (map (\<lambda>i. bytes_of (take 3112 (drop (i * 3112) ?sig)) :: signature) [0..<length ?s])"
    then have "i < length ?s" by simp
    then show "map (\<lambda>i. bytes_of (take 3112 (drop (i * 3112) ?sig))) [0..<length ?s] ! i = map sa_signature ?s ! i"
      using concat_chunk [OF chunks, of i] by simp
  qed simp
  then have "DisaggregateAttestation ?agg = Inr (map sa_validator ?s, map sa_signature ?s)"
    unfolding DisaggregateAttestation_def Let_def XMSSSignatureSize_def AggregatedAttestation.simps ids
    by (simp add: len)
  then show ?thesis using agg by blast
qed

theorem aggregate_roundtrip_witness:
  "\<exists>agg. AggregateAttestations [ex_sa 2 3, ex_sa 0 3] = Inr agg \<and>
     DisaggregateAttestation agg = Inr ([0, 2], [bytes_of [], bytes_of []])"
proof -
  have "sort_key sa_validator [ex_sa 2 3, ex_sa 0 3] = [ex_sa 0 3, ex_sa 2 3]" by (simp add: ex_sa_def)
  then show ?thesis
    using aggregate_roundtrip [of "[ex_sa 2 3, ex_sa 0 3]"] by (simp add: ex_sa_def)
qed

text \<open>
  An aggregate carries only the data of its first vote. Attestations of the same slot for
  different heads are aggregated without complaint, so signatures in the aggregate need not belong to
  the data it carries.
\<close>

theorem aggregate_mixes_data:
  "\<exists>sa sb agg. sa_validator sa \<noteq> sa_validator sb \<and> ad_slot (sa_message sa) = ad_slot (sa_message sb) \<and>
     sa_message sa \<noteq> sa_message sb \<and> AggregateAttestations [sa, sb] = Inr agg \<and>
     agg_data agg = sa_message sa \<and> GetBit (agg_bits agg) (sa_validator sb)"
proof -
  let ?sa = "ex_head_vote 0 3" and ?sb = "ex_head_vote 1 4"
  have s: "sort_key sa_validator [?sa, ?sb] = [?sa, ?sb]" by (simp add: ex_head_vote_def Let_def)
  have "ex_hash_of 3 \<noteq> ex_hash_of 4" by code_simp
  then have d: "sa_message ?sa \<noteq> sa_message ?sb" by (simp add: ex_head_vote_def Let_def)
  have "GetBit (SetBit (SetBit (MakeBitlist 2) 0 True) 1 True) 1" by code_simp
  then show ?thesis
    using s d
    by (intro exI [of _ ?sa] exI [of _ ?sb]) (simp add: AggregateAttestations_def Let_def ex_head_vote_def)
qed

lemma process_agg_loop_frame:
  assumes "fc_inv hash ap c"
  shows "fc_inv hash ap (process_agg_loop e hs data cur vs c) \<and> same_chain c (process_agg_loop e hs data cur vs c)"
  using assms
proof (induction e hs data cur vs c rule: process_agg_loop.induct)
  case (2 e hs data cur v sig rest c)
  show ?case
    using 2 by (auto simp: Let_def fc_inv_def same_chain_def split: prod.split option.split)
qed simp

lemma ProcessAggregatedAttestation_inv:
  assumes "fc_inv hash ap c" and "ProcessAggregatedAttestation e now agg c = Some c'"
  shows "fc_inv hash ap c' \<and> same_chain c c'"
proof -
  obtain c1 where c1: "advance_now now c = Some c1" "fc_inv hash ap c1" "same_chain c c1"
    by (rule advance_now_inv [OF assms(1)])
  have "c' = c1 \<or> (\<exists>hs data cur vs. c' = process_agg_loop e hs data cur vs c1)"
    using assms(2) c1(1) by (auto simp: ProcessAggregatedAttestation_def split: if_splits option.splits sum.splits)
  then show ?thesis using c1 process_agg_loop_frame [OF c1(2)] same_chain_trans by blast
qed

text \<open>When the vote of \<open>v\<close> in the loop's store is replaced.\<close>

definition agg_vote_checked :: "env \<Rightarrow> State \<Rightarrow> AttestationData \<Rightarrow> u64 \<Rightarrow> u64 \<Rightarrow> signature \<Rightarrow> bool" where
  "agg_vote_checked e hs data cur v sig \<longleftrightarrow>
     unat v < length (st_validators hs) \<and> ad_slot data \<le> cur \<and>
     (\<exists>rt. Attestation_HashTreeRoot (env_hash e) \<lparr>att_validator = v, att_data = data\<rparr> = (rt, None) \<and>
       Verify (env_cverify e) (list_of_bytes (val_pubkey (st_validators hs ! unat v))) (ucast (ad_slot data)) rt
         (list_of_bytes sig) = None)"

definition agg_vote_taken :: "env \<Rightarrow> State \<Rightarrow> AttestationData \<Rightarrow> u64 \<Rightarrow> u64 \<Rightarrow> Store \<Rightarrow> Store \<Rightarrow> bool" where
  "agg_vote_taken e hs data cur v c c' \<longleftrightarrow>
     (\<exists>sig. map_of (fc_new c') v = Some \<lparr>sa_validator = v, sa_message = data, sa_signature = sig\<rparr> \<and>
       agg_vote_checked e hs data cur v sig) \<and>
     (case map_of (fc_new c) v of None \<Rightarrow> True | Some old \<Rightarrow> ad_slot (sa_message old) < ad_slot data)"

text \<open>One participant: the vote of \<open>v\<close> is as before or taken from the aggregate.\<close>

lemma agg_vote_taken_trans:
  assumes "map_of (fc_new c1) v = map_of (fc_new c) v \<or> agg_vote_taken e hs data cur v c c1"
    and "map_of (fc_new c2) v = map_of (fc_new c1) v \<or> agg_vote_taken e hs data cur v c1 c2"
  shows "map_of (fc_new c2) v = map_of (fc_new c) v \<or> agg_vote_taken e hs data cur v c c2"
  using assms by (auto simp: agg_vote_taken_def)

lemma process_agg_loop_taken:
  "map_of (fc_new (process_agg_loop e hs data cur vs c)) v = map_of (fc_new c) v \<or>
     agg_vote_taken e hs data cur v c (process_agg_loop e hs data cur vs c)"
proof (induction vs arbitrary: c)
  case (Cons x rest)
  obtain valID sig where x: "x = (valID, sig)" by force
  obtain rt err where hash: "Attestation_HashTreeRoot (env_hash e) \<lparr>att_validator = valID, att_data = data\<rparr> = (rt, err)" by force
  let ?sa = "\<lparr>sa_validator = valID, sa_message = data, sa_signature = sig\<rparr>"
  let ?c1 = "case map_of (fc_new c) valID of None \<Rightarrow> c\<lparr>fc_new := AList.update valID ?sa (fc_new c)\<rparr>
    | Some existing \<Rightarrow> if ad_slot (sa_message existing) < ad_slot data
        then c\<lparr>fc_new := AList.update valID ?sa (fc_new c)\<rparr> else c"
  show ?case
  proof (cases "err = None \<and> agg_vote_checked e hs data cur valID sig")
    case True
    then have eq: "process_agg_loop e hs data cur (x # rest) c = process_agg_loop e hs data cur rest ?c1"
      using hash by (auto simp: x agg_vote_checked_def Let_def)
    have "map_of (fc_new ?c1) v = map_of (fc_new c) v \<or> agg_vote_taken e hs data cur v c ?c1"
      using True by (auto simp: agg_vote_taken_def split: option.split)
    then show ?thesis unfolding eq using Cons by (rule agg_vote_taken_trans)
  next
    case False
    then have "process_agg_loop e hs data cur (x # rest) c \<in> {c, process_agg_loop e hs data cur rest c}"
      using hash by (auto simp: x agg_vote_checked_def Let_def split: option.split)
    then show ?thesis using Cons [of c] by auto
  qed
qed simp

text \<open>
  Handling an aggregate always ends and keeps the store's invariant, blocks and
  checkpoints. After the clock has advanced, a pending vote changes only to a vote for the
  aggregate's data, when that data is valid, not from the future and newer than the vote it replaces,
  and the validator's signature verifies under the head state.
\<close>

theorem aggregated_vote_sound:
  assumes "fc_inv (env_hash e) ap c"
  shows "\<exists>c1 c'. advance_now now c = Some c1 \<and> ProcessAggregatedAttestation e now agg c = Some c' \<and>
    fc_inv (env_hash e) ap c' \<and> same_chain c c' \<and>
    (\<forall>v. map_of (fc_new c') v = map_of (fc_new c1) v \<or>
      validateAttestationData c1 (agg_data agg) = None \<and>
      (\<exists>hs. GetState (fc_storage c1) (fc_head c1) = Some hs \<and>
        agg_vote_taken e hs (agg_data agg) (fc_time c1 div IntervalsPerSlot) v c1 c'))"
proof -
  obtain c1 where c1: "advance_now now c = Some c1" "fc_inv (env_hash e) ap c1" "same_chain c c1"
    by (rule advance_now_inv [OF assms])
  note unfold = ProcessAggregatedAttestation_def [of e now agg c]
  show ?thesis
  proof (cases "\<exists>hs vs. validateAttestationData c1 (agg_data agg) = None \<and>
      GetState (fc_storage c1) (fc_head c1) = Some hs \<and> DisaggregateAttestation agg = Inr vs")
    case True
    then obtain hs ids sigs where ok: "validateAttestationData c1 (agg_data agg) = None"
      "GetState (fc_storage c1) (fc_head c1) = Some hs" "DisaggregateAttestation agg = Inr (ids, sigs)" by auto
    let ?c' = "process_agg_loop e hs (agg_data agg) (fc_time c1 div IntervalsPerSlot) (zip ids sigs) c1"
    have "ProcessAggregatedAttestation e now agg c = Some ?c'" by (simp add: unfold c1(1) ok)
    then show ?thesis
      using c1 ok process_agg_loop_frame [OF c1(2)] process_agg_loop_taken same_chain_trans by blast
  next
    case False
    then have "ProcessAggregatedAttestation e now agg c = Some c1"
      by (auto simp: unfold c1(1) split: option.split sum.split)
    then show ?thesis using c1 by blast
  qed
qed

theorem aggregated_vote_sound_witness:
  "\<exists>c'. ProcessAggregatedAttestation ex_env (Some 1024)
     \<lparr>agg_data = sa_message (ex_sa 1 1), agg_bits = [6], agg_signature = replicate 3112 0\<rparr> ex_store = Some c' \<and>
     same_chain ex_store c'"
  using aggregated_vote_sound [OF ex_store_inv] by blast

end
