(* ===== verification/Machine.thy ===== *)
theory Machine
  imports Produce Aggregation
begin

text \<open>
  The fork choice store as a state machine. A step is one call of an exported method; since every
  method holds the mutex from beginning to end, any interleaving of goroutines is a sequence of such
  steps. The machine is an instance of the interface of growing systems: along every run the
  invariant holds, checkpoints do not move back and blocks are not lost.

  The steps for blocks exclude collisions of the hasher: a processed block does not hash to the root
  below the anchor (\<open>ap\<close>), and a produced block does not hash to the root of another stored block.
\<close>

inductive fc_step :: "env \<Rightarrow> root \<Rightarrow> Store \<Rightarrow> Store \<Rightarrow> bool" for e ap where
  tick: "tickIntervalLocked hasProposal c = Some c' \<Longrightarrow> fc_step e ap c c'"
| advance: "advanceTimeLocked t hasProposal c = Some c' \<Longrightarrow> fc_step e ap c c'"
| accept_votes: "acceptNewAttestationsLocked c = Some c' \<Longrightarrow> fc_step e ap c c'"
| safe_target: "updateSafeTargetLocked c = Some c' \<Longrightarrow> fc_step e ap c c'"
| attestation: "ProcessAttestation e now sa c = Some c' \<Longrightarrow> fc_step e ap c c'"
| aggregate: "ProcessAggregatedAttestation e now agg c = Some c' \<Longrightarrow> fc_step e ap c c'"
| process_block: "Store_ProcessBlock e now envelope c = Some (err, c') \<Longrightarrow>
    block_root (env_hash e) (bwa_block (sb_message envelope)) \<noteq> ap \<Longrightarrow> fc_step e ap c c'"
| proposal_head: "GetProposalHead slot c = Some (r, c') \<Longrightarrow> fc_step e ap c c'"
| produce_attestation: "ProduceAttestation (env_hash e) sign slot v c = Some (a, c') \<Longrightarrow> fc_step e ap c c'"
| produce_failed: "ProduceBlock (env_hash e) sign slot v c = Some (Inl err, c') \<Longrightarrow> fc_step e ap c c'"
| produce_block: "ProduceBlock (env_hash e) sign slot v c = Some (Inr envelope, c') \<Longrightarrow>
    block_root (env_hash e) (bwa_block (sb_message envelope)) \<noteq> ap \<Longrightarrow>
    GetBlock (fc_storage c) (block_root (env_hash e) (bwa_block (sb_message envelope))) \<in>
      {None, Some (bwa_block (sb_message envelope))} \<Longrightarrow> fc_step e ap c c'"

text \<open>A new store on an empty storage, from an anchor block and its state.\<close>

definition fc_init :: "hasher \<Rightarrow> root \<Rightarrow> Store \<Rightarrow> bool" where
  "fc_init hash ap c \<longleftrightarrow>
     (\<exists>s b. NewStore hash s b New = Some c \<and> st_slot s = b_slot b \<and> b_parent_root b = ap \<and> block_root hash b \<noteq> ap)"

lemma GetProposalHead_inv:
  assumes "fc_inv hash ap c" and "GetProposalHead slot c = Some (r, c')"
  shows "fc_inv hash ap c' \<and> same_chain c c'"
proof -
  obtain c1 where c1: "advanceTimeLocked (fc_genesis_time c + slot * SecondsPerSlot) True c = Some c1"
    "fc_inv hash ap c1" "same_chain c c1" by (rule advanceTimeLocked_inv [OF assms(1)])
  obtain c2 where "acceptNewAttestationsLocked c1 = Some c2" "fc_inv hash ap c2" "same_chain c1 c2"
    by (rule acceptNewAttestationsLocked_inv [OF c1(2)])
  then show ?thesis
    using assms(2) c1 same_chain_trans by (auto simp: GetProposalHead_def Let_def)
qed

lemma ProcessAttestation_inv:
  assumes "fc_inv hash ap c" and "ProcessAttestation e now sa c = Some c'"
  shows "fc_inv hash ap c' \<and> same_chain c c'"
proof -
  obtain c1 where "advance_now now c = Some c1" "fc_inv hash ap c1" "same_chain c c1"
    by (rule advance_now_inv [OF assms(1)])
  then show ?thesis
    using assms(2) by (auto simp: ProcessAttestation_def processAttestationLocked_inv same_chain_def)
qed

lemma fc_step_inv:
  assumes "fc_step e ap c c'" and inv: "fc_inv (env_hash e) ap c"
  shows "fc_inv (env_hash e) ap c' \<and> fc_grows c c'"
  using assms(1)
proof cases
  case (tick hasProposal)
  obtain c1 where "tickIntervalLocked hasProposal c = Some c1" "fc_inv (env_hash e) ap c1" "same_chain c c1"
    by (rule tickIntervalLocked_inv [OF inv])
  then show ?thesis using tick same_chain_grows by auto
next
  case (advance t hasProposal)
  obtain c1 where "advanceTimeLocked t hasProposal c = Some c1" "fc_inv (env_hash e) ap c1" "same_chain c c1"
    by (rule advanceTimeLocked_inv [OF inv])
  then show ?thesis using advance same_chain_grows by auto
next
  case accept_votes
  obtain c1 where "acceptNewAttestationsLocked c = Some c1" "fc_inv (env_hash e) ap c1" "same_chain c c1"
    by (rule acceptNewAttestationsLocked_inv [OF inv])
  then show ?thesis using accept_votes same_chain_grows by auto
next
  case safe_target
  obtain h where "updateSafeTargetLocked c = Some (c\<lparr>fc_safe_target := h\<rparr>)"
    by (rule updateSafeTargetLocked_total [OF inv])
  then show ?thesis using safe_target inv by (auto simp: fc_inv_def fc_grows_def)
next
  case (attestation now sa)
  then show ?thesis using ProcessAttestation_inv [OF inv] same_chain_grows by blast
next
  case (aggregate now agg)
  then show ?thesis using ProcessAggregatedAttestation_inv [OF inv] same_chain_grows by blast
next
  case (process_block now envelope err)
  obtain err' c1 where "Store_ProcessBlock e now envelope c = Some (err', c1)" "fc_inv (env_hash e) ap c1" "fc_grows c c1"
    by (rule Store_ProcessBlock_inv [OF inv process_block(2)])
  then show ?thesis using process_block by auto
next
  case (proposal_head slot r)
  then show ?thesis using GetProposalHead_inv [OF inv] same_chain_grows by blast
next
  case (produce_attestation sign slot v a)
  from inv show ?thesis
    by (cases rule: ProduceAttestation_cases [where sign = sign and slot = slot and v = v])
      (use produce_attestation same_chain_grows in auto)
next
  case (produce_failed sign slot v err)
  show ?thesis by (intro conjI ProduceBlock_inv [OF inv produce_failed]) simp_all
next
  case (produce_block sign slot v envelope)
  show ?thesis
    by (intro conjI ProduceBlock_inv [OF inv produce_block(1)]) (use produce_block(2,3) in auto)
qed

interpretation fork_choice: growing_system "fc_init (env_hash e) ap" "fc_step e ap" "fc_inv (env_hash e) ap" fc_grows
  for e ap
proof unfold_locales
  show "fc_init (env_hash e) ap c \<Longrightarrow> fc_inv (env_hash e) ap c" for c
    by (auto simp: fc_init_def intro: NewStore_inv)
  show "fc_inv (env_hash e) ap c \<Longrightarrow> fc_step e ap c c' \<Longrightarrow> fc_inv (env_hash e) ap c'" for c c'
    using fc_step_inv by blast
  show "fc_grows c c" for c by (simp add: fc_grows_def)
  show "fc_grows c c' \<Longrightarrow> fc_grows c' c'' \<Longrightarrow> fc_grows c c''" for c c' c'' by (rule fc_grows_trans)
  show "fc_inv (env_hash e) ap c \<Longrightarrow> fc_step e ap c c' \<Longrightarrow> fc_grows c c'" for c c'
    using fc_step_inv by blast
qed

text \<open>
  C4: along every run of the store, whatever the order of its operations. From a new store,
  any sequence of ticks, votes, aggregates, blocks and productions keeps the invariant (every stored
  block has its post state and a stored parent with a smaller slot, or is the anchor); between any two
  points of the run the justified and finalized slots do not decrease and no stored block is lost;
  and at every point the searches for the head and for the safe target end.
\<close>

theorem fork_choice_run:
  assumes "fc_init (env_hash e) ap c0" and "(fc_step e ap)\<^sup>*\<^sup>* c0 c" and "(fc_step e ap)\<^sup>*\<^sup>* c c'"
  shows "fc_inv (env_hash e) ap c' \<and> fc_grows c c' \<and>
    (\<exists>h. updateHeadLocked c' = Some (c'\<lparr>fc_head := h\<rparr>)) \<and>
    (\<exists>h. updateSafeTargetLocked c' = Some (c'\<lparr>fc_safe_target := h\<rparr>))"
proof -
  have inv: "fc_inv (env_hash e) ap c" using assms(1,2) by (rule fork_choice.inv_reachable)
  then have inv': "fc_inv (env_hash e) ap c'" using assms(3) fork_choice.inv_run by blast
  moreover have "fc_grows c c'" using assms(3) inv by (rule fork_choice.le_run)
  ultimately show ?thesis using updateHeadLocked_total [OF inv'] updateSafeTargetLocked_total [OF inv'] by metis
qed

theorem fork_choice_run_witness:
  "\<exists>c c'. fc_step ex_env ZeroHash ex_store c \<and> fc_step ex_env ZeroHash c c' \<and> fc_inv (env_hash ex_env) ZeroHash c' \<and>
     fc_grows ex_store c'"
proof -
  have root: "block_root (env_hash ex_env) (bwa_block (sb_message ex_envelope)) \<noteq> ZeroHash"
    by (simp add: ex_envelope_root ex_roots_differ)
  have init: "fc_init (env_hash ex_env) ZeroHash ex_store"
    using ex_store_new ex_anchor_fields ex_genesis_fields ex_roots_differ
    by (auto simp: fc_init_def ex_env_def intro!: exI [of _ ex_genesis] exI [of _ ex_anchor])
  obtain err c where c: "Store_ProcessBlock ex_env None ex_envelope ex_store = Some (err, c)" "fc_inv (env_hash ex_env) ZeroHash c"
    by (rule Store_ProcessBlock_inv [OF ex_store_inv root])
  obtain c' where c': "tickIntervalLocked False c = Some c'" by (rule tickIntervalLocked_inv [OF c(2)])
  have steps: "fc_step ex_env ZeroHash ex_store c" "fc_step ex_env ZeroHash c c'"
    using fc_step.process_block [OF c(1) root] fc_step.tick [OF c'] by simp_all
  then have "(fc_step ex_env ZeroHash)\<^sup>*\<^sup>* ex_store c'" by simp
  then show ?thesis using fork_choice_run [OF init rtranclp.rtrancl_refl] steps by blast
qed

end
