(* ===== verification/Agreement.thy ===== *)
theory Agreement
  imports Machine
begin

text \<open>
  What several nodes can rely on. The store of \<open>chain/forkchoice\<close> is a replica: nodes that start
  from the same anchor and exchange blocks and votes hold the same states for the same blocks, count
  only votes that their validators signed, and accept each other's blocks.

  The argument is an invariant of the state machine of \<open>Machine\<close>: every stored state is the result
  of replaying the stored blocks from the anchor, so all have the validators of the anchor state, and
  every recorded vote is linked to stored blocks and carries a signature under these validators' keys.
\<close>

subsection \<open>Votes\<close>

definition vote_signed :: "env \<Rightarrow> Validator list \<Rightarrow> Attestation \<Rightarrow> signature \<Rightarrow> bool" where
  "vote_signed e vs att sig \<longleftrightarrow>
     unat (att_validator att) < length vs \<and>
     (\<exists>rt. Attestation_HashTreeRoot (env_hash e) att = (rt, None) \<and>
       Verify (env_cverify e) (list_of_bytes (val_pubkey (vs ! unat (att_validator att))))
         (ucast (ad_slot (att_data att))) rt (list_of_bytes sig) = None)"

lemma verifyAttestationSignatureWithState_iff:
  "verifyAttestationSignatureWithState e s att sig = None \<longleftrightarrow> vote_signed e (st_validators s) att sig"
  by (auto simp: verifyAttestationSignatureWithState_def vote_signed_def Let_def split: prod.splits option.splits)

text \<open>The blocks a vote names are known, with the slots it gives, and its source is not after its target.\<close>

definition vote_linked :: "MemoryStore \<Rightarrow> AttestationData \<Rightarrow> bool" where
  "vote_linked m data \<longleftrightarrow>
     (\<exists>sb tb. GetBlock m (cp_root (ad_source data)) = Some sb \<and> b_slot sb = cp_slot (ad_source data) \<and>
       GetBlock m (cp_root (ad_target data)) = Some tb \<and> b_slot tb = cp_slot (ad_target data) \<and>
       b_slot sb \<le> b_slot tb \<and> GetBlock m (cp_root (ad_head data)) \<noteq> None)"

lemma validateAttestationData_linked:
  "validateAttestationData c data = None \<Longrightarrow> vote_linked (fc_storage c) data"
  by (auto simp: validateAttestationData_def vote_linked_def Let_def not_less split: option.splits if_splits)

text \<open>A vote recorded for \<open>v\<close> is a vote of \<open>v\<close>, linked and, when verification is on, signed.\<close>

definition vote_ok :: "env \<Rightarrow> Validator list \<Rightarrow> MemoryStore \<Rightarrow> u64 \<Rightarrow> SignedAttestation \<Rightarrow> bool" where
  "vote_ok e vs m v sa \<longleftrightarrow>
     sa_validator sa = v \<and> vote_linked m (sa_message sa) \<and>
     (env_verify_signatures e \<longrightarrow> vote_signed e vs (attestation_of sa) (sa_signature sa))"

definition votes_ok :: "env \<Rightarrow> Validator list \<Rightarrow> Store \<Rightarrow> bool" where
  "votes_ok e vs c \<longleftrightarrow>
     (\<forall>v sa. (v, sa) \<in> set (fc_known c) \<union> set (fc_new c) \<longrightarrow> vote_ok e vs (fc_storage c) v sa)"

lemma votes_okI:
  assumes "votes_ok e vs c" and "fc_storage c' = fc_storage c"
    and "\<And>v sa. (v, sa) \<in> set (fc_known c') \<union> set (fc_new c') \<Longrightarrow>
      (v, sa) \<in> set (fc_known c) \<union> set (fc_new c) \<or> vote_ok e vs (fc_storage c) v sa"
  shows "votes_ok e vs c'"
  using assms by (auto simp: votes_ok_def)

lemma vote_linked_mono:
  "vote_linked m data \<Longrightarrow> (\<And>r b. GetBlock m r = Some b \<Longrightarrow> GetBlock m' r = Some b) \<Longrightarrow> vote_linked m' data"
  unfolding vote_linked_def by (metis not_None_eq)

lemma votes_ok_grow:
  assumes "votes_ok e vs c" and "\<And>r b. GetBlock (fc_storage c) r = Some b \<Longrightarrow> GetBlock (fc_storage c') r = Some b"
    and "fc_known c' = fc_known c" and "fc_new c' = fc_new c"
  shows "votes_ok e vs c'"
  using assms(1,3,4) vote_linked_mono [OF _ assms(2)] by (fastforce simp: votes_ok_def vote_ok_def)

subsection \<open>The clock keeps the votes\<close>

lemma set_update_subset: "set (AList.update k v xs) \<subseteq> insert (k, v) (set xs)"
  by (induction xs) auto

lemma set_fold_update: "set (fold (\<lambda>(k, v) m. AList.update k v m) xs m) \<subseteq> set xs \<union> set m"
proof (induction xs arbitrary: m)
  case (Cons x xs)
  then show ?case using set_update_subset [of "fst x" "snd x" m] by (fastforce simp: case_prod_beta)
qed simp

lemma updateHeadLocked_votes: "updateHeadLocked c = Some c' \<Longrightarrow> votes_ok e vs c \<Longrightarrow> votes_ok e vs c'"
  by (auto simp: updateHeadLocked_def votes_ok_def)

lemma updateSafeTargetLocked_votes: "updateSafeTargetLocked c = Some c' \<Longrightarrow> votes_ok e vs c \<Longrightarrow> votes_ok e vs c'"
  by (auto simp: updateSafeTargetLocked_def votes_ok_def Let_def)

lemma acceptNewAttestationsLocked_votes:
  assumes "acceptNewAttestationsLocked c = Some c'" and "votes_ok e vs c"
  shows "votes_ok e vs c'"
proof (rule updateHeadLocked_votes [OF assms(1) [unfolded acceptNewAttestationsLocked_def]])
  show "votes_ok e vs (c\<lparr>fc_known := fold (\<lambda>(id, sa) m. AList.update id sa m) (fc_new c) (fc_known c), fc_new := []\<rparr>)"
    using set_fold_update [of "fc_new c" "fc_known c"] by (intro votes_okI [OF assms(2)]) auto
qed

lemma tickIntervalLocked_votes:
  assumes "tickIntervalLocked hasProposal c = Some c'" and "votes_ok e vs c"
  shows "votes_ok e vs c'"
proof -
  have "votes_ok e vs (c\<lparr>fc_time := fc_time c + 1\<rparr>)" using assms(2) by (simp add: votes_ok_def)
  then show ?thesis
    using assms(1) acceptNewAttestationsLocked_votes updateSafeTargetLocked_votes
    by (auto simp: tickIntervalLocked_def Let_def split: if_splits)
qed

lemma advance_loop_votes:
  assumes "advance_loop t hasProposal c = Some c'"
  shows "votes_ok e vs c \<longrightarrow> votes_ok e vs c'"
proof (rule advance_loop.raw_induct [where P = "\<lambda>_ _ c c'. votes_ok e vs c \<longrightarrow> votes_ok e vs c'", OF _ assms])
  fix f t hasProposal c c'
  assume rest: "\<And>t hasProposal c c'. f t hasProposal c = Some c' \<Longrightarrow> votes_ok e vs c \<longrightarrow> votes_ok e vs c'"
    and "(if fc_time c < t
      then let shouldSignal = hasProposal \<and> fc_time c + 1 = t in Option.bind (tickIntervalLocked shouldSignal c) (f t hasProposal)
      else Some c) = Some c'"
  then show "votes_ok e vs c \<longrightarrow> votes_ok e vs c'"
    using tickIntervalLocked_votes by (auto simp: Let_def bind_eq_Some_conv split: if_splits)
qed

lemma advanceTimeLocked_votes:
  "advanceTimeLocked t hasProposal c = Some c' \<Longrightarrow> votes_ok e vs c \<Longrightarrow> votes_ok e vs c'"
  using advance_loop_votes by (auto simp: advanceTimeLocked_def Let_def split: if_splits)

lemma advance_now_votes: "advance_now now c = Some c' \<Longrightarrow> votes_ok e vs c \<Longrightarrow> votes_ok e vs c'"
  using advanceTimeLocked_votes by (auto simp: advance_now_def split: option.splits)

lemma GetProposalHead_votes: "GetProposalHead slot c = Some (r, c') \<Longrightarrow> votes_ok e vs c \<Longrightarrow> votes_ok e vs c'"
  using advanceTimeLocked_votes acceptNewAttestationsLocked_votes
  by (fastforce simp: GetProposalHead_def Let_def bind_eq_Some_conv)

subsection \<open>Recording votes\<close>

definition same_validators :: "Validator list \<Rightarrow> MemoryStore \<Rightarrow> bool" where
  "same_validators vs m \<longleftrightarrow> (\<forall>r s. GetState m r = Some s \<longrightarrow> st_validators s = vs)"

lemma processAttestationLocked_votes:
  assumes "votes_ok e vs c" and "same_validators vs (fc_storage c)"
    and "fromBlock \<Longrightarrow> env_verify_signatures e \<Longrightarrow> vote_signed e vs (attestation_of sa) (sa_signature sa)"
  shows "votes_ok e vs (processAttestationLocked e sa fromBlock c)"
proof (cases "validateAttestationData c (sa_message sa) = None \<and>
    (fromBlock \<or> \<not> env_verify_signatures e \<or> verifyAttestationSignature e c sa = None)")
  case True
  then have "env_verify_signatures e \<longrightarrow> vote_signed e vs (attestation_of sa) (sa_signature sa)"
    using assms(2,3)
    by (auto simp: verifyAttestationSignature_def verifyAttestationSignatureWithState_iff same_validators_def
        attestation_of_def split: option.splits)
  then have "vote_ok e vs (fc_storage c) (sa_validator sa) sa"
    using True validateAttestationData_linked by (auto simp: vote_ok_def)
  moreover have "(v, sa') = (sa_validator sa, sa) \<or> (v, sa') \<in> set (fc_known c) \<union> set (fc_new c)"
    if "(v, sa') \<in> set (fc_known (processAttestationLocked e sa fromBlock c)) \<union>
        set (fc_new (processAttestationLocked e sa fromBlock c))" for v sa'
    using that set_update_subset [of "sa_validator sa" sa "fc_known c"] set_update_subset [of "sa_validator sa" sa "fc_new c"]
    by (auto simp: processAttestationLocked_def Let_def AList.delete_eq split: option.splits if_splits)
  ultimately show ?thesis by (intro votes_okI [OF assms(1)]) auto
next
  case False
  then have "processAttestationLocked e sa fromBlock c = c" by (auto simp: processAttestationLocked_def Let_def)
  then show ?thesis using assms(1) by simp
qed

lemma verify_body_iff:
  "verify_body e s sigs i atts = None \<longleftrightarrow>
     (\<forall>j < length atts. vote_signed e (st_validators s) (atts ! j) (sigs ! (i + j)))"
proof (induction atts arbitrary: i)
  case (Cons att atts)
  have "verify_body e s sigs i (att # atts) = None \<longleftrightarrow>
      vote_signed e (st_validators s) att (sigs ! i) \<and> verify_body e s sigs (i + 1) atts = None"
    by (auto simp: verifyAttestationSignatureWithState_iff [symmetric] split: option.splits)
  then show ?case using Cons by (auto simp: less_Suc_eq_0_disj)
qed simp

lemma verify_envelope_body:
  assumes "verify_envelope e s envelope = None" and "atts = body_attestations (b_body (bwa_block (sb_message envelope)))"
    and "j < length atts"
  shows "vote_signed e (st_validators s) (atts ! j) (sb_signature envelope ! j)"
  using assms verify_body_iff [of e s "sb_signature envelope" 0 atts] by (auto simp: verify_envelope_def Let_def split: option.splits)

lemma apply_body_votes:
  assumes "votes_ok e vs c" and "same_validators vs (fc_storage c)"
    and "\<And>j. env_verify_signatures e \<Longrightarrow> j < length atts \<Longrightarrow> vote_signed e vs (atts ! j) (sigs ! (i + j))"
  shows "votes_ok e vs (apply_body e sigs i atts c) \<and> fc_storage (apply_body e sigs i atts c) = fc_storage c"
  using assms
proof (induction atts arbitrary: i c)
  case (Cons att atts)
  let ?sa = "\<lparr>sa_validator = att_validator att, sa_message = att_data att, sa_signature = sigs ! i\<rparr>"
  have "attestation_of ?sa = att" by (simp add: attestation_of_def)
  then have first: "votes_ok e vs (processAttestationLocked e ?sa True c)"
    using Cons.prems(1,2) Cons.prems(3) [of 0] by (intro processAttestationLocked_votes) simp_all
  have later: "vote_signed e vs (atts ! j) (sigs ! (i + 1 + j))" if "env_verify_signatures e" "j < length atts" for j
    using Cons.prems(3) [of "Suc j"] that by simp
  show ?case using Cons.IH [OF first _ later] Cons.prems(2) by simp
qed simp

lemma process_agg_loop_votes:
  assumes "fc_inv hash ap c" and "votes_ok e vs c" and "st_validators hs = vs" and "vote_linked (fc_storage c) data"
  shows "votes_ok e vs (process_agg_loop e hs data cur xs c)"
proof -
  let ?c = "process_agg_loop e hs data cur xs c"
  have inv: "fc_inv hash ap ?c" and chain: "same_chain c ?c" using process_agg_loop_frame [OF assms(1)] by blast+
  have known: "fc_known (process_agg_loop e hs data cur xs c) = fc_known c" for c
    by (induction e hs data cur xs c rule: process_agg_loop.induct) (auto simp: Let_def split: prod.split option.split)
  have "(v, sa) \<in> set (fc_new c) \<or> vote_ok e vs (fc_storage c) v sa" if "(v, sa) \<in> set (fc_new ?c)" for v sa
  proof -
    have m: "map_of (fc_new ?c) v = Some sa" using that inv by (simp add: fc_inv_def)
    show ?thesis
    proof (cases "map_of (fc_new ?c) v = map_of (fc_new c) v")
      case True
      then show ?thesis using m by (metis map_of_SomeD)
    next
      case False
      then have "agg_vote_taken e hs data cur v c ?c" using process_agg_loop_taken by blast
      then show ?thesis
        using m assms(3,4) by (auto simp: agg_vote_taken_def agg_vote_checked_def vote_ok_def vote_signed_def attestation_of_def)
    qed
  qed
  then show ?thesis using chain by (intro votes_okI [OF assms(2)]) (auto simp: known same_chain_def)
qed

lemma ProcessAggregatedAttestation_votes:
  assumes "fc_inv (env_hash e) ap c" and "votes_ok e vs c" and "same_validators vs (fc_storage c)"
    and "ProcessAggregatedAttestation e now agg c = Some c'"
  shows "votes_ok e vs c'"
proof -
  obtain c1 where c1: "advance_now now c = Some c1" "fc_inv (env_hash e) ap c1" "same_chain c c1"
    by (rule advance_now_inv [OF assms(1)])
  have ok: "votes_ok e vs c1" using advance_now_votes [OF c1(1) assms(2)] .
  have m: "fc_storage c1 = fc_storage c" using c1(3) by (simp add: same_chain_def)
  from assms(4) consider "c' = c1" | hs cur xs where "c' = process_agg_loop e hs (agg_data agg) cur xs c1"
      "GetState (fc_storage c1) (fc_head c1) = Some hs" "validateAttestationData c1 (agg_data agg) = None"
    by (auto simp: ProcessAggregatedAttestation_def c1(1) split: if_splits option.splits sum.splits)
  then show ?thesis
  proof cases
    case 1
    then show ?thesis using ok by simp
  next
    case (2 hs cur xs)
    have "st_validators hs = vs" using 2(2) assms(3) by (simp add: same_validators_def m)
    then show ?thesis
      unfolding 2(1) using process_agg_loop_votes [OF c1(2) ok _ validateAttestationData_linked [OF 2(3)]] by blast
  qed
qed

lemma ProcessAttestation_votes:
  assumes "ProcessAttestation e now sa c = Some c'" and "votes_ok e vs c" and "same_validators vs (fc_storage c)"
    and "fc_inv (env_hash e) ap c"
  shows "votes_ok e vs c'"
proof -
  obtain c1 where c1: "advance_now now c = Some c1" "same_chain c c1" by (rule advance_now_inv [OF assms(4)])
  then have c': "c' = processAttestationLocked e sa False c1" using assms(1) by (simp add: ProcessAttestation_def)
  show ?thesis
    unfolding c' using advance_now_votes [OF c1(1) assms(2)] c1(2) assms(3)
    by (intro processAttestationLocked_votes) (simp_all add: same_chain_def)
qed

subsection \<open>States are replays of the blocks\<close>

definition replayed :: "hasher \<Rightarrow> State \<Rightarrow> Block \<Rightarrow> MemoryStore \<Rightarrow> bool" where
  "replayed hash s0 b0 m \<longleftrightarrow>
     GetBlock m (block_root hash b0) = Some b0 \<and> GetState m (block_root hash b0) = Some s0 \<and>
     (\<forall>r b s. r \<noteq> block_root hash b0 \<longrightarrow> GetBlock m r = Some b \<longrightarrow> GetState m r = Some s \<longrightarrow>
       (\<exists>ps. GetState m (b_parent_root b) = Some ps \<and> StateTransition hash ps b = Inr s))"

lemma replayedD:
  assumes "replayed hash s0 b0 m" and "r \<noteq> block_root hash b0" and "GetBlock m r = Some b" and "GetState m r = Some s"
  obtains ps where "GetState m (b_parent_root b) = Some ps" and "StateTransition hash ps b = Inr s"
  using assms unfolding replayed_def by blast

lemma StateTransition_validators:
  assumes "StateTransition hash s b = Inr s'"
  shows "st_validators s' = st_validators s"
  using assms
proof (rule StateTransition_Inr)
  fix s1 s2
  assume "same_but_slot s s1" and "linked hash s1 b s2" and s': "s' = ProcessAttestations s2 (body_attestations (b_body b))"
  then have "st_validators s2 = st_validators s" by (auto simp: same_but_slot_def linked_def Let_def)
  moreover have "st_validators s' = st_validators s2" by (simp add: s')
  ultimately show ?thesis by simp
qed

lemma storage_inv_state:
  assumes "storage_inv hash ap m" and "GetState m r = Some s"
  obtains b where "GetBlock m r = Some b" and "st_slot s = b_slot b" and "r \<noteq> ap"
proof -
  obtain b where b: "GetBlock m r = Some b" using assms by (fastforce simp: storage_inv_def)
  then have "block_ok hash ap m r b" "r \<noteq> ap" using assms(1) by (auto simp: storage_inv_def)
  then show ?thesis using that [OF b] assms(2) by (auto simp: block_ok_def)
qed

text \<open>A block on a stored parent is stored with its replayed state, also when it is stored twice.\<close>

lemma replayed_store_block:
  assumes replay: "replayed hash s0 b0 m" and inv: "storage_inv hash (b_parent_root b0) m"
    and b: "bwa_block (sb_message envelope) = b" and same: "\<And>b'. GetBlock m r = Some b' \<Longrightarrow> b' = b"
    and parent: "GetState m (b_parent_root b) = Some ps" "StateTransition hash ps b = Inr s"
  shows "replayed hash s0 b0 (store_block r envelope s m)"
proof -
  let ?m = "store_block r envelope s m" and ?ar = "block_root hash b0"
  have not_anchor: "r \<noteq> ?ar"
  proof
    assume "r = ?ar"
    then have "b0 = b" using same replay by (simp add: replayed_def)
    then show False using storage_inv_state [OF inv parent(1)] by auto
  qed
  have parent_ne: "b_parent_root b \<noteq> r"
    using storage_inv_state [OF inv parent(1)] same StateTransition_slots(1) [OF parent(2)] by fastforce
  have again: "ps' = s" if "GetState m r = Some ps'" for ps'
  proof -
    have "GetBlock m r = Some b" using storage_inv_state [OF inv that] same by metis
    from replayedD [OF replay not_anchor this that] show ?thesis using parent by auto
  qed
  have "\<exists>ps. GetState ?m (b_parent_root b') = Some ps \<and> StateTransition hash ps b' = Inr s'"
    if k: "k \<noteq> ?ar" "GetBlock ?m k = Some b'" "GetState ?m k = Some s'" for k b' s'
  proof (cases "k = r")
    case True
    then show ?thesis using k parent parent_ne by (simp add: store_block_lookup b)
  next
    case False
    then obtain ps' where "GetState m (b_parent_root b') = Some ps'" "StateTransition hash ps' b' = Inr s'"
      using k replayedD [OF replay k(1), of b' s'] by (auto simp: store_block_lookup)
    then show ?thesis using again by (auto simp: store_block_lookup)
  qed
  then show ?thesis using replay not_anchor by (auto simp: replayed_def store_block_lookup)
qed

lemma same_validators_store_block:
  assumes "same_validators vs m" and "GetState m pr = Some ps" and "StateTransition hash ps b = Inr s"
  shows "same_validators vs (store_block r envelope s m)"
  using assms StateTransition_validators [OF assms(3)] by (auto simp: same_validators_def store_block_lookup)

subsection \<open>The invariant of a replica\<close>

text \<open>The attestations in the body of every block but the anchor are signed.\<close>

definition body_signed :: "env \<Rightarrow> Validator list \<Rightarrow> Block \<Rightarrow> bool" where
  "body_signed e vs b \<longleftrightarrow>
     (env_verify_signatures e \<longrightarrow> (\<forall>att \<in> set (body_attestations (b_body b)). \<exists>sig. vote_signed e vs att sig))"

definition bodies_signed :: "env \<Rightarrow> Validator list \<Rightarrow> root \<Rightarrow> MemoryStore \<Rightarrow> bool" where
  "bodies_signed e vs ar m \<longleftrightarrow> (\<forall>r b. r \<noteq> ar \<longrightarrow> GetBlock m r = Some b \<longrightarrow> body_signed e vs b)"

definition replica_inv :: "env \<Rightarrow> State \<Rightarrow> Block \<Rightarrow> Store \<Rightarrow> bool" where
  "replica_inv e s0 b0 c \<longleftrightarrow>
     fc_inv (env_hash e) (b_parent_root b0) c \<and> replayed (env_hash e) s0 b0 (fc_storage c) \<and>
     same_validators (st_validators s0) (fc_storage c) \<and>
     bodies_signed e (st_validators s0) (block_root (env_hash e) b0) (fc_storage c) \<and>
     fc_num_validators c = of_nat (length (st_validators s0)) \<and> votes_ok e (st_validators s0) c"

definition replica_init :: "env \<Rightarrow> State \<Rightarrow> Block \<Rightarrow> Store \<Rightarrow> bool" where
  "replica_init e s0 b0 c \<longleftrightarrow>
     NewStore (env_hash e) s0 b0 New = Some c \<and> st_slot s0 = b_slot b0 \<and>
     block_root (env_hash e) b0 \<noteq> b_parent_root b0"

lemma replica_init_inv:
  assumes "replica_init e s0 b0 c"
  shows "replica_inv e s0 b0 c"
proof -
  have new: "NewStore (env_hash e) s0 b0 New = Some c" using assms by (simp add: replica_init_def)
  have "fc_num_validators c = of_nat (length (st_validators s0))"
    using new by (auto simp: NewStore_def Let_def split: if_splits)
  moreover have "fc_inv (env_hash e) (b_parent_root b0) c"
    using assms by (intro NewStore_inv [OF new]) (simp_all add: replica_init_def)
  ultimately show ?thesis
    by (auto simp: replica_inv_def replayed_def same_validators_def bodies_signed_def votes_ok_def NewStore_fields [OF new]
        store_block_lookup split: if_splits)
qed

text \<open>A step that leaves the blocks alone, and a step that stores a block.\<close>

lemma replica_inv_votes:
  assumes "replica_inv e s0 b0 c" and "fc_inv (env_hash e) (b_parent_root b0) c'" and "same_chain c c'"
    and "votes_ok e (st_validators s0) c'"
  shows "replica_inv e s0 b0 c'"
  using assms by (simp add: replica_inv_def same_chain_def)

lemma replica_inv_block:
  assumes inv: "replica_inv e s0 b0 c" and "fc_inv (env_hash e) (b_parent_root b0) c'" and "fc_grows c c'"
    and "fc_storage c' = store_block r envelope s (fc_storage c)"
    and b: "bwa_block (sb_message envelope) = b" and same: "\<And>b'. GetBlock (fc_storage c) r = Some b' \<Longrightarrow> b' = b"
    and parent: "GetState (fc_storage c) (b_parent_root b) = Some ps" "StateTransition (env_hash e) ps b = Inr s"
    and "votes_ok e (st_validators s0) c'" and body: "body_signed e (st_validators s0) b"
  shows "replica_inv e s0 b0 c'"
proof -
  have "replayed (env_hash e) s0 b0 (fc_storage c')" unfolding assms(4)
    using inv same by (intro replayed_store_block [OF _ _ b _ parent]) (auto simp: replica_inv_def fc_inv_def)
  moreover have "same_validators (st_validators s0) (fc_storage c')" unfolding assms(4)
    using inv by (intro same_validators_store_block [OF _ parent]) (simp add: replica_inv_def)
  moreover have "bodies_signed e (st_validators s0) (block_root (env_hash e) b0) (fc_storage c')" unfolding assms(4)
    using inv body by (simp add: replica_inv_def bodies_signed_def store_block_lookup b)
  ultimately show ?thesis using assms(2,3,9) inv by (simp add: replica_inv_def fc_grows_def)
qed

lemma import_block_votes:
  assumes inv: "replica_inv e s0 b0 c" and b: "bwa_block (sb_message envelope) = b"
    and fresh: "GetBlock (fc_storage c) r = None"
    and parent: "GetState (fc_storage c) (b_parent_root b) = Some ps" "StateTransition (env_hash e) ps b = Inr s"
    and sigs: "env_verify_signatures e \<Longrightarrow> verify_envelope e ps envelope = None"
    and imported: "import_block e r envelope s c = Some c'"
  shows "votes_ok e (st_validators s0) c'"
proof -
  let ?vs = "st_validators s0" and ?atts = "body_attestations (b_body b)"
  define c3 where "c3 = adopt_checkpoints s (c\<lparr>fc_storage := store_block r envelope s (fc_storage c)\<rparr>)"
  let ?c4 = "apply_body e (sb_signature envelope) 0 ?atts c3"
  have vs: "same_validators ?vs (fc_storage c)" "votes_ok e ?vs c" using inv by (simp_all add: replica_inv_def)
  then have "st_validators ps = ?vs" using parent(1) by (simp add: same_validators_def)
  then have body: "vote_signed e ?vs (?atts ! j) (sb_signature envelope ! (0 + j))"
    if "env_verify_signatures e" "j < length ?atts" for j
    using verify_envelope_body [of e ps envelope ?atts j] sigs that b by simp
  have c3: "votes_ok e ?vs c3"
    using fresh by (intro votes_ok_grow [OF vs(2)]) (auto simp: c3_def store_block_lookup)
  have vs3: "same_validators ?vs (fc_storage c3)"
    using same_validators_store_block [OF vs(1) parent] by (simp add: c3_def)
  have c4: "votes_ok e ?vs ?c4" "fc_storage ?c4 = fc_storage c3" using apply_body_votes [OF c3 vs3 body] by blast+
  obtain h where h: "updateHeadLocked ?c4 = Some (?c4\<lparr>fc_head := h\<rparr>)" and
    c': "c' = (case bwa_proposer_attestation (sb_message envelope) of None \<Rightarrow> ?c4\<lparr>fc_head := h\<rparr>
      | Some p \<Rightarrow> processAttestationLocked e \<lparr>sa_validator = att_validator p, sa_message = att_data p,
          sa_signature = sb_signature envelope ! length ?atts\<rparr> False (?c4\<lparr>fc_head := h\<rparr>))"
    using imported by (auto simp: import_block_def Let_def b c3_def [symmetric] updateHeadLocked_def)
  have "votes_ok e ?vs (?c4\<lparr>fc_head := h\<rparr>)" using updateHeadLocked_votes [OF h c4(1)] .
  then show ?thesis
    using vs3 c4(2) by (auto simp: c' intro!: processAttestationLocked_votes split: option.split)
qed

lemma Store_ProcessBlock_replica:
  assumes inv: "replica_inv e s0 b0 c"
    and ap: "block_root (env_hash e) (bwa_block (sb_message envelope)) \<noteq> b_parent_root b0"
    and processed: "Store_ProcessBlock e now envelope c = Some (err, c')"
  shows "replica_inv e s0 b0 c'"
proof -
  let ?b = "bwa_block (sb_message envelope)"
  have fc: "fc_inv (env_hash e) (b_parent_root b0) c" using inv by (simp add: replica_inv_def)
  obtain c1 where c1: "advance_now now c = Some c1" "fc_inv (env_hash e) (b_parent_root b0) c1" "same_chain c c1"
    by (rule advance_now_inv [OF fc])
  have inv1: "replica_inv e s0 b0 c1"
    using inv advance_now_votes [OF c1(1)] by (intro replica_inv_votes [OF inv c1(2,3)]) (simp add: replica_inv_def)
  from c1(1) show ?thesis
  proof (cases rule: Store_ProcessBlock_cases [where e = e and envelope = envelope])
    case (imported ps s)
    from imported(1) have ok: "GetBlock (fc_storage c1) (block_root (env_hash e) ?b) = None"
      "GetState (fc_storage c1) (b_parent_root ?b) = Some ps" "StateTransition (env_hash e) ps ?b = Inr s"
      "env_verify_signatures e \<Longrightarrow> verify_envelope e ps envelope = None"
      by (simp_all add: block_checked_def Let_def)
    from import_block_inv [OF c1(2) refl refl ap ok(1-3), where e = e]
    obtain c2 where c2: "import_block e (block_root (env_hash e) ?b) envelope s c1 = Some c2"
      "fc_inv (env_hash e) (b_parent_root b0) c2" "fc_grows c1 c2"
      "fc_storage c2 = store_block (block_root (env_hash e) ?b) envelope s (fc_storage c1)" .
    have "c' = c2" using processed imported(2) c2(1) by simp
    moreover have "st_validators ps = st_validators s0" using inv1 ok(2) by (simp add: replica_inv_def same_validators_def)
    then have "body_signed e (st_validators s0) ?b"
      using verify_envelope_body [OF ok(4) refl] by (force simp: body_signed_def in_set_conv_nth)
    ultimately show ?thesis
      using replica_inv_block [OF inv1 c2(2-4) refl _ ok(2,3) import_block_votes [OF inv1 refl ok c2(1)]] ok(1) by simp
  qed (use processed inv1 in auto)
qed

lemma produced_body_signed:
  assumes made: "produced hash sign slot v c envelope fs" and votes: "votes_ok e vs c"
  shows "body_signed e vs (bwa_block (sb_message envelope))"
proof -
  obtain sas where "set sas \<subseteq> set (map snd (fc_known c))"
    "body_attestations (b_body (bwa_block (sb_message envelope))) = map attestation_of sas"
    using made unfolding produced_def Let_def by blast
  then show ?thesis using votes by (fastforce simp: body_signed_def votes_ok_def vote_ok_def)
qed

lemma ProduceBlock_replica:
  assumes inv: "replica_inv e s0 b0 c" and made: "ProduceBlock (env_hash e) sign slot v c = Some (Inr envelope, c')"
    and ap: "block_root (env_hash e) (bwa_block (sb_message envelope)) \<noteq> b_parent_root b0"
    and fresh: "GetBlock (fc_storage c) (block_root (env_hash e) (bwa_block (sb_message envelope))) \<in>
      {None, Some (bwa_block (sb_message envelope))}"
  shows "replica_inv e s0 b0 c'"
proof -
  let ?b = "bwa_block (sb_message envelope)" and ?vs = "st_validators s0"
  let ?r = "block_root (env_hash e) ?b"
  have fc: "fc_inv (env_hash e) (b_parent_root b0) c" and votes: "votes_ok e ?vs c" using inv by (simp_all add: replica_inv_def)
  from fc show ?thesis
  proof (cases rule: ProduceBlock_cases [where sign = sign and slot = slot and v = v])
    case (failed err c1)
    then show ?thesis using made by simp
  next
    case p: (made env fs c1)
    have c': "env = envelope" "c' = c1\<lparr>fc_storage := store_block ?r envelope fs (fc_storage c1)\<rparr>"
      using made p(6) by auto
    have m: "fc_storage c1 = fc_storage c" using p(3) by (simp add: same_chain_def)
    obtain hs where hs: "GetState (fc_storage c) (b_parent_root ?b) = Some hs" "StateTransition (env_hash e) hs ?b = Inr fs"
      using p(1) by (auto simp: produced_def Let_def m c'(1))
    have "votes_ok e ?vs c'"
      by (rule votes_ok_grow [OF GetProposalHead_votes [OF p(7) votes]])
        (use fresh in \<open>auto simp: c'(2) store_block_lookup m split: if_splits\<close>)
    moreover have "fc_inv (env_hash e) (b_parent_root b0) c'" "fc_grows c c'"
      using ap fresh by (intro ProduceBlock_inv [OF fc made]; auto)+
    moreover have "body_signed e ?vs ?b"
      using produced_body_signed [OF p(1) GetProposalHead_votes [OF p(7) votes]] by (simp add: c'(1))
    ultimately show ?thesis
      using fresh by (intro replica_inv_block [OF inv _ _ _ refl _ hs]) (auto simp: c'(2) m)
  qed
qed

lemma fc_step_replica:
  assumes step: "fc_step e (b_parent_root b0) c c'" and inv: "replica_inv e s0 b0 c"
  shows "replica_inv e s0 b0 c'"
proof -
  let ?vs = "st_validators s0" and ?ap = "b_parent_root b0"
  have fc: "fc_inv (env_hash e) ?ap c" and votes: "votes_ok e ?vs c" and vs: "same_validators ?vs (fc_storage c)"
    using inv by (simp_all add: replica_inv_def)
  have fc': "fc_inv (env_hash e) ?ap c'" using fc_step_inv [OF step fc] by blast
  have quiet: "replica_inv e s0 b0 c'" if "votes_ok e ?vs c'" "same_chain c c'"
    using replica_inv_votes [OF inv fc' that(2,1)] .
  from step show ?thesis
  proof cases
    case (tick hasProposal)
    obtain c1 where "tickIntervalLocked hasProposal c = Some c1" "same_chain c c1" by (rule tickIntervalLocked_inv [OF fc])
    then show ?thesis using tick votes by (intro quiet) (auto intro: tickIntervalLocked_votes)
  next
    case (advance t hasProposal)
    obtain c1 where "advanceTimeLocked t hasProposal c = Some c1" "same_chain c c1" by (rule advanceTimeLocked_inv [OF fc])
    then show ?thesis using advance votes by (intro quiet) (auto intro: advanceTimeLocked_votes)
  next
    case accept_votes
    obtain c1 where "acceptNewAttestationsLocked c = Some c1" "same_chain c c1" by (rule acceptNewAttestationsLocked_inv [OF fc])
    then show ?thesis using accept_votes votes by (intro quiet) (auto intro: acceptNewAttestationsLocked_votes)
  next
    case safe_target
    obtain h where "updateSafeTargetLocked c = Some (c\<lparr>fc_safe_target := h\<rparr>)" by (rule updateSafeTargetLocked_total [OF fc])
    then have "same_chain c c'" using safe_target by (auto simp: same_chain_def)
    then show ?thesis using updateSafeTargetLocked_votes [OF safe_target votes] by (intro quiet)
  next
    case (attestation now sa)
    then show ?thesis using ProcessAttestation_inv [OF fc] ProcessAttestation_votes [OF _ votes vs fc] by (intro quiet) auto
  next
    case (aggregate now agg)
    then show ?thesis
      using ProcessAggregatedAttestation_votes [OF fc votes vs] ProcessAggregatedAttestation_inv [OF fc]
      by (intro quiet) auto
  next
    case (process_block now envelope err)
    then show ?thesis using Store_ProcessBlock_replica [OF inv] by blast
  next
    case (proposal_head slot r)
    then show ?thesis using GetProposalHead_inv [OF fc] GetProposalHead_votes votes by (intro quiet) auto
  next
    case (produce_attestation sign slot v a)
    have "GetProposalHead slot c = Some (fc_head c', c') \<and> same_chain c c'"
      using fc by (cases rule: ProduceAttestation_cases [where sign = sign and slot = slot and v = v])
        (use produce_attestation in auto)
    then show ?thesis using GetProposalHead_votes votes by (intro quiet) auto
  next
    case (produce_failed sign slot v err)
    have "(c' = c \<or> GetProposalHead slot c = Some (fc_head c', c')) \<and> same_chain c c'"
      using fc by (cases rule: ProduceBlock_cases [where sign = sign and slot = slot and v = v])
        (use produce_failed in auto)
    then show ?thesis using GetProposalHead_votes votes by (intro quiet) auto
  next
    case (produce_block sign slot v envelope)
    then show ?thesis using ProduceBlock_replica [OF inv] by blast
  qed
qed

interpretation replica: invariant_system "replica_init e s0 b0" "fc_step e (b_parent_root b0)" "replica_inv e s0 b0"
  for e s0 b0
  by unfold_locales (use replica_init_inv fc_step_replica in blast)+

subsection \<open>Agreement\<close>

text \<open>No two different blocks under one root: the hasher has no collision among the blocks of two stores.\<close>

definition no_clash :: "MemoryStore \<Rightarrow> MemoryStore \<Rightarrow> bool" where
  "no_clash m m' \<longleftrightarrow> (\<forall>r b b'. GetBlock m r = Some b \<longrightarrow> GetBlock m' r = Some b' \<longrightarrow> b = b')"

lemma replayed_agree:
  assumes m: "replayed hash s0 b0 m" "storage_inv hash ap m" and m': "replayed hash s0 b0 m'" "storage_inv hash ap m'"
    and clash: "no_clash m m'" and "GetState m r = Some s" and "GetState m' r = Some s'"
  shows "s = s'"
  using assms(6,7)
proof (induction "unat (st_slot s)" arbitrary: r s s' rule: less_induct)
  case less
  show ?case
  proof (cases "r = block_root hash b0")
    case True
    then show ?thesis using less.prems m(1) m'(1) by (simp add: replayed_def)
  next
    case False
    obtain b where b: "GetBlock m r = Some b" "st_slot s = b_slot b" by (rule storage_inv_state [OF m(2) less.prems(1)])
    obtain b' where b': "GetBlock m' r = Some b'" by (rule storage_inv_state [OF m'(2) less.prems(2)])
    have eq: "b' = b" using clash b(1) b' by (auto simp: no_clash_def)
    obtain ps where ps: "GetState m (b_parent_root b) = Some ps" "StateTransition hash ps b = Inr s"
      by (rule replayedD [OF m(1) False b(1) less.prems(1)])
    obtain ps' where ps': "GetState m' (b_parent_root b) = Some ps'" "StateTransition hash ps' b = Inr s'"
      using replayedD [OF m'(1) False b' less.prems(2)] unfolding eq .
    have "unat (st_slot ps) < unat (st_slot s)"
      using StateTransition_slots(1) [OF ps(2)] by (simp add: b(2) word_less_nat_alt)
    then have "ps = ps'" using less.hyps ps(1) ps'(1) by blast
    then show ?thesis using ps(2) ps'(2) by simp
  qed
qed

lemma replica_agree:
  assumes "replica_inv e s0 b0 a" and "replica_inv e' s0 b0 d" and "env_hash e' = env_hash e"
    and "no_clash (fc_storage a) (fc_storage d)"
    and "GetBlock (fc_storage a) r = Some b" and "GetBlock (fc_storage d) r = Some b'"
  obtains s where "GetState (fc_storage a) r = Some s" and "GetState (fc_storage d) r = Some s"
proof -
  have inv: "storage_inv (env_hash e) (b_parent_root b0) (fc_storage a)" "storage_inv (env_hash e) (b_parent_root b0) (fc_storage d)"
    "replayed (env_hash e) s0 b0 (fc_storage a)" "replayed (env_hash e) s0 b0 (fc_storage d)"
    using assms(1-3) by (simp_all add: replica_inv_def fc_inv_def)
  then have "block_ok (env_hash e) (b_parent_root b0) (fc_storage a) r b" "block_ok (env_hash e) (b_parent_root b0) (fc_storage d) r b'"
    using assms(5,6) by (simp_all add: storage_inv_def)
  then have "\<exists>s. GetState (fc_storage a) r = Some s" "\<exists>s. GetState (fc_storage d) r = Some s"
    by (auto simp: block_ok_def)
  then show ?thesis using replayed_agree [OF inv(3,1,4,2) assms(4)] that by blast
qed

lemma IsProposer_bound:
  assumes "IsProposer v slot (of_nat n) = Some True"
  shows "unat v < n"
proof -
  have nz: "(of_nat n :: u64) \<noteq> 0" and v: "v = slot mod of_nat n"
    using assms by (auto simp: IsProposer_def split: if_splits)
  have "unat v < unat (of_nat n :: u64)" using nz v by (simp add: unat_mod unat_gt_0)
  also have "\<dots> \<le> n" by (simp add: unat_of_nat)
  finally show ?thesis .
qed

text \<open>A block that passes all checks is imported, and a produced block is stored.\<close>

lemma Store_ProcessBlock_imports:
  assumes inv: "fc_inv (env_hash e) ap c" and ap: "block_root (env_hash e) (bwa_block (sb_message envelope)) \<noteq> ap"
    and checked: "block_checked e (fc_storage c) envelope ps s"
  obtains c' where "Store_ProcessBlock e now envelope c = Some (None, c')"
    and "fc_storage c' = store_block (block_root (env_hash e) (bwa_block (sb_message envelope))) envelope s (fc_storage c)"
proof -
  let ?b = "bwa_block (sb_message envelope)"
  obtain c1 where c1: "advance_now now c = Some c1" "fc_inv (env_hash e) ap c1" "same_chain c c1"
    by (rule advance_now_inv [OF inv])
  have m: "fc_storage c1 = fc_storage c" using c1(3) by (simp add: same_chain_def)
  have ok: "GetBlock (fc_storage c1) (block_root (env_hash e) ?b) = None"
    "GetState (fc_storage c1) (b_parent_root ?b) = Some ps" "StateTransition (env_hash e) ps ?b = Inr s"
    using checked by (simp_all add: block_checked_def Let_def m)
  from import_block_inv [OF c1(2) refl refl ap ok, where e = e]
  obtain c2 where "import_block e (block_root (env_hash e) ?b) envelope s c1 = Some c2"
    "fc_storage c2 = store_block (block_root (env_hash e) ?b) envelope s (fc_storage c1)" .
  then show ?thesis
    using checked by (intro that [of c2]) (auto simp: Store_ProcessBlock_def c1(1) block_checked_def Let_def m)
qed

lemma ProduceBlock_stores:
  assumes "fc_inv hash ap c" and "ProduceBlock hash sign slot v c = Some (Inr envelope, c')"
  shows "\<exists>fs. fc_storage c' = store_block (block_root hash (bwa_block (sb_message envelope))) envelope fs (fc_storage c)"
  using assms(1)
proof (cases rule: ProduceBlock_cases [where sign = sign and slot = slot and v = v])
  case (made env fs c1)
  then show ?thesis using assms(2) by (auto simp: same_chain_def)
qed (use assms(2) in simp)

text \<open>The signatures of a produced envelope verify, if the proposer's own signature does.\<close>

lemma produced_verifies:
  assumes made: "produced (env_hash e) sign slot v c envelope fs" and "env_verify_signatures e"
    and votes: "votes_ok e vs c" and "st_validators hs = vs" and "unat v < length vs"
    and honest: "\<And>message sig. sign (ucast slot) message = Inr sig \<Longrightarrow>
      Verify (env_cverify e) (list_of_bytes (val_pubkey (vs ! unat v))) (ucast slot) message
        (list_of_bytes (bytes_of sig :: signature)) = None"
  shows "verify_envelope e hs envelope = None"
proof -
  let ?b = "bwa_block (sb_message envelope)"
  obtain att sas rt sig where p: "bwa_proposer_attestation (sb_message envelope) = Some att" "att_validator att = v"
    "ad_slot (att_data att) = slot" "set sas \<subseteq> set (map snd (fc_known c))"
    "body_attestations (b_body ?b) = map attestation_of sas" "Attestation_HashTreeRoot (env_hash e) att = (rt, None)"
    "sign (ucast slot) rt = Inr sig" "sb_signature envelope = map sa_signature sas @ [bytes_of sig]"
    using made unfolding produced_def Let_def by blast
  have "vote_signed e vs (attestation_of sa) (sa_signature sa)" if "sa \<in> set sas" for sa
    using that p(4) votes assms(2) by (fastforce simp: votes_ok_def vote_ok_def)
  then have "verify_body e hs (sb_signature envelope) 0 (map attestation_of sas) = None"
    by (simp add: verify_body_iff assms(4) p(8) nth_append)
  moreover have "vote_signed e vs att (bytes_of sig)"
    using honest [OF p(7)] assms(5) by (simp add: vote_signed_def p(2,3,6))
  ultimately show ?thesis
    by (simp add: verify_envelope_def Let_def p(1,5,8) verifyAttestationSignatureWithState_iff assms(4) nth_append)
qed

text \<open>A produced block carries one vote per validator at most.\<close>

lemma produced_size:
  assumes made: "produced (env_hash e) sign slot v c envelope fs" and "env_verify_signatures e"
    and votes: "votes_ok e vs c" and keys: "distinct (map fst (fc_known c))"
  shows "length (body_attestations (b_body (bwa_block (sb_message envelope)))) \<le> length vs"
proof -
  obtain sas where sas: "body_attestations (b_body (bwa_block (sb_message envelope))) = map attestation_of sas"
    "set sas \<subseteq> set (map snd (fc_known c))" "distinct (map snd (fc_known c)) \<longrightarrow> distinct sas"
    using made unfolding produced_def Let_def by blast
  have ok: "vote_ok e vs (fc_storage c) k sa" if "(k, sa) \<in> set (fc_known c)" for k sa
    using votes that by (simp add: votes_ok_def)
  have "map sa_validator (map snd (fc_known c)) = map fst (fc_known c)" using ok by (auto simp: vote_ok_def)
  then have "distinct (map sa_validator (map snd (fc_known c)))" using keys by (simp only:)
  then have known: "distinct (map snd (fc_known c))" "inj_on sa_validator (set (map snd (fc_known c)))"
    by (simp_all only: distinct_map)
  have "length sas = card (set sas)" using sas(3) known(1) by (simp add: distinct_card)
  also have "\<dots> = card ((unat \<circ> sa_validator) ` set sas)"
    using inj_on_subset [OF known(2) sas(2)] by (intro card_image [symmetric] comp_inj_on) (auto simp: inj_on_def word_unat_eq_iff)
  also have "\<dots> \<le> card {..<length vs}"
    using sas(2) ok assms(2) by (intro card_mono) (fastforce simp: vote_ok_def vote_signed_def attestation_of_def)+
  finally show ?thesis by (simp add: sas(1))
qed

subsection \<open>Theorems\<close>

text \<open>
  C8: every vote the fork choice counts was signed by its validator. Along every run from an
  anchor, with signature verification on, a vote recorded for validator \<open>v\<close>, known or pending, is a
  vote of \<open>v\<close>, \<open>v\<close> is a validator of the anchor state, the signature verifies under the key that the
  anchor state has for \<open>v\<close>, and the vote's source, target and head are stored blocks, source and
  target with the slots it names and in order. It does not matter on which way the vote came: by
  gossip, in an aggregate, in the body of a block or as its proposer's vote.
\<close>

theorem votes_authentic:
  assumes "replica_init e s0 b0 c0" and "(fc_step e (b_parent_root b0))\<^sup>*\<^sup>* c0 c" and "env_verify_signatures e"
    and "GetKnownAttestation c v = Some sa \<or> GetNewAttestation c v = Some sa"
  shows "sa_validator sa = v \<and> unat v < length (st_validators s0) \<and>
    (\<exists>rt. Attestation_HashTreeRoot (env_hash e) (attestation_of sa) = (rt, None) \<and>
      Verify (env_cverify e) (list_of_bytes (val_pubkey (st_validators s0 ! unat v)))
        (ucast (ad_slot (sa_message sa))) rt (list_of_bytes (sa_signature sa)) = None) \<and>
    vote_linked (fc_storage c) (sa_message sa)"
proof -
  have "replica_inv e s0 b0 c" using assms(1,2) by (rule replica.inv_reachable)
  then have "vote_ok e (st_validators s0) (fc_storage c) v sa"
    using assms(4) unfolding GetKnownAttestation_def GetNewAttestation_def replica_inv_def votes_ok_def
    by (blast dest: map_of_SomeD)
  then show ?thesis using assms(3) by (auto simp: vote_ok_def vote_signed_def attestation_of_def)
qed

lemma ex_replica_init: "replica_init ex_env ex_genesis ex_anchor ex_store"
  using ex_store_new ex_anchor_fields ex_genesis_fields ex_roots_differ by (simp add: replica_init_def ex_env_def)

lemma ex_key:
  "hd (list_of_bytes (val_pubkey (st_validators ex_genesis ! 0))) = 0"
  "hd (list_of_bytes (val_pubkey (st_validators ex_genesis ! Suc 0))) = 1"
  by (simp_all add: ex_genesis_def GenerateGenesis_def list_of_bytes_bytes_of Let_def)

lemma ex_Verify:
  "ucast slot = hd (list_of_bytes pk) \<Longrightarrow>
     Verify (env_cverify ex_env) (list_of_bytes (pk :: pubkey)) slot message (list_of_bytes (sig :: signature)) = None"
  by (simp add: Verify_None_iff ex_env_def ResultOK_def flip: length_0_conv)

lemma ex_vote_accepted:
  "processAttestationLocked ex_env (ex_sa 0 0) False ex_store = ex_store\<lparr>fc_new := [(0, ex_sa 0 0)]\<rparr>"
proof -
  have "snd (Attestation_HashTreeRoot ex_hash \<lparr>att_validator = 0, att_data = sa_message (ex_sa 0 0)\<rparr>) = None"
    by (simp add: Attestation_HashTreeRoot_def Attestation_HashTreeRootWith_def AttestationData_HashTreeRootWith_def
        Checkpoint_HashTreeRootWith_def ex_hash_def split: sum.split)
  then have "vote_signed ex_env (st_validators ex_genesis) \<lparr>att_validator = 0, att_data = sa_message (ex_sa 0 0)\<rparr> (bytes_of [])"
    using ex_Verify [of 0 "val_pubkey (st_validators ex_genesis ! 0)"]
    by (cases "Attestation_HashTreeRoot ex_hash \<lparr>att_validator = 0, att_data = sa_message (ex_sa 0 0)\<rparr>")
      (auto simp: vote_signed_def ex_genesis_fields ex_key ex_sa_def ex_env_def)
  then have "verifyAttestationSignature ex_env ex_store (ex_sa 0 0) = None"
    by (simp add: verifyAttestationSignature_def ex_store_storage ex_store_fields verifyAttestationSignatureWithState_iff)
      (simp add: ex_sa_def)
  moreover have "validateAttestationData ex_store (sa_message (ex_sa 0 0)) = None"
    by (simp add: validateAttestationData_def ex_sa_def ex_root_cp_def ex_store_storage ex_store_fields ex_anchor_fields Let_def)
  ultimately show ?thesis
    by (simp add: processAttestationLocked_def ex_store_fields Let_def) (simp add: ex_sa_def)
qed

theorem votes_authentic_witness:
  "\<exists>c. fc_step ex_env ZeroHash ex_store c \<and> GetNewAttestation c 0 = Some (ex_sa 0 0) \<and>
     vote_linked (fc_storage c) (sa_message (ex_sa 0 0))"
proof -
  let ?c = "ex_store\<lparr>fc_new := [(0, ex_sa 0 0)]\<rparr>"
  have "ProcessAttestation ex_env None (ex_sa 0 0) ex_store = Some ?c"
    by (simp add: ProcessAttestation_def advance_now_def ex_vote_accepted)
  then have step: "fc_step ex_env (b_parent_root ex_anchor) ex_store ?c" by (rule fc_step.attestation)
  have vote: "GetNewAttestation ?c 0 = Some (ex_sa 0 0)" by (simp add: GetNewAttestation_def)
  have "env_verify_signatures ex_env" by (simp add: ex_env_def)
  moreover have "(fc_step ex_env (b_parent_root ex_anchor))\<^sup>*\<^sup>* ex_store ?c" using step by (rule r_into_rtranclp)
  ultimately have "vote_linked (fc_storage ?c) (sa_message (ex_sa 0 0))" using votes_authentic [OF ex_replica_init] vote by blast
  then show ?thesis using step vote by (auto simp: ex_anchor_fields)
qed

text \<open>
  C5: replicas agree. Two nodes that start from the same anchor and run independently, in
  whatever order blocks and votes reach them, hold the same state for every block that both know, as
  long as no two different blocks among those they store have the same root.
\<close>

theorem replicas_agree:
  assumes "replica_init e s0 b0 c0" and "(fc_step e (b_parent_root b0))\<^sup>*\<^sup>* c0 a"
    and "replica_init e' s0 b0 c0" and "(fc_step e' (b_parent_root b0))\<^sup>*\<^sup>* c0 d" and "env_hash e' = env_hash e"
    and "no_clash (fc_storage a) (fc_storage d)"
    and "Store_GetBlock a r = Some b" and "Store_GetBlock d r = Some b'"
  shows "b = b' \<and> (\<exists>s. GetState (fc_storage a) r = Some s \<and> GetState (fc_storage d) r = Some s \<and>
    st_slot s = b_slot b \<and> st_validators s = st_validators s0)"
proof -
  have inv: "replica_inv e s0 b0 a" "replica_inv e' s0 b0 d"
    using replica.inv_reachable [OF assms(1,2)] replica.inv_reachable [OF assms(3,4)] by simp_all
  have b: "GetBlock (fc_storage a) r = Some b" "GetBlock (fc_storage d) r = Some b'"
    using assms(7,8) by (simp_all add: Store_GetBlock_def)
  obtain s where s: "GetState (fc_storage a) r = Some s" "GetState (fc_storage d) r = Some s"
    by (rule replica_agree [OF inv assms(5,6) b])
  have st: "storage_inv (env_hash e) (b_parent_root b0) (fc_storage a)" "same_validators (st_validators s0) (fc_storage a)"
    using inv(1) by (simp_all add: replica_inv_def fc_inv_def)
  have "st_slot s = b_slot b" using storage_inv_state [OF st(1) s(1)] b(1) by auto
  then show ?thesis using s st(2) b assms(6) by (auto simp: no_clash_def same_validators_def)
qed

text \<open>Two nodes receive the example block, one of them after its clock has moved.\<close>

theorem replicas_agree_witness:
  "\<exists>a d s. Store_ProcessBlock ex_env None ex_envelope ex_store = Some (None, a) \<and>
     Store_ProcessBlock ex_env (Some 1008) ex_envelope ex_store = Some (None, d) \<and>
     GetState (fc_storage a) (bytes_of [1, 2, 2]) = Some s \<and> GetState (fc_storage d) (bytes_of [1, 2, 2]) = Some s"
proof -
  let ?m = "store_block (bytes_of [1, 2, 2]) ex_envelope (ex_child ex_genesis 2) (fc_storage ex_store)"
  have ap: "b_parent_root ex_anchor = ZeroHash" by (simp add: ex_anchor_fields)
  have root: "block_root (env_hash ex_env) (bwa_block (sb_message ex_envelope)) \<noteq> ZeroHash"
    by (simp add: ex_envelope_root ex_roots_differ)
  note stored = Store_ProcessBlock_imports [OF ex_store_inv root ex_envelope_checked, unfolded ex_envelope_root]
  obtain a where a: "Store_ProcessBlock ex_env None ex_envelope ex_store = Some (None, a)" "fc_storage a = ?m" by (rule stored)
  obtain d where d: "Store_ProcessBlock ex_env (Some 1008) ex_envelope ex_store = Some (None, d)" "fc_storage d = ?m" by (rule stored)
  have runs: "(fc_step ex_env (b_parent_root ex_anchor))\<^sup>*\<^sup>* ex_store a" "(fc_step ex_env (b_parent_root ex_anchor))\<^sup>*\<^sup>* ex_store d"
    using fc_step.process_block [OF a(1) root] fc_step.process_block [OF d(1) root] by (simp_all add: ap)
  have "no_clash (fc_storage a) (fc_storage d)" by (simp add: a(2) d(2) no_clash_def)
  moreover have "Store_GetBlock a (bytes_of [1, 2, 2]) = Some (bwa_block (sb_message ex_envelope))"
    "Store_GetBlock d (bytes_of [1, 2, 2]) = Some (bwa_block (sb_message ex_envelope))"
    by (simp_all add: a(2) d(2) Store_GetBlock_def store_block_lookup)
  ultimately show ?thesis
    using replicas_agree [OF ex_replica_init runs(1) ex_replica_init runs(2) refl] a(1) d(1) by blast
qed

lemma honest_block_checked:
  assumes inv: "replica_inv e s0 b0 a" "replica_inv e s0 b0 d"
    and made: "ProduceBlock (env_hash e) sign slot v a = Some (Inr envelope, a')"
    and honest: "\<And>message sig. sign (ucast slot) message = Inr sig \<Longrightarrow>
      Verify (env_cverify e) (list_of_bytes (val_pubkey (st_validators s0 ! unat v))) (ucast slot) message
        (list_of_bytes (bytes_of sig :: signature)) = None"
    and clash: "no_clash (fc_storage a) (fc_storage d)"
    and parent: "GetBlock (fc_storage d) (b_parent_root (bwa_block (sb_message envelope))) = Some p"
    and fresh: "GetBlock (fc_storage d) (block_root (env_hash e) (bwa_block (sb_message envelope))) = None"
  obtains ps fs where "block_checked e (fc_storage d) envelope ps fs"
    and "GetState (fc_storage a') (block_root (env_hash e) (bwa_block (sb_message envelope))) = Some fs"
proof -
  let ?b = "bwa_block (sb_message envelope)" and ?vs = "st_validators s0"
  have a: "fc_inv (env_hash e) (b_parent_root b0) a" "same_validators ?vs (fc_storage a)" "votes_ok e ?vs a"
    "fc_num_validators a = of_nat (length ?vs)" "storage_inv (env_hash e) (b_parent_root b0) (fc_storage a)"
    using inv(1) by (simp_all add: replica_inv_def fc_inv_def)
  from a(1) show ?thesis
  proof (cases rule: ProduceBlock_cases [where sign = sign and slot = slot and v = v])
    case (failed err c)
    then show ?thesis using made by simp
  next
    case m: (made env fs c)
    have eq: "env = envelope" "a' = c\<lparr>fc_storage := store_block (block_root (env_hash e) ?b) envelope fs (fc_storage c)\<rparr>"
      using made m(6) by auto
    have st: "fc_storage c = fc_storage a" using m(3) by (simp add: same_chain_def)
    obtain hs where hs: "GetState (fc_storage a) (b_parent_root ?b) = Some hs" "StateTransition (env_hash e) hs ?b = Inr fs"
      using m(1) by (auto simp: produced_def Let_def st eq(1))
    obtain pb where "GetBlock (fc_storage a) (b_parent_root ?b) = Some pb" by (rule storage_inv_state [OF a(5) hs(1)])
    then have "GetState (fc_storage d) (b_parent_root ?b) = Some hs"
      using replica_agree [OF inv refl clash _ parent] hs(1) by (metis option.inject)
    moreover have "unat v < length ?vs" using m(4) by (intro IsProposer_bound) (simp add: a(4))
    then have "verify_envelope e hs envelope = None" if "env_verify_signatures e"
      using produced_verifies [OF m(1) that GetProposalHead_votes [OF m(7) a(3)] _ _ honest] hs(1) a(2) eq(1)
      by (simp add: same_validators_def)
    ultimately have "block_checked e (fc_storage d) envelope hs fs"
      using hs(2) fresh produced_signature_count [OF m(1)] eq(1) by (simp add: block_checked_def Let_def)
    then show ?thesis by (rule that) (simp add: eq(2) store_block_lookup)
  qed
qed

lemma ProduceBlock_size:
  assumes inv: "replica_inv e s0 b0 a" and "env_verify_signatures e"
    and produced: "ProduceBlock (env_hash e) sign slot v a = Some (Inr envelope, a')"
  shows "length (body_attestations (b_body (bwa_block (sb_message envelope)))) \<le> length (st_validators s0)"
    and "length (sb_signature envelope) = length (body_attestations (b_body (bwa_block (sb_message envelope)))) + 1"
    and "bwa_proposer_attestation (sb_message envelope) \<noteq> None"
proof -
  have a: "fc_inv (env_hash e) (b_parent_root b0) a" "votes_ok e (st_validators s0) a" using inv by (simp_all add: replica_inv_def)
  obtain fs c where c: "produced (env_hash e) sign slot v c envelope fs" "fc_inv (env_hash e) (b_parent_root b0) c"
    "GetProposalHead slot a = Some (fc_head c, c)"
    using a(1) by (cases rule: ProduceBlock_cases [where sign = sign and slot = slot and v = v]) (use produced in auto)
  then show "length (body_attestations (b_body (bwa_block (sb_message envelope)))) \<le> length (st_validators s0)"
    using produced_size [OF c(1) assms(2) GetProposalHead_votes [OF c(3) a(2)]] by (simp add: fc_inv_def)
  show "length (sb_signature envelope) = length (body_attestations (b_body (bwa_block (sb_message envelope)))) + 1"
    and "bwa_proposer_attestation (sb_message envelope) \<noteq> None"
    using produced_signature_count [OF c(1)] by simp_all
qed

text \<open>
  The block of an honest proposer is accepted: it passes the checks of every replica that knows the
  parent, or is already there.
\<close>

lemma honest_block_accepted:
  assumes "replica_init e s0 b0 c0" and "(fc_step e (b_parent_root b0))\<^sup>*\<^sup>* c0 a" and "(fc_step e (b_parent_root b0))\<^sup>*\<^sup>* c0 d"
    and made: "ProduceBlock (env_hash e) sign slot v a = Some (Inr envelope, a')"
    and honest: "\<And>message sig. sign (ucast slot) message = Inr sig \<Longrightarrow>
      Verify (env_cverify e) (list_of_bytes (val_pubkey (st_validators s0 ! unat v))) (ucast slot) message
        (list_of_bytes (bytes_of sig :: signature)) = None"
    and block: "block = bwa_block (sb_message envelope)" "r = block_root (env_hash e) block" "r \<noteq> b_parent_root b0"
    and clash: "no_clash (fc_storage a) (fc_storage a')" "no_clash (fc_storage a') (fc_storage d)"
    and parent: "Store_GetBlock d (b_parent_root block) \<noteq> None"
  shows "\<exists>d'. Store_ProcessBlock e now envelope d = Some (None, d') \<and> Store_GetBlock d' r = Some block \<and>
    (\<exists>s. GetState (fc_storage a') r = Some s \<and> GetState (fc_storage d') r = Some s)"
proof -
  have inv: "replica_inv e s0 b0 a" "replica_inv e s0 b0 d" using assms(1-3) by (auto intro: replica.inv_reachable)
  have fc: "fc_inv (env_hash e) (b_parent_root b0) a" "fc_inv (env_hash e) (b_parent_root b0) d"
    using inv by (simp_all add: replica_inv_def)
  obtain fs where a': "fc_storage a' = store_block r envelope fs (fc_storage a)"
    using ProduceBlock_stores [OF fc(1) made] block by blast
  have lookup: "GetBlock (fc_storage a') k = (if k = r then Some block else GetBlock (fc_storage a) k)" for k
    by (simp add: a' store_block_lookup block(1))
  have known: "GetBlock (fc_storage a) r \<in> {None, Some block}"
    using clash(1) by (cases "GetBlock (fc_storage a) r") (auto simp: no_clash_def lookup)
  have no_clash: "no_clash (fc_storage a) (fc_storage d)"
    using clash known by (auto simp: no_clash_def lookup split: if_splits)
  have inv': "replica_inv e s0 b0 a'"
    using ProduceBlock_replica [OF inv(1) made] known block by blast
  have at_a': "GetBlock (fc_storage a') r = Some block" by (simp add: lookup)
  show ?thesis
  proof (cases "GetBlock (fc_storage d) r")
    case (Some b)
    obtain d1 where d1: "advance_now now d = Some d1" "fc_storage d1 = fc_storage d"
      using advance_now_inv [OF fc(2), of now] by (metis same_chain_def)
    have "b = block" using clash(2) Some at_a' by (auto simp: no_clash_def)
    moreover have "Store_ProcessBlock e now envelope d = Some (None, d1)"
      using Some by (simp add: Store_ProcessBlock_def d1 Let_def block)
    moreover obtain s where "GetState (fc_storage a') r = Some s" "GetState (fc_storage d) r = Some s"
      by (rule replica_agree [OF inv' inv(2) refl clash(2) at_a' Some])
    ultimately show ?thesis using Some d1(2) by (auto simp: Store_GetBlock_def)
  next
    case None
    obtain p where p: "GetBlock (fc_storage d) (b_parent_root (bwa_block (sb_message envelope))) = Some p"
      using parent block(1) by (auto simp: Store_GetBlock_def)
    obtain ps fs where checked: "block_checked e (fc_storage d) envelope ps fs" and "GetState (fc_storage a') r = Some fs"
      using honest_block_checked [OF inv made honest no_clash p] None block by blast
    moreover obtain d' where "Store_ProcessBlock e now envelope d = Some (None, d')"
      "fc_storage d' = store_block r envelope fs (fc_storage d)"
      using Store_ProcessBlock_imports [OF fc(2) _ checked] block by blast
    ultimately show ?thesis by (auto simp: Store_GetBlock_def store_block_lookup block(1))
  qed
qed

text \<open>A block of the example's proposer for slot 1.\<close>

lemma ex_honest_block:
  obtains envelope a' where "ProduceBlock ex_hash ex_sign 1 1 ex_store = Some (Inr envelope, a')"
    and "block_root ex_hash (bwa_block (sb_message envelope)) = bytes_of [1, 1, 1]"
    and "no_clash (fc_storage ex_store) (fc_storage a')" and "no_clash (fc_storage a') (fc_storage ex_store)"
    and "Store_GetBlock ex_store (b_parent_root (bwa_block (sb_message envelope))) \<noteq> None"
proof -
  have roots: "bytes_of [1, 1, 1] \<noteq> (bytes_of [1, 0, 0] :: root)" "bytes_of [1, 0, 0] \<noteq> (bytes_of [1, 1, 1] :: root)"
    by code_simp+
  have "(case ProduceBlock ex_hash ex_sign 1 1 ex_store of
      Some (Inr envelope, _) \<Rightarrow> block_root ex_hash (bwa_block (sb_message envelope)) = bytes_of [1, 1, 1] \<and>
        b_parent_root (bwa_block (sb_message envelope)) = bytes_of [1, 0, 0] | _ \<Rightarrow> False)" by code_simp
  then obtain envelope a' where made: "ProduceBlock ex_hash ex_sign 1 1 ex_store = Some (Inr envelope, a')"
    and root: "block_root ex_hash (bwa_block (sb_message envelope)) = bytes_of [1, 1, 1]"
    and parent: "b_parent_root (bwa_block (sb_message envelope)) = bytes_of [1, 0, 0]"
    by (auto split: option.splits sum.splits)
  have e: "env_hash ex_env = ex_hash" by (simp add: ex_env_def)
  obtain fs where "fc_storage a' = store_block (bytes_of [1, 1, 1]) envelope fs (fc_storage ex_store)"
    using ProduceBlock_stores [OF ex_store_inv [unfolded e] made] by (auto simp: root)
  then show ?thesis
    by (intro that [OF made root])
      (auto simp: no_clash_def store_block_lookup ex_store_storage roots Store_GetBlock_def parent split: if_splits)
qed

lemma ex_honest_key:
  "Verify (env_cverify ex_env) (list_of_bytes (val_pubkey (st_validators ex_genesis ! unat (1 :: u64))))
     (ucast (1 :: u64)) message (list_of_bytes (bytes_of sig :: signature)) = None"
  by (rule ex_Verify) (simp add: ex_key)

end
