(* ===== verification/Finality.thy ===== *)
theory Finality
  imports Transition
begin

text \<open>
  What the votes of a whole chain amount to. \<open>statetransition\<close> keeps the votes for a target in the
  state until two thirds of the validators have voted, over as many blocks as that takes. Here the
  blocks of a chain are replayed from a state, and two invariants of the replay link the states with
  the attestations in the bodies: every vote on record and every justified slot goes back to
  attestations of the chain (\<open>backed\<close>), and no tally on record has reached two thirds
  (\<open>tallies_open\<close>). The first gives accountability, the second that votes are never wasted.
\<close>

subsection \<open>Replaying blocks\<close>

primrec replay :: "hasher \<Rightarrow> State \<Rightarrow> Block list \<Rightarrow> st_error + State" where
  "replay hash s [] = Inr s"
| "replay hash s (b # bs) = and_then (StateTransition hash s b) (\<lambda>s'. replay hash s' bs)"

definition bodies :: "Block list \<Rightarrow> Attestation set" where
  "bodies bs = (\<Union>b \<in> set bs. set (body_attestations (b_body b)))"

lemma replay_snoc: "replay hash s (bs @ [b]) = and_then (replay hash s bs) (\<lambda>s'. StateTransition hash s' b)"
  by (induction bs arbitrary: s) (auto simp: and_then_def split: sum.split)

lemma replay_snoc_Inr:
  "replay hash s (bs @ [b]) = Inr s'' \<longleftrightarrow> (\<exists>s'. replay hash s bs = Inr s' \<and> StateTransition hash s' b = Inr s'')"
  by (auto simp: replay_snoc and_then_eq_Inr_iff)

lemma bodies_snoc: "bodies (bs @ [b]) = bodies bs \<union> set (body_attestations (b_body b))"
  by (auto simp: bodies_def)

subsection \<open>Attestations that count\<close>

text \<open>An attestation whose target is a block of the history.\<close>

definition on_history :: "root list \<Rightarrow> Attestation \<Rightarrow> bool" where
  "on_history hist att \<longleftrightarrow>
     unat (cp_slot (target_of att)) < length hist \<and> hist ! unat (cp_slot (target_of att)) = cp_root (target_of att)"

lemma on_history_append: "on_history hist att \<Longrightarrow> on_history (hist @ rs) att"
  by (simp add: on_history_def nth_append)

text \<open>Other attestations are skipped.\<close>

lemma process_all_on_history:
  assumes "length (st_validators s) \<le> 4096"
  shows "process_all s atts vars = process_all s (filter (on_history (st_historical_block_hashes s)) atts) vars"
proof (induction atts rule: rev_induct)
  case (snoc att atts)
  let ?vars = "process_all s atts vars"
  have "process_all s (atts @ [att]) vars = ?vars" if "\<not> on_history (st_historical_block_hashes s) att"
    using that process_attestation_unfold [OF refl validators_bound [OF assms], of "cp_slot (st_latest_finalized s)" att ?vars]
    by (auto simp: process_all_snoc admissible_def on_history_def target_of_def Let_def)
  then show ?case using snoc by (auto simp: process_all_snoc)
qed simp

lemma process_all_votes_cast:
  assumes n: "length (st_validators s) \<le> 4096"
    and wf: "vars_wf (length (st_validators s)) (st_historical_block_hashes s) vars"
  shows "votes_cast (av_justifications vars) (length (st_validators s)) atts (process_all s atts vars)"
proof (induction atts rule: rev_induct)
  case Nil
  show ?case by (auto simp: votes_cast_def voters_def has_voted_def)
next
  case (snoc att atts)
  then show ?case
    using process_attestation_votes_cast [OF refl validators_bound [OF n] process_all_wf [OF n wf] snoc]
    by (simp add: process_all_snoc)
qed

subsection \<open>Votes and justified slots are backed by attestations\<close>

definition chain_voters :: "nat \<Rightarrow> root list \<Rightarrow> Attestation set \<Rightarrow> root \<Rightarrow> nat set" where
  "chain_voters n hist A r =
     {v. v < n \<and> (\<exists>att \<in> A. unat (att_validator att) = v \<and> cp_root (target_of att) = r \<and> on_history hist att)}"

definition backed :: "State \<Rightarrow> Attestation set \<Rightarrow> bool" where
  "backed s A \<longleftrightarrow>
     (let n = length (st_validators s); hist = st_historical_block_hashes s in
      (\<forall>r v. v < n \<longrightarrow> tally n (recorded_votes s) r ! v \<longrightarrow> v \<in> chain_voters n hist A r) \<and>
      (\<forall>k. slot_justified (st_justified_slots s) k \<longrightarrow>
        k = 0 \<or> 2 * n \<le> 3 * card (chain_voters n hist A (hist ! unat k))))"

lemma finite_chain_voters [simp]: "finite (chain_voters n hist A r)"
  by (rule finite_subset [of _ "{..<n}"]) (auto simp: chain_voters_def)

lemma chain_voters_mono: "A \<subseteq> A' \<Longrightarrow> chain_voters n hist A r \<subseteq> chain_voters n (hist @ rs) A' r"
  using on_history_append by (fastforce simp: chain_voters_def)

text \<open>
  The state a block's attestations are applied to: the votes on record are those of the state before,
  the history has grown, and no slot but the genesis slot has become justified.
\<close>

lemma StateTransition_parts:
  assumes tr: "StateTransition hash s b = Inr s'" and inv: "chain_state s" and bound: "unat (b_slot b) < 2 ^ 50"
  obtains s2 rs where "s' = ProcessAttestations s2 (body_attestations (b_body b))" and "state_wf s2"
    and "st_validators s2 = st_validators s" and "st_validators s \<noteq> []" and "recorded_votes s2 = recorded_votes s"
    and "st_historical_block_hashes s2 = st_historical_block_hashes s @ rs"
    and "cp_slot (st_latest_finalized s2) = cp_slot (st_latest_finalized s)"
    and "\<And>k. slot_justified (st_justified_slots s2) k \<Longrightarrow> slot_justified (st_justified_slots s) k \<or> k = 0"
    and "\<And>k. slot_justified (st_justified_slots s) k \<Longrightarrow> slot_justified (st_justified_slots s2) k"
proof -
  from tr obtain s1 s2 where s1: "st_slot s < b_slot b" "st_slot s1 = b_slot b" "same_but_slot s s1"
    and acc: "header_accepted hash s1 b" and l: "linked hash s1 b s2"
    and s': "s' = ProcessAttestations s2 (body_attestations (b_body b))"
    by (rule StateTransition_Inr)
  have inv1: "chain_state s1" using s1 inv by (intro same_but_slot_chain_state [OF s1(3)]) simp_all
  let ?h = "bh_slot (st_latest_block_header s1)" and ?js = "st_justified_slots s" and ?js2 = "st_justified_slots s2"
  have eq: "st_justified_slots s1 = ?js" "st_validators s1 = st_validators s"
      "st_justifications_roots s1 = st_justifications_roots s" "st_justifications_validators s1 = st_justifications_validators s"
      "st_historical_block_hashes s1 = st_historical_block_hashes s" "st_latest_finalized s1 = st_latest_finalized s"
    using s1(3) by (auto simp: same_but_slot_def)
  have wf: "bitlist_wf ?js" "BitlistLen ?js = unat ?h"
    using inv1 by (simp_all add: chain_state_def state_wf_def eq)
  let ?new = "(?h = 0) # replicate (unat (b_slot b) - unat ?h - 1) False"
  have bits: "bits_of ?js2 = bits_of ?js @ ?new" using l wf(1) by (simp add: linked_def Let_def eq)
  have new: "slot_justified ?js k \<or> k = 0" if k: "slot_justified ?js2 k" for k
  proof (rule ccontr)
    assume "\<not> (slot_justified ?js k \<or> k = 0)"
    then have old: "\<not> slot_justified ?js k" "k \<noteq> 0" by simp_all
    have "bits_of ?js2 ! unat k" using k by (simp add: slot_justified_def)
    then have "unat k = unat ?h \<and> ?h = 0"
      using old(1) k bits_of_prefix(1) [OF bits] wf(2)
      by (auto simp: bits nth_append slot_justified_def nth_Cons split: if_splits nat.splits)
    then have "unat k = unat (0 :: u64)" by simp
    then show False using old(2) by (simp only: word_unat_eq_iff)
  qed
  have "slot_justified ?js2 k" if "slot_justified ?js k" for k
    using that bits_of_prefix [OF bits] by (simp add: slot_justified_def)
  moreover have "st_validators s \<noteq> []" using acc by (auto simp: header_accepted_def IsProposer_def eq split: if_splits)
  moreover have "state_wf s2" using linked_chain_state [OF l acc inv1 bound] by (simp add: chain_state_def)
  moreover have vals: "st_validators s2 = st_validators s" "cp_slot (st_latest_finalized s2) = cp_slot (st_latest_finalized s)"
    using l by (auto simp: linked_def Let_def eq)
  moreover have "recorded_votes s2 = recorded_votes s"
    using l by (auto simp: recorded_votes_def vals(1) eq linked_def Let_def)
  moreover obtain rs where "st_historical_block_hashes s2 = st_historical_block_hashes s @ rs"
    using linked_history [OF l] by (auto simp: eq)
  ultimately show ?thesis using that [OF s'] new by blast
qed

lemma recorded_votes_ProcessAttestations:
  assumes "state_wf s"
  shows "map_of (recorded_votes (ProcessAttestations s atts)) = map_of (av_justifications (final_vars s atts))"
  using final_flat_votes(3) [OF assms, of atts] unfolding recorded_votes_def by (simp add: ProcessAttestations_final_vars)

lemma tally_cong: "map_of m = map_of m' \<Longrightarrow> tally n m r = tally n m' r"
  by (simp add: tally_def)

lemma backed_ProcessAttestations:
  assumes wf: "state_wf s" and "backed s A"
  shows "backed (ProcessAttestations s atts) (A \<union> set atts)"
proof -
  let ?n = "length (st_validators s)" and ?hist = "st_historical_block_hashes s"
  let ?atts = "filter (on_history ?hist) atts" and ?s' = "ProcessAttestations s atts"
  have n: "?n \<le> 4096" using wf by (simp add: state_wf_def)
  note ivars = initial_vars_wf [OF wf]
  have final: "final_vars s atts = process_all s ?atts (initial_vars s)"
    unfolding final_vars_def by (rule process_all_on_history [OF n])
  have old: "\<And>r v. v < ?n \<Longrightarrow> tally ?n (recorded_votes s) r ! v \<Longrightarrow> v \<in> chain_voters ?n ?hist A r"
    using assms(2) by (simp add: backed_def Let_def)
  have cast: "voters (recorded_votes s) ?n ?atts r \<subseteq> chain_voters ?n ?hist (A \<union> set atts) r" for r
    using old chain_voters_mono [of A "A \<union> set atts" ?n ?hist r "[]"]
    by (fastforce simp: voters_def has_voted_def chain_voters_def)
  have "v \<in> chain_voters ?n ?hist (A \<union> set atts) r" if "v < ?n" "tally ?n (recorded_votes ?s') r ! v" for r v
    using process_all_votes_cast [OF n ivars, of ?atts] that cast
    by (auto simp: tally_cong [OF recorded_votes_ProcessAttestations [OF wf]] final votes_cast_def)
  moreover have "k = 0 \<or> 2 * ?n \<le> 3 * card (chain_voters ?n ?hist (A \<union> set atts) (?hist ! unat k))"
    if k: "slot_justified (st_justified_slots ?s') k" for k
  proof (cases "slot_justified (st_justified_slots s) k")
    case True
    then have "k = 0 \<or> 2 * ?n \<le> 3 * card (chain_voters ?n ?hist A (?hist ! unat k))"
      using assms(2) by (simp add: backed_def Let_def)
    moreover have "card (chain_voters ?n ?hist A r) \<le> card (chain_voters ?n ?hist (A \<union> set atts) r)" for r
      using chain_voters_mono [of A "A \<union> set atts" ?n ?hist r "[]"] by (intro card_mono) auto
    ultimately show ?thesis by (meson le_trans mult_le_mono2)
  next
    case False
    have len: "BitlistLen (st_justified_slots ?s') = BitlistLen (st_justified_slots s)"
      using wf ProcessAttestations_state_wf [OF wf, of atts] by (simp add: state_wf_def)
    have "2 * ?n \<le> 3 * card (voters (recorded_votes s) ?n ?atts (?hist ! unat k))"
      using process_all_supermajority [OF refl n ivars, of ?atts "unat k"] k False len
      by (simp add: slot_justified_def ProcessAttestations_final_vars final)
    also have "\<dots> \<le> 3 * card (chain_voters ?n ?hist (A \<union> set atts) (?hist ! unat k))"
      using cast by (intro mult_le_mono2 card_mono) auto
    finally show ?thesis by simp
  qed
  ultimately show ?thesis by (simp add: backed_def Let_def)
qed

lemma backed_StateTransition:
  assumes "StateTransition hash s b = Inr s'" and "chain_state s" and "unat (b_slot b) < 2 ^ 50" and "backed s A"
  shows "backed s' (A \<union> set (body_attestations (b_body b)))"
proof -
  obtain s2 rs where s2: "s' = ProcessAttestations s2 (body_attestations (b_body b))" "state_wf s2"
    "st_validators s2 = st_validators s" "recorded_votes s2 = recorded_votes s"
    "st_historical_block_hashes s2 = st_historical_block_hashes s @ rs"
    "\<And>k. slot_justified (st_justified_slots s2) k \<Longrightarrow> slot_justified (st_justified_slots s) k \<or> k = 0"
    using StateTransition_parts [OF assms(1-3)] by metis
  let ?n = "length (st_validators s)" and ?hist = "st_historical_block_hashes s"
  have mono: "chain_voters ?n ?hist A r \<subseteq> chain_voters ?n (?hist @ rs) A r" for r by (rule chain_voters_mono) simp
  have "unat k < length ?hist" if "slot_justified (st_justified_slots s) k" for k
    using that assms(2) by (simp add: slot_justified_def chain_state_def state_wf_def)
  then have "k = 0 \<or> 2 * ?n \<le> 3 * card (chain_voters ?n (?hist @ rs) A ((?hist @ rs) ! unat k))"
    if "slot_justified (st_justified_slots s2) k" for k
    using s2(6) [OF that] assms(4) card_mono [OF finite_chain_voters mono, of "?hist ! unat k"]
    by (auto simp: backed_def Let_def nth_append intro: le_trans)
  then have "backed s2 A" using assms(4) mono by (simp add: backed_def Let_def s2) blast
  then show ?thesis unfolding s2(1) by (rule backed_ProcessAttestations [OF s2(2)])
qed

lemma backed_replay:
  assumes "chain_state s0" and "backed s0 {}" and "replay hash s0 bs = Inr s" and "\<forall>b \<in> set bs. unat (b_slot b) < 2 ^ 50"
  shows "chain_state s \<and> backed s (bodies bs) \<and> st_validators s = st_validators s0"
  using assms(3,4)
proof (induction bs arbitrary: s rule: rev_induct)
  case Nil
  then show ?case using assms(1,2) by (simp add: bodies_def)
next
  case (snoc b bs)
  then obtain s' where s': "replay hash s0 bs = Inr s'" "StateTransition hash s' b = Inr s"
    by (auto simp: replay_snoc_Inr)
  have IH: "chain_state s'" "backed s' (bodies bs)" "st_validators s' = st_validators s0" and b: "unat (b_slot b) < 2 ^ 50"
    using snoc s'(1) by auto
  obtain s2 where "s = ProcessAttestations s2 (body_attestations (b_body b))" "st_validators s2 = st_validators s'"
    using StateTransition_parts [OF s'(2) IH(1) b] by metis
  then show ?case
    using IH StateTransition_chain_state(1) [OF s'(2) IH(1) b] backed_StateTransition [OF s'(2) IH(1) b IH(2)]
    by (simp add: bodies_snoc)
qed

subsection \<open>Conflicting justification\<close>

lemma quorum_intersection:
  assumes "X \<subseteq> {..<n}" and "Y \<subseteq> {..<n}" and "2 * n \<le> 3 * card X" and "2 * n \<le> 3 * card Y"
  shows "n \<le> 3 * card (X \<inter> Y)"
proof -
  have "finite X" "finite Y" using assms(1,2) finite_subset by blast+
  then have "card X + card Y = card (X \<union> Y) + card (X \<inter> Y)" by (rule card_Un_Int)
  moreover have "card (X \<union> Y) \<le> n" using assms(1,2) card_mono [of "{..<n}" "X \<union> Y"] by simp
  ultimately show ?thesis using assms(3,4) by linarith
qed

text \<open>The validators with votes for two different targets at one slot.\<close>

definition double_votes :: "nat \<Rightarrow> Attestation set \<Rightarrow> Attestation set \<Rightarrow> u64 \<Rightarrow> nat set" where
  "double_votes n A B k =
     {v. v < n \<and> (\<exists>a \<in> A. \<exists>b \<in> B. unat (att_validator a) = v \<and> unat (att_validator b) = v \<and>
       cp_slot (target_of a) = k \<and> cp_slot (target_of b) = k \<and> cp_root (target_of a) \<noteq> cp_root (target_of b))}"

text \<open>The block root at a slot occurs at this slot only: neither an empty slot nor a collision.\<close>

definition only_at :: "root list \<Rightarrow> u64 \<Rightarrow> bool" where
  "only_at hist k \<longleftrightarrow> (\<forall>j < length hist. hist ! j = hist ! unat k \<longrightarrow> j = unat k)"

lemma only_at_target:
  "only_at hist k \<Longrightarrow> on_history hist att \<Longrightarrow> cp_root (target_of att) = hist ! unat k \<Longrightarrow> cp_slot (target_of att) = k"
  by (simp add: only_at_def on_history_def word_unat_eq_iff)

lemma backed_conflict:
  assumes "backed s A" and "backed s' B" and "st_validators s' = st_validators s" and "k \<noteq> 0"
    and "slot_justified (st_justified_slots s) k" and "slot_justified (st_justified_slots s') k"
    and "only_at (st_historical_block_hashes s) k" and "only_at (st_historical_block_hashes s') k"
    and "st_historical_block_hashes s ! unat k \<noteq> st_historical_block_hashes s' ! unat k"
  shows "length (st_validators s) \<le> 3 * card (double_votes (length (st_validators s)) A B k)"
proof -
  let ?n = "length (st_validators s)" and ?h = "st_historical_block_hashes s" and ?h' = "st_historical_block_hashes s'"
  let ?X = "chain_voters ?n ?h A (?h ! unat k)" and ?Y = "chain_voters ?n ?h' B (?h' ! unat k)"
  have "2 * ?n \<le> 3 * card ?X" "2 * ?n \<le> 3 * card ?Y"
    using assms(1-6) by (auto simp: backed_def Let_def)
  then have "?n \<le> 3 * card (?X \<inter> ?Y)" by (intro quorum_intersection) (auto simp: chain_voters_def)
  also have "\<dots> \<le> 3 * card (double_votes ?n A B k)"
  proof (intro mult_le_mono2 card_mono subsetI)
    show "finite (double_votes ?n A B k)" by (rule finite_subset [of _ "{..<?n}"]) (auto simp: double_votes_def)
    fix v assume "v \<in> ?X \<inter> ?Y"
    then obtain a b where ab: "v < ?n" "a \<in> A" "unat (att_validator a) = v" "cp_root (target_of a) = ?h ! unat k" "on_history ?h a"
      "b \<in> B" "unat (att_validator b) = v" "cp_root (target_of b) = ?h' ! unat k" "on_history ?h' b"
      by (auto simp: chain_voters_def)
    then have "cp_slot (target_of a) = k" "cp_slot (target_of b) = k"
      using only_at_target [OF assms(7)] only_at_target [OF assms(8)] by simp_all
    then show "v \<in> double_votes ?n A B k"
      using ab assms(9) unfolding double_votes_def mem_Collect_eq by (intro conjI bexI [of _ a] bexI [of _ b]) simp_all
  qed
  finally show ?thesis .
qed

lemma genesis_backed: "backed (GenerateGenesis hash genesisTime validators) {}"
proof -
  have "BitlistLen [1] = 0" by code_simp
  then show ?thesis
    by (simp add: backed_def GenerateGenesis_def Let_def recorded_votes_def tally_def slot_justified_def)
qed

subsection \<open>Votes are not wasted\<close>

text \<open>No tally has reached two thirds; one that does is closed at once.\<close>

definition open_tallies :: "nat \<Rightarrow> justifications \<Rightarrow> bool" where
  "open_tallies n m \<longleftrightarrow> (\<forall>r. 3 * card {v. v < n \<and> tally n m r ! v} < 2 * n)"

lemma count_votes_nat:
  assumes "length vs = n" and "n \<le> 4096"
  shows "3 * count_votes vs < 2 * of_nat n \<longleftrightarrow> 3 * card {v. v < n \<and> vs ! v} < 2 * n"
proof -
  let ?c = "length (filter (\<lambda>b. b) vs)"
  have c: "?c = card {v. v < n \<and> vs ! v}" using assms(1) by (simp add: length_filter_conv_card)
  have "?c \<le> 4096" using length_filter_le [of "\<lambda>b. b" vs] assms by linarith
  then have "unat (3 * count_votes vs) = 3 * ?c" "unat (2 * of_nat n :: u64) = 2 * n"
    using assms(2) by (simp_all add: count_votes_eq unat_word_ariths)
  then show ?thesis by (simp add: word_less_nat_alt c)
qed

lemma process_attestation_open:
  assumes n: "n = length (st_validators s)" "n \<le> 4096" and wf: "vars_wf n (st_historical_block_hashes s) vars"
    and opn: "open_tallies n (av_justifications vars)"
  shows "open_tallies n (av_justifications (process_attestation s (of_nat n) f att vars))"
proof -
  have bound: "n < 18446744073709551616" using n(2) by simp
  have "0 < 2 * n" using opn unfolding open_tallies_def by (metis gr_implies_not_zero neq0_conv)
  moreover have none: "{v. v < n \<and> replicate n False ! v} = {}" by auto
  ultimately show ?thesis
    using opn count_votes_nat [OF length_new_tally [OF wf] n(2), of att]
    by (auto simp: process_attestation_unfold [OF n(1) bound] record_vote_def justify_target_def open_tallies_def
        tally_update tally_delete none)
qed

lemma process_all_open:
  assumes "length (st_validators s) \<le> 4096"
    and "vars_wf (length (st_validators s)) (st_historical_block_hashes s) vars"
    and "open_tallies (length (st_validators s)) (av_justifications vars)"
  shows "open_tallies (length (st_validators s)) (av_justifications (process_all s atts vars))"
  using assms(3)
  by (induction atts rule: rev_induct)
    (simp_all add: process_all_snoc process_attestation_open [OF refl assms(1) process_all_wf [OF assms(1,2)]])

definition tallies_open :: "State \<Rightarrow> bool" where
  "tallies_open s \<longleftrightarrow> open_tallies (length (st_validators s)) (recorded_votes s)"

lemma tallies_open_StateTransition:
  assumes "StateTransition hash s b = Inr s'" and "chain_state s" and "unat (b_slot b) < 2 ^ 50" and "tallies_open s"
  shows "tallies_open s'"
proof -
  obtain s2 where s2: "s' = ProcessAttestations s2 (body_attestations (b_body b))" "state_wf s2"
    "st_validators s2 = st_validators s" "recorded_votes s2 = recorded_votes s"
    using StateTransition_parts [OF assms(1-3)] by metis
  have "open_tallies (length (st_validators s2)) (av_justifications (final_vars s2 (body_attestations (b_body b))))"
    unfolding final_vars_def
    using s2 assms(4) by (intro process_all_open initial_vars_wf) (simp_all add: state_wf_def tallies_open_def)
  then show ?thesis
    unfolding s2(1) tallies_open_def open_tallies_def
    by (simp add: tally_cong [OF recorded_votes_ProcessAttestations [OF s2(2)]])
qed

lemma tallies_open_replay:
  assumes "chain_state s0" and "tallies_open s0" and "replay hash s0 bs = Inr s" and "\<forall>b \<in> set bs. unat (b_slot b) < 2 ^ 50"
  shows "chain_state s \<and> tallies_open s"
  using assms(3,4)
proof (induction bs arbitrary: s rule: rev_induct)
  case (snoc b bs)
  then obtain s' where "replay hash s0 bs = Inr s'" "StateTransition hash s' b = Inr s" "unat (b_slot b) < 2 ^ 50"
    by (auto simp: replay_snoc_Inr)
  then show ?case
    using snoc StateTransition_chain_state(1) tallies_open_StateTransition by (metis butlast_snoc in_set_butlastD)
qed (use assms(1,2) in simp)

text \<open>
  A link from \<open>src\<close> to \<open>tgt\<close> that attestations of a block on state \<open>s\<close> can vote for: the source is
  justified, the target is a block of the history at a slot that is justifiable.
\<close>

definition open_link :: "State \<Rightarrow> att_vars \<Rightarrow> Checkpoint \<Rightarrow> Checkpoint \<Rightarrow> bool" where
  "open_link s vars src tgt \<longleftrightarrow>
     (let hist = st_historical_block_hashes s in
      cp_slot src < cp_slot tgt \<and> slot_justified (av_justified_slots vars) (cp_slot src) \<and>
      hist ! unat (cp_slot src) = cp_root src \<and>
      unat (cp_slot tgt) < length hist \<and> hist ! unat (cp_slot tgt) = cp_root tgt \<and> only_at hist (cp_slot tgt) \<and>
      IsJustifiableAfter (cp_slot tgt) (cp_slot (st_latest_finalized s)))"

lemma open_link_admissible:
  assumes "open_link s vars src tgt" and "vars_wf n (st_historical_block_hashes s) vars"
    and "\<not> slot_justified (av_justified_slots vars) (cp_slot tgt)" and "source_of att = src" and "target_of att = tgt"
    and "unat (att_validator att) < length (st_validators s)"
  shows "admissible s (cp_slot (st_latest_finalized s)) att (av_justified_slots vars)"
  using assms by (auto simp: open_link_def admissible_def source_of_def target_of_def Let_def slot_justified_def
      GetBit_bit_at vars_wf_def)

lemma process_all_slot_justified:
  assumes "length (st_validators s) \<le> 4096"
    and "vars_wf (length (st_validators s)) (st_historical_block_hashes s) vars"
    and "slot_justified (av_justified_slots vars) k"
  shows "slot_justified (av_justified_slots (process_all s atts vars)) k"
  using process_all_justified_mono [OF assms(1,2), of "unat k" atts] process_all_wf [OF assms(1,2), of atts] assms(2,3)
  by (simp add: slot_justified_def vars_wf_def)

definition link_voters :: "nat \<Rightarrow> Attestation list \<Rightarrow> Checkpoint \<Rightarrow> Checkpoint \<Rightarrow> nat set" where
  "link_voters n atts src tgt =
     {v. v < n \<and> (\<exists>att \<in> set atts. unat (att_validator att) = v \<and> source_of att = src \<and> target_of att = tgt)}"

text \<open>One attestation: the target is justified, or its votes stay and a vote for it is on record.\<close>

lemma process_attestation_records:
  assumes n: "n = length (st_validators s)" "n \<le> 4096" and wf: "vars_wf n (st_historical_block_hashes s) vars"
    and link: "open_link s vars src tgt" and fresh: "\<not> slot_justified (av_justified_slots vars) (cp_slot tgt)"
    and vars': "vars' = process_attestation s (of_nat n) (cp_slot (st_latest_finalized s)) att vars"
  shows "slot_justified (av_justified_slots vars') (cp_slot tgt) \<or>
    (\<forall>v < n. tally n (av_justifications vars) (cp_root tgt) ! v \<or>
        source_of att = src \<and> target_of att = tgt \<and> unat (att_validator att) = v \<longrightarrow>
      tally n (av_justifications vars') (cp_root tgt) ! v)"
proof -
  let ?f = "cp_slot (st_latest_finalized s)" and ?t = "\<lambda>vars. tally n (av_justifications vars) (cp_root tgt)"
  have bound: "n < 18446744073709551616" using n(2) by simp
  have len: "length (?t vars) = n" using wf by (simp add: vars_wf_def length_tally)
  have adm: "admissible s ?f att (av_justified_slots vars)"
    if "source_of att = src" "target_of att = tgt" "unat (att_validator att) < n"
    using open_link_admissible [OF link wf fresh that(1,2)] that(3) n(1) by simp
  consider (same) "vars' = vars" "admissible s ?f att (av_justified_slots vars) \<longrightarrow>
        tally n (av_justifications vars) (cp_root (target_of att)) ! unat (att_validator att)"
    | (recorded) "vars' = record_vote n att vars"
    | (justified) "vars' = justify_target n ?f att vars" "admissible s ?f att (av_justified_slots vars)"
    using process_attestation_unfold [OF n(1) bound, of ?f att vars] vars' by (auto split: if_splits)
  then show ?thesis
  proof cases
    case same
    then show ?thesis using adm by auto
  next
    case recorded
    have "xs[i := True] ! v" if "xs ! v \<or> v = i" "v < length xs" for xs :: "bool list" and i v
      using that by (cases "v = i") auto
    then show ?thesis using len by (auto simp: recorded record_vote_def tally_update new_tally_def)
  next
    case justified
    show ?thesis
    proof (cases "cp_root (target_of att) = cp_root tgt")
      case True
      have "cp_slot (target_of att) = cp_slot tgt"
        using link admissible_target [OF justified(2)] True
        by (intro only_at_target [of "st_historical_block_hashes s"]) (simp_all add: open_link_def Let_def on_history_def)
      then show ?thesis
        using justify_target_slots(2,3) [OF wf justified(2)] admissible_target [OF justified(2)] wf
        by (simp add: justified(1) slot_justified_def vars_wf_def)
    next
      case False
      then show ?thesis by (auto simp: justified(1) justify_target_def record_vote_def tally_update tally_delete)
    qed
  qed
qed

lemma process_all_records:
  assumes n: "n = length (st_validators s)" "n \<le> 4096" and wf: "vars_wf n (st_historical_block_hashes s) vars"
    and link: "open_link s vars src tgt"
  shows "slot_justified (av_justified_slots (process_all s atts vars)) (cp_slot tgt) \<or>
    link_voters n atts src tgt \<subseteq> {v. v < n \<and> tally n (av_justifications (process_all s atts vars)) (cp_root tgt) ! v}"
proof (induction atts rule: rev_induct)
  case Nil
  then show ?case by (simp add: link_voters_def)
next
  case (snoc att atts)
  let ?vars = "process_all s atts vars" and ?vars' = "process_all s (atts @ [att]) vars"
  have n': "length (st_validators s) \<le> 4096" and wf0: "vars_wf (length (st_validators s)) (st_historical_block_hashes s) vars"
    using n wf by simp_all
  have wf': "vars_wf n (st_historical_block_hashes s) ?vars" using process_all_wf [OF n' wf0] n(1) by simp
  show ?case
  proof (cases "slot_justified (av_justified_slots ?vars) (cp_slot tgt)")
    case True
    then show ?thesis
      using process_all_slot_justified [OF n' wf' [unfolded n(1)], of "cp_slot tgt" "[att]"] by (simp add: process_all_def)
  next
    case False
    have "open_link s ?vars src tgt" using link process_all_slot_justified [OF n' wf0] by (simp add: open_link_def Let_def)
    from process_attestation_records [OF n wf' this False process_all_snoc [of s atts att vars, folded n(1)]]
    show ?thesis using snoc False by (auto simp: link_voters_def)
  qed
qed

lemma supermajority_justified:
  assumes n: "n = length (st_validators s)" "n \<le> 4096" and wf: "vars_wf n (st_historical_block_hashes s) vars"
    and link: "open_link s vars src tgt" and opn: "open_tallies n (av_justifications vars)"
    and "2 * n \<le> 3 * card (link_voters n atts src tgt)"
  shows "slot_justified (av_justified_slots (process_all s atts vars)) (cp_slot tgt)"
proof (rule ccontr)
  let ?V = "{v. v < n \<and> tally n (av_justifications (process_all s atts vars)) (cp_root tgt) ! v}"
  assume "\<not> ?thesis"
  then have "link_voters n atts src tgt \<subseteq> ?V" using process_all_records [OF n wf link] by blast
  then have "card (link_voters n atts src tgt) \<le> card ?V" by (intro card_mono) simp_all
  moreover have "3 * card ?V < 2 * n"
    using process_all_open [of s vars atts] n wf opn by (simp add: open_tallies_def)
  ultimately show False using assms(6) by linarith
qed

text \<open>When all votes are for the link, the checkpoints follow it.\<close>

lemma uniform_votes_checkpoints:
  assumes n: "n = length (st_validators s)" "n \<le> 4096" and wf: "vars_wf n (st_historical_block_hashes s) vars"
    and fresh: "\<not> slot_justified (av_justified_slots vars) (cp_slot tgt)"
    and atts: "\<forall>att \<in> set atts. source_of att = src \<and> target_of att = tgt"
  shows "if slot_justified (av_justified_slots (process_all s atts vars)) (cp_slot tgt)
    then av_latest_justified (process_all s atts vars) = tgt \<and>
      av_latest_finalized (process_all s atts vars) =
        (if justifiable_gap (cp_slot src + 1) (cp_slot tgt) (cp_slot (st_latest_finalized s))
         then av_latest_finalized vars else src)
    else av_latest_finalized (process_all s atts vars) = av_latest_finalized vars"
  using atts
proof (induction atts rule: rev_induct)
  case Nil
  then show ?case using fresh by simp
next
  case (snoc att atts)
  let ?vars = "process_all s atts vars" and ?f = "cp_slot (st_latest_finalized s)"
  have n': "length (st_validators s) \<le> 4096" and wf0: "vars_wf (length (st_validators s)) (st_historical_block_hashes s) vars"
    and bound: "n < 18446744073709551616" using n wf by simp_all
  have wf': "vars_wf n (st_historical_block_hashes s) ?vars" using process_all_wf [OF n' wf0] n(1) by simp
  have att: "source_of att = src" "target_of att = tgt" using snoc.prems by simp_all
  have eq: "process_all s (atts @ [att]) vars = process_attestation s (of_nat n) ?f att ?vars"
    by (simp add: process_all_snoc n(1))
  from n(1) bound show ?case
  proof (cases rule: process_attestation_cases [where f = ?f and att = att and vars = ?vars])
    case justified
    have "slot_justified (av_justified_slots (justify_target n ?f att ?vars)) (cp_slot tgt)"
      using justify_target_slots(2,3) [OF wf' justified(2)] admissible_target [OF justified(2)] wf' att
      by (simp add: slot_justified_def vars_wf_def)
    moreover have "\<not> slot_justified (av_justified_slots ?vars) (cp_slot tgt)"
      using justified(2) wf' att(2) by (auto simp: admissible_def slot_justified_def target_of_def Let_def GetBit_bit_at vars_wf_def)
    ultimately show ?thesis using snoc by (simp add: eq justified(1)) (simp add: justify_target_def att)
  qed (use snoc in \<open>simp_all add: eq\<close>)
qed

lemma genesis_tallies_open: "validators \<noteq> [] \<Longrightarrow> tallies_open (GenerateGenesis hash genesisTime validators)"
  by (auto simp: tallies_open_def open_tallies_def GenerateGenesis_def Let_def recorded_votes_def tally_def
      intro: le_less_trans [of _ 0])

lemma ProcessAttestations_supermajority:
  assumes wf: "state_wf s" and opn: "tallies_open s" and link: "open_link s (initial_vars s) src tgt"
    and votes: "2 * length (st_validators s) \<le> 3 * card (link_voters (length (st_validators s)) atts src tgt)"
  shows "slot_justified (st_justified_slots (ProcessAttestations s atts)) (cp_slot tgt)"
    and "\<not> slot_justified (st_justified_slots s) (cp_slot tgt) \<Longrightarrow>
      \<forall>att \<in> set atts. source_of att = src \<and> target_of att = tgt \<Longrightarrow>
      st_latest_justified (ProcessAttestations s atts) = tgt \<and>
      (\<not> justifiable_gap (cp_slot src + 1) (cp_slot tgt) (cp_slot (st_latest_finalized s)) \<longrightarrow>
        st_latest_finalized (ProcessAttestations s atts) = src)"
proof -
  have n: "length (st_validators s) \<le> 4096" using wf by (simp add: state_wf_def)
  note ivars = initial_vars_wf [OF wf]
  have just: "slot_justified (av_justified_slots (final_vars s atts)) (cp_slot tgt)"
    unfolding final_vars_def using supermajority_justified [OF refl n ivars link _ votes] opn by (simp add: tallies_open_def)
  then show "slot_justified (st_justified_slots (ProcessAttestations s atts)) (cp_slot tgt)"
    by (simp add: ProcessAttestations_final_vars)
  show "st_latest_justified (ProcessAttestations s atts) = tgt \<and>
      (\<not> justifiable_gap (cp_slot src + 1) (cp_slot tgt) (cp_slot (st_latest_finalized s)) \<longrightarrow>
        st_latest_finalized (ProcessAttestations s atts) = src)"
    if "\<not> slot_justified (st_justified_slots s) (cp_slot tgt)" "\<forall>att \<in> set atts. source_of att = src \<and> target_of att = tgt"
    using uniform_votes_checkpoints [OF refl n ivars, of tgt atts src] just that
    by (auto simp: ProcessAttestations_final_vars final_vars_def)
qed

text \<open>The same for a block on a state whose tallies are open.\<close>

lemma StateTransition_supermajority:
  assumes s: "chain_state s" "tallies_open s" and tr: "StateTransition hash s b = Inr s'" and b: "unat (b_slot b) < 2 ^ 50"
    and atts: "atts = body_attestations (b_body b)" and hist: "hist = st_historical_block_hashes s'"
    and "cp_slot src < cp_slot tgt" and "slot_justified (st_justified_slots s) (cp_slot src)"
    and "hist ! unat (cp_slot src) = cp_root src" and "unat (cp_slot tgt) < length hist"
    and "hist ! unat (cp_slot tgt) = cp_root tgt" and "only_at hist (cp_slot tgt)"
    and "IsJustifiableAfter (cp_slot tgt) (cp_slot (st_latest_finalized s))"
    and "2 * length (st_validators s) \<le> 3 * card (link_voters (length (st_validators s)) atts src tgt)"
  shows "slot_justified (st_justified_slots s') (cp_slot tgt) \<and>
    (\<not> slot_justified (st_justified_slots s) (cp_slot tgt) \<longrightarrow>
     (\<forall>att \<in> set atts. source_of att = src \<and> target_of att = tgt) \<longrightarrow>
      st_latest_justified s' = tgt \<and>
      ((\<forall>k. cp_slot src < k \<longrightarrow> k < cp_slot tgt \<longrightarrow> \<not> IsJustifiableAfter k (cp_slot (st_latest_finalized s))) \<longrightarrow>
        st_latest_finalized s' = src))"
proof -
  obtain s2 rs where s2: "s' = ProcessAttestations s2 atts" "state_wf s2" "st_validators s2 = st_validators s"
      "recorded_votes s2 = recorded_votes s" "cp_slot (st_latest_finalized s2) = cp_slot (st_latest_finalized s)"
    and just: "\<And>k. slot_justified (st_justified_slots s2) k \<Longrightarrow> slot_justified (st_justified_slots s) k \<or> k = 0"
      "\<And>k. slot_justified (st_justified_slots s) k \<Longrightarrow> slot_justified (st_justified_slots s2) k"
    using StateTransition_parts [OF tr s(1) b] unfolding atts by metis
  have hist2: "st_historical_block_hashes s2 = hist" by (simp add: hist s2(1))
  have opn: "tallies_open s2" using s(2) s2(3,4) by (simp add: tallies_open_def)
  have link: "open_link s2 (initial_vars s2) src tgt"
    using assms(7-13) just(2) by (simp add: open_link_def Let_def hist2 s2(5))
  have votes: "2 * length (st_validators s2) \<le> 3 * card (link_voters (length (st_validators s2)) atts src tgt)"
    using assms(14) s2(3) by simp
  note pa = ProcessAttestations_supermajority [OF s2(2) opn link votes, folded s2(1), unfolded s2(5)]
  have "cp_slot tgt \<noteq> 0" using assms(7) by auto
  then have "\<not> slot_justified (st_justified_slots s2) (cp_slot tgt)" if "\<not> slot_justified (st_justified_slots s) (cp_slot tgt)"
    using just(1) that by blast
  moreover have "cp_slot src + 1 \<le> k \<Longrightarrow> cp_slot src < k" for k
    using assms(7) by (simp add: word_le_nat_alt word_less_nat_alt unat_Suc_u64 [of "cp_slot src" "cp_slot tgt"])
  ultimately show ?thesis using pa by (auto simp: justifiable_gap_iff)
qed

lemma genesis_replay:
  assumes "validators \<noteq> []" and "length validators \<le> 4096"
    and "replay hash (GenerateGenesis hash genesisTime validators) bs = Inr s" and "\<forall>b \<in> set bs. unat (b_slot b) < 2 ^ 50"
  shows "chain_state s" and "tallies_open s" and "st_validators s = validators"
proof -
  let ?g = "GenerateGenesis hash genesisTime validators"
  have g: "chain_state ?g" "st_validators ?g = validators"
    using assms(2) by (simp_all add: GenerateGenesis_chain_state) (simp add: GenerateGenesis_def Let_def)
  show "chain_state s" "tallies_open s" "st_validators s = validators"
    using tallies_open_replay [OF g(1) genesis_tallies_open [OF assms(1)] assms(3,4)]
      backed_replay [OF g(1) genesis_backed assms(3,4)] g(2) by simp_all
qed

subsection \<open>Theorems\<close>

text \<open>
  C6: two thirds are enough. On a chain from genesis, let a block carry votes of two thirds of
  the validators from a justified source to a target that is a block of the chain at a justifiable
  slot. Then the target is justified afterwards, whatever else the block and the chain contain. If the
  target was not justified before and the block has no other votes, the target is the latest justified
  checkpoint, and the source is final when no slot between the two is justifiable.
\<close>

theorem supermajority_justifies:
  assumes "validators \<noteq> []" and "length validators \<le> 4096"
    and "replay hash (GenerateGenesis hash genesisTime validators) bs = Inr s" and "StateTransition hash s b = Inr s'"
    and "\<forall>b' \<in> set (bs @ [b]). unat (b_slot b') < 2 ^ 50"
    and atts: "atts = body_attestations (b_body b)" and hist: "hist = st_historical_block_hashes s'"
    and "cp_slot src < cp_slot tgt" and "slot_justified (st_justified_slots s) (cp_slot src)"
    and "hist ! unat (cp_slot src) = cp_root src" and "unat (cp_slot tgt) < length hist"
    and "hist ! unat (cp_slot tgt) = cp_root tgt" and "only_at hist (cp_slot tgt)"
    and "IsJustifiableAfter (cp_slot tgt) (cp_slot (st_latest_finalized s))"
    and "2 * length validators \<le> 3 * card (link_voters (length validators) atts src tgt)"
  shows "slot_justified (st_justified_slots s') (cp_slot tgt) \<and>
    (\<not> slot_justified (st_justified_slots s) (cp_slot tgt) \<longrightarrow>
     (\<forall>att \<in> set atts. source_of att = src \<and> target_of att = tgt) \<longrightarrow>
      st_latest_justified s' = tgt \<and>
      ((\<forall>k. cp_slot src < k \<longrightarrow> k < cp_slot tgt \<longrightarrow> \<not> IsJustifiableAfter k (cp_slot (st_latest_finalized s))) \<longrightarrow>
        st_latest_finalized s' = src))"
proof -
  have s: "chain_state s" "tallies_open s" "st_validators s = validators"
    using genesis_replay [OF assms(1-3)] assms(5) by simp_all
  have "unat (b_slot b) < 2 ^ 50" using assms(5) by simp
  moreover have "2 * length (st_validators s) \<le> 3 * card (link_voters (length (st_validators s)) atts src tgt)"
    using assms(15) by (simp only: s(3))
  ultimately show ?thesis using StateTransition_supermajority [OF s(1,2) assms(4) _ atts hist assms(8-14)] by blast
qed

text \<open>
  The example: a block for slot \<open>n\<close>, 1 or 2, then a block with the votes of two validators for slot 1, which is
  empty if \<open>n\<close> is 2.
\<close>

definition ex_link_vote :: "root \<Rightarrow> u64 \<Rightarrow> Attestation" where
  "ex_link_vote r v =
     \<lparr>att_validator = v,
      att_data = \<lparr>ad_slot = v, ad_head = \<lparr>cp_root = r, cp_slot = 1\<rparr>,
        ad_target = \<lparr>cp_root = r, cp_slot = 1\<rparr>, ad_source = \<lparr>cp_root = bytes_of [1, 0, 0], cp_slot = 0\<rparr>\<rparr>\<rparr>"

definition ex_voting_block :: "u64 \<Rightarrow> root \<Rightarrow> Block" where
  "ex_voting_block n r =
     seal ex_hash (ex_child ex_genesis n)
       \<lparr>b_slot = n + 1, b_proposer = (n + 1) mod 3, b_parent_root = bytes_of [1, ucast n, ucast n], b_state_root = ZeroHash,
        b_body = \<lparr>body_attestations = [ex_link_vote r 0, ex_link_vote r 1]\<rparr>\<rparr>"

lemma ex_slot_mod: "n = 1 \<or> n = 2 \<Longrightarrow> n mod 3 = (n :: u64)"
  by (elim disjE) (simp_all only:, code_simp+)

lemma ex_child_fields:
  assumes n: "n = 1 \<or> n = 2"
  shows "StateTransition ex_hash ex_genesis (ex_block ex_genesis n) = Inr (ex_child ex_genesis n)"
    and "st_slot (ex_child ex_genesis n) = n" and "length (st_validators (ex_child ex_genesis n)) = 3"
    and "bh_slot (st_latest_block_header (ex_child ex_genesis n)) = n"
    and "bh_proposer (st_latest_block_header (ex_child ex_genesis n)) = n"
    and "st_historical_block_hashes (ex_child ex_genesis n) = bytes_of [1, 0, 0] # replicate (unat n - 1) ZeroHash"
    and "bits_of (st_justified_slots (ex_child ex_genesis n)) = True # replicate (unat n - 1) False"
    and "cp_slot (st_latest_finalized (ex_child ex_genesis n)) = 0"
proof -
  let ?g = "slots_loop ex_hash ex_genesis n"
  let ?b = "\<lparr>b_slot = n, b_proposer = n mod 3, b_parent_root = fst (BlockHeader_HashTreeRoot ex_hash (st_latest_block_header ?g)),
      b_state_root = ZeroHash, b_body = \<lparr>body_attestations = []\<rparr>\<rparr>"
  have genesis: "st_slot ex_genesis = 0" "length (st_validators ex_genesis) = 3"
      "bh_slot (st_latest_block_header ex_genesis) = 0" "st_historical_block_hashes ex_genesis = []"
      "st_justified_slots ex_genesis = [1]" "cp_slot (st_latest_finalized ex_genesis) = 0"
    by (auto simp: ex_genesis_def GenerateGenesis_def Let_def)
  have js: "bitlist_wf [1]" "bits_of [1] = []" by code_simp+
  have pos: "0 < n" using n by auto
  have frame: "same_but_slot ex_genesis ?g" "st_slot ?g = n"
    using slots_loop_frame [of ex_genesis n ex_hash] genesis(1) pos by simp_all
  then have g: "st_validators ?g = st_validators ex_genesis" "bh_slot (st_latest_block_header ?g) = 0"
      "st_historical_block_hashes ?g = []" "st_justified_slots ?g = [1]" "cp_slot (st_latest_finalized ?g) = 0"
    using genesis by (auto simp: same_but_slot_def)
  have "header_accepted ex_hash ?g ?b"
    using genesis(2) pos by (simp add: header_accepted_def frame(2) g IsProposer_def ex_slot_mod [OF n])
  then obtain s2 where l: "linked ex_hash ?g ?b s2"
    and tr: "StateTransition ex_hash ex_genesis (seal ex_hash ex_genesis ?b) = Inr (ProcessAttestations s2 [])"
    using StateTransition_seal [of ex_genesis ?b ex_hash] genesis(1) pos by auto
  have block: "ex_block ex_genesis n = seal ex_hash ex_genesis ?b" by (simp add: ex_block_def)
  then have child: "ex_child ex_genesis n = ProcessAttestations s2 []" using tr by (simp add: ex_child_def)
  then show "StateTransition ex_hash ex_genesis (ex_block ex_genesis n) = Inr (ex_child ex_genesis n)"
    using tr block by simp
  have parent: "b_parent_root ?b = bytes_of [1, 0, 0]" using ex_first_parent [of n] by (simp add: ex_block_def)
  show "st_slot (ex_child ex_genesis n) = n" "length (st_validators (ex_child ex_genesis n)) = 3"
      "bh_slot (st_latest_block_header (ex_child ex_genesis n)) = n" "bh_proposer (st_latest_block_header (ex_child ex_genesis n)) = n"
      "st_historical_block_hashes (ex_child ex_genesis n) = bytes_of [1, 0, 0] # replicate (unat n - 1) ZeroHash"
      "bits_of (st_justified_slots (ex_child ex_genesis n)) = True # replicate (unat n - 1) False"
      "cp_slot (st_latest_finalized (ex_child ex_genesis n)) = 0"
    using l frame(2) genesis(2) parent js
    by (auto simp: child linked_def Let_def g ex_slot_mod [OF n] ProcessAttestations_final_vars final_vars_def)
qed

lemma ex_child_justified:
  assumes n: "n = 1 \<or> n = 2"
  shows "slot_justified (st_justified_slots (ex_child ex_genesis n)) k \<longleftrightarrow> k = 0"
proof -
  let ?js = "st_justified_slots (ex_child ex_genesis n)"
  have len: "BitlistLen ?js = unat n" using arg_cong [OF ex_child_fields(7) [OF n], of length] n by auto
  have "bit_at ?js i = (True # replicate (unat n - 1) False) ! i" if "i < unat n" for i
    using nth_bits_of [of i ?js] that unfolding len ex_child_fields(7) [OF n] by simp
  then have "slot_justified ?js k \<longleftrightarrow> unat k < unat n \<and> (True # replicate (unat n - 1) False) ! unat k"
    unfolding slot_justified_def len by blast
  also have "\<dots> \<longleftrightarrow> k = 0"
  proof (cases "k = 0")
    case False
    then have "0 < unat k" by (simp add: unat_gt_0)
    then show ?thesis using False by (auto simp: nth_Cons')
  qed (use n in auto)
  finally show ?thesis .
qed

lemma ex_voting_chain:
  assumes n: "n = 1 \<or> n = 2"
  obtains s' where "StateTransition ex_hash (ex_child ex_genesis n) (ex_voting_block n r) = Inr s'"
    and "st_historical_block_hashes s' =
      bytes_of [1, 0, 0] # replicate (unat n - 1) ZeroHash @ [bytes_of [1, ucast n, ucast n]]"
proof -
  let ?s = "ex_child ex_genesis n" and ?g = "slots_loop ex_hash (ex_child ex_genesis n) (n + 1)"
  let ?b = "\<lparr>b_slot = n + 1, b_proposer = (n + 1) mod 3, b_parent_root = bytes_of [1, ucast n, ucast n], b_state_root = ZeroHash,
      b_body = \<lparr>body_attestations = [ex_link_vote r 0, ex_link_vote r 1]\<rparr>\<rparr>"
  note child = ex_child_fields [OF n]
  have lt: "n < n + 1" "unat (n + 1) - unat n - 1 = 0" using n by auto
  have frame: "same_but_slot ?s ?g" "st_slot ?g = n + 1"
    using slots_loop_frame [of ?s "n + 1" ex_hash] child(2) lt(1) by simp_all
  then have g: "st_validators ?g = st_validators ?s" "bh_slot (st_latest_block_header ?g) = n"
      "bh_proposer (st_latest_block_header ?g) = n"
      "st_historical_block_hashes ?g = bytes_of [1, 0, 0] # replicate (unat n - 1) ZeroHash"
    using child by (auto simp: same_but_slot_def)
  have "header_accepted ex_hash ?g ?b"
    using lt(1) by (simp add: header_accepted_def frame(2) g IsProposer_def ex_header_root child(3))
  then obtain s2 where "linked ex_hash ?g ?b s2" "StateTransition ex_hash ?s (seal ex_hash ?s ?b) =
      Inr (ProcessAttestations s2 [ex_link_vote r 0, ex_link_vote r 1])"
    using StateTransition_seal [of ?s ?b ex_hash] child(2) lt(1) by auto
  then show ?thesis using lt(2) by (intro that) (auto simp: ex_voting_block_def linked_def Let_def g)
qed

lemma ex_voting_body:
  "body_attestations (b_body (ex_voting_block n r)) = [ex_link_vote r 0, ex_link_vote r 1]" "b_slot (ex_voting_block n r) = n + 1"
  "source_of (ex_link_vote r v) = \<lparr>cp_root = bytes_of [1, 0, 0], cp_slot = 0\<rparr>"
  "target_of (ex_link_vote r v) = \<lparr>cp_root = r, cp_slot = 1\<rparr>"
  by (simp_all add: ex_voting_block_def ex_link_vote_def source_of_def target_of_def)

lemma ex_link_voters:
  "link_voters (Suc (Suc (Suc 0))) [ex_link_vote r 0, ex_link_vote r 1] \<lparr>cp_root = bytes_of [1, 0, 0], cp_slot = 0\<rparr>
     \<lparr>cp_root = r, cp_slot = 1\<rparr> = {0, 1}"
  by (auto simp: link_voters_def ex_voting_body) (auto simp: ex_link_vote_def)

abbreviation ex_validators :: "Validator list" where
  "ex_validators \<equiv> map (\<lambda>i. \<lparr>val_pubkey = bytes_of [ucast i], val_index = i\<rparr>) [0, 1, 2 :: u64]"

lemma ex_replay:
  "n = 1 \<or> n = 2 \<Longrightarrow>
     replay ex_hash (GenerateGenesis ex_hash 1000 ex_validators) [ex_block ex_genesis n] = Inr (ex_child ex_genesis n)"
  unfolding ex_genesis_def [symmetric] using ex_child_fields(1) by (simp add: and_then_def)

theorem supermajority_justifies_witness:
  "\<exists>s'. StateTransition ex_hash (ex_child ex_genesis 1) (ex_voting_block 1 (bytes_of [1, 1, 1])) = Inr s' \<and>
     slot_justified (st_justified_slots s') 1 \<and> st_latest_justified s' = \<lparr>cp_root = bytes_of [1, 1, 1], cp_slot = 1\<rparr> \<and>
     st_latest_finalized s' = \<lparr>cp_root = bytes_of [1, 0, 0], cp_slot = 0\<rparr>"
proof -
  let ?src = "\<lparr>cp_root = bytes_of [1, 0, 0], cp_slot = 0\<rparr>" and ?tgt = "\<lparr>cp_root = bytes_of [1, 1, 1], cp_slot = 1\<rparr>"
  let ?b = "ex_voting_block 1 (bytes_of [1, 1, 1])"
  obtain s' where s': "StateTransition ex_hash (ex_child ex_genesis 1) ?b = Inr s'"
    and hist: "st_historical_block_hashes s' = [bytes_of [1, 0, 0], bytes_of [1, 1, 1]]"
    using ex_voting_chain [of 1 "bytes_of [1, 1, 1]"] by auto
  have "bytes_of [1, 0, 0] \<noteq> (bytes_of [1, 1, 1] :: root)" by code_simp
  then have "only_at [bytes_of [1, 0, 0], bytes_of [1, 1, 1]] 1" by (auto simp: only_at_def less_Suc_eq)
  moreover have "IsJustifiableAfter 1 0" by code_simp
  ultimately have facts: "cp_slot ?src < cp_slot ?tgt" "slot_justified (st_justified_slots (ex_child ex_genesis 1)) (cp_slot ?src)"
      "st_historical_block_hashes s' ! unat (cp_slot ?src) = cp_root ?src"
      "unat (cp_slot ?tgt) < length (st_historical_block_hashes s')"
      "st_historical_block_hashes s' ! unat (cp_slot ?tgt) = cp_root ?tgt" "only_at (st_historical_block_hashes s') (cp_slot ?tgt)"
      "IsJustifiableAfter (cp_slot ?tgt) (cp_slot (st_latest_finalized (ex_child ex_genesis 1)))"
      "2 * length ex_validators \<le> 3 * card (link_voters (length ex_validators) (body_attestations (b_body ?b)) ?src ?tgt)"
    by (simp_all add: hist ex_voting_body ex_link_voters ex_child_fields(8) ex_child_justified)
  have small: "\<forall>b' \<in> set ([ex_block ex_genesis 1] @ [?b]). unat (b_slot b') < 2 ^ 50" by (simp add: ex_voting_body)
  have "ex_validators \<noteq> []" "length ex_validators \<le> 4096" by simp_all
  note main = supermajority_justifies [OF this ex_replay s' small refl refl facts]
  have "\<not> ((0 :: u64) < k \<and> k < 1)" for k by (auto simp: word_less_nat_alt)
  then show ?thesis using s' main by (simp add: ex_voting_body ex_child_justified)
qed

text \<open>
  Slots without a block can be justified. Their entry in the history is the zero hash, which an
  attestation can name as its target; the votes are kept per root, so that those for different empty
  slots are counted together: here slot 2, for which a single validator of three has voted.
\<close>

definition ex_empty_slots :: State where
  "ex_empty_slots = (ex_state [0x09] 0)\<lparr>st_historical_block_hashes := [ex_root 0, ZeroHash, ZeroHash]\<rparr>"

definition ex_empty_vote :: "u64 \<Rightarrow> u64 \<Rightarrow> Attestation" where
  "ex_empty_vote v slot =
     \<lparr>att_validator = v,
      att_data = \<lparr>ad_slot = 3, ad_head = \<lparr>cp_root = ex_root 0, cp_slot = 0\<rparr>,
        ad_target = \<lparr>cp_root = ZeroHash, cp_slot = slot\<rparr>, ad_source = \<lparr>cp_root = ex_root 0, cp_slot = 0\<rparr>\<rparr>\<rparr>"

lemma empty_slot_votes_pooled:
  "\<exists>s v w. state_wf s \<and> length (st_validators s) = 3 \<and> st_historical_block_hashes s ! 2 = ZeroHash \<and>
     (let s' = ProcessAttestations s [ex_empty_vote v 1, ex_empty_vote w 2] in
      slot_justified (st_justified_slots s') 2 \<and> st_latest_justified s' = \<lparr>cp_root = ZeroHash, cp_slot = 2\<rparr>)"
proof -
  have "state_wf ex_empty_slots" by code_simp
  moreover have "length (st_validators ex_empty_slots) = 3" "st_historical_block_hashes ex_empty_slots ! 2 = ZeroHash"
    by (simp_all add: ex_empty_slots_def ex_state_def)
  moreover have "let s' = ProcessAttestations ex_empty_slots [ex_empty_vote 0 1, ex_empty_vote 1 2] in
      slot_justified (st_justified_slots s') 2 \<and> st_latest_justified s' = \<lparr>cp_root = ZeroHash, cp_slot = 2\<rparr>"
    by code_simp
  ultimately show ?thesis by blast
qed

end
