(* ===== verification/Accountability.thy ===== *)
theory Accountability
  imports Agreement Finality
begin

text \<open>
  Accountability: nodes whose chains justify different blocks at one slot hold the evidence against a
  third of the validators. The invariant of replicas gives, for every stored state, the stored blocks
  it is the replay of; the invariants of chains turn its justified slots into attestations of two
  thirds of the validators in these blocks, all of them signed.
\<close>

subsection \<open>The chain of a stored state\<close>

lemma stored_chain:
  assumes m: "replayed hash s0 b0 m" "storage_inv hash ap m" and "GetState m r = Some s"
  shows "\<exists>bs. replay hash s0 bs = Inr s \<and>
    (\<forall>b \<in> set bs. b_slot b \<le> st_slot s \<and> (\<exists>k. k \<noteq> block_root hash b0 \<and> GetBlock m k = Some b))"
  using assms(3)
proof (induction "unat (st_slot s)" arbitrary: r s rule: less_induct)
  case less
  show ?case
  proof (cases "r = block_root hash b0")
    case True
    then show ?thesis using less.prems m(1) by (intro exI [of _ "[]"]) (simp add: replayed_def)
  next
    case False
    obtain b where b: "GetBlock m r = Some b" "st_slot s = b_slot b" by (rule storage_inv_state [OF m(2) less.prems])
    obtain ps where ps: "GetState m (b_parent_root b) = Some ps" "StateTransition hash ps b = Inr s"
      by (rule replayedD [OF m(1) False b(1) less.prems])
    have lt: "st_slot ps < st_slot s" using StateTransition_slots(1) [OF ps(2)] by (simp add: b(2))
    then obtain bs where "replay hash s0 bs = Inr ps"
      "\<forall>b \<in> set bs. b_slot b \<le> st_slot ps \<and> (\<exists>k. k \<noteq> block_root hash b0 \<and> GetBlock m k = Some b)"
      using less.hyps [of ps "b_parent_root b"] ps(1) unfolding word_less_nat_alt by blast
    then show ?thesis
      using ps(2) lt b False by (intro exI [of _ "bs @ [b]"]) (auto simp: replay_snoc_Inr intro: order.trans less_imp_le)
  qed
qed

subsection \<open>Evidence\<close>

definition stored_vote :: "env \<Rightarrow> Validator list \<Rightarrow> MemoryStore \<Rightarrow> Attestation \<Rightarrow> bool" where
  "stored_vote e vs m att \<longleftrightarrow>
     (\<exists>r b sig. GetBlock m r = Some b \<and> att \<in> set (body_attestations (b_body b)) \<and> vote_signed e vs att sig)"

text \<open>The validators with two signed votes in the stores, for different targets at one slot.\<close>

definition equivocators :: "env \<Rightarrow> Validator list \<Rightarrow> MemoryStore \<Rightarrow> MemoryStore \<Rightarrow> u64 \<Rightarrow> nat set" where
  "equivocators e vs m m' k =
     double_votes (length vs) {att. stored_vote e vs m att} {att. stored_vote e vs m' att} k"

lemma double_votes_mono: "A \<subseteq> A' \<Longrightarrow> B \<subseteq> B' \<Longrightarrow> double_votes n A B k \<subseteq> double_votes n A' B' k"
  unfolding double_votes_def by blast

lemma finite_double_votes: "finite (double_votes n A B k)"
  by (rule finite_subset [of _ "{..<n}"]) (auto simp: double_votes_def)

lemma replica_backed:
  assumes inv: "replica_inv e s0 b0 c" and "genesis_state (env_hash e) s0" and "env_verify_signatures e"
    and "GetState (fc_storage c) r = Some s" and "unat (st_slot s) < 2 ^ 50"
  obtains A where "backed s A" and "A \<subseteq> {att. stored_vote e (st_validators s0) (fc_storage c) att}"
proof -
  have m: "replayed (env_hash e) s0 b0 (fc_storage c)" "storage_inv (env_hash e) (b_parent_root b0) (fc_storage c)"
    and signed: "bodies_signed e (st_validators s0) (block_root (env_hash e) b0) (fc_storage c)"
    using inv by (simp_all add: replica_inv_def fc_inv_def)
  obtain bs where bs: "replay (env_hash e) s0 bs = Inr s" and stored: "\<And>b. b \<in> set bs \<Longrightarrow> b_slot b \<le> st_slot s"
      "\<And>b. b \<in> set bs \<Longrightarrow> \<exists>k. k \<noteq> block_root (env_hash e) b0 \<and> GetBlock (fc_storage c) k = Some b"
    using stored_chain [OF m assms(4)] by blast
  have "chain_state s0" "backed s0 {}"
    using assms(2) by (auto simp: genesis_state_def GenerateGenesis_chain_state genesis_backed)
  then have "backed s (bodies bs)"
    using backed_replay [OF _ _ bs] stored(1) assms(5) by (fastforce simp: word_le_nat_alt)
  moreover have "bodies bs \<subseteq> {att. stored_vote e (st_validators s0) (fc_storage c) att}"
    using stored(2) signed assms(3) unfolding bodies_def stored_vote_def bodies_signed_def body_signed_def by fastforce
  ultimately show ?thesis by (rule that)
qed

subsection \<open>Theorems\<close>

text \<open>
  C7: conflicting justification is attributable. Let two nodes run from the same genesis anchor, in
  whatever way, and let each hold a state in which slot \<open>k\<close> is justified, with different block roots at
  \<open>k\<close> (each root at no other slot of its history). Then at least a third of the validators signed two
  votes for different targets at slot \<open>k\<close>, and these votes are in blocks that the two nodes store.
\<close>

theorem conflicting_justification_attributable:
  assumes "replica_init e s0 b0 c0" and "genesis_state (env_hash e) s0" and "env_verify_signatures e"
    and "(fc_step e (b_parent_root b0))\<^sup>*\<^sup>* c0 a" and "(fc_step e (b_parent_root b0))\<^sup>*\<^sup>* c0 d"
    and "GetState (fc_storage a) r = Some s" and "GetState (fc_storage d) r' = Some s'"
    and "unat (st_slot s) < 2 ^ 50" and "unat (st_slot s') < 2 ^ 50" and "k \<noteq> 0"
    and "slot_justified (st_justified_slots s) k" and "slot_justified (st_justified_slots s') k"
    and "only_at (st_historical_block_hashes s) k" and "only_at (st_historical_block_hashes s') k"
    and "st_historical_block_hashes s ! unat k \<noteq> st_historical_block_hashes s' ! unat k"
  shows "length (st_validators s0) \<le> 3 * card (equivocators e (st_validators s0) (fc_storage a) (fc_storage d) k)"
proof -
  have inv: "replica_inv e s0 b0 a" "replica_inv e s0 b0 d" using assms(1,4,5) by (auto intro: replica.inv_reachable)
  have vals: "st_validators s = st_validators s0" "st_validators s' = st_validators s0"
    using inv assms(6,7) by (simp_all add: replica_inv_def same_validators_def)
  obtain A where A: "backed s A" "A \<subseteq> {att. stored_vote e (st_validators s0) (fc_storage a) att}"
    by (rule replica_backed [OF inv(1) assms(2,3,6,8)])
  obtain B where B: "backed s' B" "B \<subseteq> {att. stored_vote e (st_validators s0) (fc_storage d) att}"
    by (rule replica_backed [OF inv(2) assms(2,3,7,9)])
  have "length (st_validators s0) \<le> 3 * card (double_votes (length (st_validators s0)) A B k)"
    using backed_conflict [OF A(1) B(1) _ assms(10-15)] by (simp add: vals)
  also have "\<dots> \<le> 3 * card (equivocators e (st_validators s0) (fc_storage a) (fc_storage d) k)"
    unfolding equivocators_def by (intro mult_le_mono2 card_mono finite_double_votes double_votes_mono A(2) B(2))
  finally show ?thesis .
qed

text \<open>
  The example: two nodes, each of which gets the blocks of one of the example chains. One node justifies
  the block at slot 1, the other the empty slot 1. The library of the example accepts every signature.
\<close>

definition ex_open_env :: env where
  "ex_open_env = ex_env\<lparr>env_cverify := \<lambda>_ _ _ _. ResultOK\<rparr>"

definition ex_envelope_of :: "Block \<Rightarrow> SignedBlockWithAttestation" where
  "ex_envelope_of b =
     \<lparr>sb_message = \<lparr>bwa_block = b, bwa_proposer_attestation = None\<rparr>,
      sb_signature = map (\<lambda>_. bytes_of []) (body_attestations (b_body b))\<rparr>"

abbreviation ex_run :: "Store \<Rightarrow> bool" where
  "ex_run \<equiv> (fc_step ex_open_env (b_parent_root ex_anchor))\<^sup>*\<^sup>* ex_store"

lemma ex_open_env_fields: "env_hash ex_open_env = ex_hash" "env_verify_signatures ex_open_env"
  by (simp_all add: ex_open_env_def ex_env_def)

lemma ex_open_replica_init: "replica_init ex_open_env ex_genesis ex_anchor ex_store"
  using ex_replica_init by (simp add: replica_init_def ex_open_env_def)

lemma ex_vote_signed: "unat (att_validator att) < length vs \<Longrightarrow> vote_signed ex_open_env vs att sig"
  by (simp add: vote_signed_def ex_open_env_def ex_env_def Verify_None_iff Attestation_HashTreeRoot_def
      attestation_calls(1) ex_hash_def flip: length_0_conv)

lemma ex_import:
  assumes c: "ex_run c" and "block_root ex_hash b \<noteq> ZeroHash" and "GetBlock (fc_storage c) (block_root ex_hash b) = None"
    and "GetState (fc_storage c) (b_parent_root b) = Some ps" and "StateTransition ex_hash ps b = Inr s"
    and "\<forall>att \<in> set (body_attestations (b_body b)). unat (att_validator att) < length (st_validators ps)"
  obtains c' where "ex_run c'"
    and "fc_storage c' = store_block (block_root ex_hash b) (ex_envelope_of b) s (fc_storage c)"
proof -
  have inv: "fc_inv (env_hash ex_open_env) ZeroHash c"
    using replica.inv_reachable [OF ex_open_replica_init c] by (simp add: replica_inv_def ex_anchor_fields)
  have block: "bwa_block (sb_message (ex_envelope_of b)) = b" by (simp add: ex_envelope_of_def)
  have "verify_envelope ex_open_env ps (ex_envelope_of b) = None"
    using assms(6) verify_body_iff [of ex_open_env ps "sb_signature (ex_envelope_of b)" 0 "body_attestations (b_body b)"]
    by (simp add: verify_envelope_def block ex_vote_signed) (simp add: ex_envelope_of_def)
  then have "block_checked ex_open_env (fc_storage c) (ex_envelope_of b) ps s"
    using assms(3-5) by (simp add: block_checked_def block ex_open_env_fields Let_def) (simp add: ex_envelope_of_def)
  moreover have root: "block_root (env_hash ex_open_env) (bwa_block (sb_message (ex_envelope_of b))) \<noteq> ZeroHash"
    using assms(2) by (simp add: block ex_open_env_fields)
  ultimately obtain c' where "Store_ProcessBlock ex_open_env None (ex_envelope_of b) c = Some (None, c')"
    and "fc_storage c' = store_block (block_root ex_hash b) (ex_envelope_of b) s (fc_storage c)"
    using Store_ProcessBlock_imports [OF inv, of "ex_envelope_of b" ps s None] by (auto simp: block ex_open_env_fields)
  moreover from this(1) have "fc_step ex_open_env ZeroHash c c'" using root by (rule fc_step.process_block)
  ultimately show ?thesis using c by (intro that) (auto simp: ex_anchor_fields)
qed

lemma ex_voting_root:
  "block_root ex_hash (ex_voting_block n r) = bytes_of [1, ucast (n + 1), ucast ((n + 1) mod 3), 0, 0, 1, 1, 0, 1, 1, 1, 1, 0]"
  by (simp add: ex_voting_block_def seal_def ex_link_vote_def Block_HashTreeRoot_def Block_HashTreeRootWith_def
      BlockBody_HashTreeRootWith_def fixed_walk_defs ex_hash_def split: sum.split)

lemma ex_roots_distinct:
  assumes "n = 1 \<or> n = 2"
  shows "bytes_of [1, ucast n, ucast n] \<noteq> ZeroHash" "bytes_of [1, ucast n, ucast n] \<noteq> (bytes_of [1, 0, 0] :: root)"
    "block_root ex_hash (ex_voting_block n r) \<noteq> ZeroHash"
    "block_root ex_hash (ex_voting_block n r) \<noteq> bytes_of [1, 0, 0]"
    "block_root ex_hash (ex_voting_block n r) \<noteq> bytes_of [1, ucast n, ucast n]"
  using assms unfolding ex_voting_root by (elim disjE; simp only:; code_simp)+

lemma ex_voting_node:
  assumes n: "n = 1 \<or> n = 2" and hist: "hist = bytes_of [1, 0, 0] # replicate (unat n - 1) ZeroHash @ [bytes_of [1, ucast n, ucast n]]"
    and r: "hist ! 1 = r" and "only_at hist 1"
  obtains c s' where "ex_run c" and "GetState (fc_storage c) (block_root ex_hash (ex_voting_block n r)) = Some s'"
    and "unat (st_slot s') < 2 ^ 50" and "slot_justified (st_justified_slots s') 1" and "st_historical_block_hashes s' = hist"
proof -
  let ?first = "ex_block ex_genesis n" and ?b = "ex_voting_block n r"
  note differ = ex_roots_distinct [OF n] and fields = ex_child_fields [OF n]
  obtain s' where s': "StateTransition ex_hash (ex_child ex_genesis n) ?b = Inr s'" and h: "st_historical_block_hashes s' = hist"
    using ex_voting_chain [OF n] unfolding hist by metis
  have root: "block_root ex_hash ?first = bytes_of [1, ucast n, ucast n]" by (simp add: ex_block_root ex_slot_mod [OF n])
  obtain c1 where c1: "ex_run c1"
    "fc_storage c1 = store_block (bytes_of [1, ucast n, ucast n]) (ex_envelope_of ?first) (ex_child ex_genesis n) (fc_storage ex_store)"
    using ex_import [of ex_store ?first ex_genesis] fields(1) differ(1,2)
    by (auto simp: root ex_store_storage ex_first_parent)
  have "b_parent_root ?b = bytes_of [1, ucast n, ucast n]" by (simp add: ex_voting_block_def)
  then obtain c where c: "ex_run c"
    "fc_storage c = store_block (block_root ex_hash ?b) (ex_envelope_of ?b) s' (fc_storage c1)"
    using ex_import [OF c1(1), of ?b "ex_child ex_genesis n" s'] s' differ(3-5) fields(3)
    by (auto simp: c1(2) store_block_lookup ex_store_storage ex_voting_body ex_link_vote_def)
  have small: "unat (b_slot ?first) < 2 ^ 50" "unat (b_slot ?b) < 2 ^ 50" using n by (auto simp: ex_voting_body)
  have chain: "chain_state (ex_child ex_genesis n)" "tallies_open (ex_child ex_genesis n)"
    using genesis_replay [OF _ _ ex_replay [OF n]] small(1) by simp_all
  have "IsJustifiableAfter 1 0" by code_simp
  then have "slot_justified (st_justified_slots s') (cp_slot \<lparr>cp_root = r, cp_slot = 1\<rparr>)"
    using StateTransition_supermajority [OF chain s' small(2) refl h [symmetric], of "\<lparr>cp_root = bytes_of [1, 0, 0], cp_slot = 0\<rparr>"
        "\<lparr>cp_root = r, cp_slot = 1\<rparr>"] assms(3,4)
    by (simp add: hist ex_voting_body ex_link_voters fields(3,8) ex_child_justified [OF n] numeral_3_eq_3)
  moreover have "unat (st_slot s') < 2 ^ 50" using StateTransition_slots [OF s'] small(2) by simp
  ultimately show ?thesis using c h by (intro that [of c s']) (simp_all add: store_block_lookup)
qed

theorem conflicting_justification_attributable_witness:
  "\<exists>a d. ex_run a \<and> ex_run d \<and>
     3 \<le> 3 * card (equivocators ex_open_env (st_validators ex_genesis) (fc_storage a) (fc_storage d) 1)"
proof -
  let ?h = "[bytes_of [1, 0, 0], bytes_of [1, 1, 1]] :: root list" and ?h' = "[bytes_of [1, 0, 0], ZeroHash, bytes_of [1, 2, 2]] :: root list"
  have only: "only_at ?h 1" "only_at ?h' 1"
    using ex_roots_distinct(1,2) [of 1] ex_roots_distinct(1,2) [of 2] by (auto simp: only_at_def less_Suc_eq ex_roots_differ)
  obtain a s where a: "ex_run a" "GetState (fc_storage a) (block_root ex_hash (ex_voting_block 1 (bytes_of [1, 1, 1]))) = Some s"
    "unat (st_slot s) < 2 ^ 50" "slot_justified (st_justified_slots s) 1" "st_historical_block_hashes s = ?h"
    using ex_voting_node [of 1 ?h "bytes_of [1, 1, 1]"] only(1) by auto
  obtain d s' where d: "ex_run d" "GetState (fc_storage d) (block_root ex_hash (ex_voting_block 2 ZeroHash)) = Some s'"
    "unat (st_slot s') < 2 ^ 50" "slot_justified (st_justified_slots s') 1" "st_historical_block_hashes s' = ?h'"
    using ex_voting_node [of 2 ?h' ZeroHash] only(2) by auto
  have "genesis_state (env_hash ex_open_env) ex_genesis"
    by (auto simp: genesis_state_def ex_open_env_fields ex_genesis_def intro!: exI)
  then have "length (st_validators ex_genesis)
      \<le> 3 * card (equivocators ex_open_env (st_validators ex_genesis) (fc_storage a) (fc_storage d) 1)"
    by (rule conflicting_justification_attributable [OF ex_open_replica_init _ ex_open_env_fields(2) a(1) d(1) a(2) d(2) a(3) d(3) _ a(4) d(4)])
      (use only ex_roots_distinct(1) [of 1] in \<open>simp_all add: a(5) d(5)\<close>)
  then show ?thesis using a(1) d(1) by (auto simp: ex_genesis_fields)
qed

end
