(* ===== verification/Metrics.thy ===== *)
theory Metrics
  imports Machine
begin

text \<open>
  The Prometheus metrics: the table of collectors of \<open>observability/metrics/metrics.go\<close> with its registration, and the
  updates that the state transition, the fork choice store, the main loop and the start-up make. The updates of an
  operation are a list of events; the operations themselves are those of the other theories, whose results do not depend
  on the metrics. Durations are readings of the clock, so an observation has no value here; the argument of a
  conversion to \<open>float64\<close> is rounded as in \<open>Justifiable\<close>.
\<close>

subsection \<open>Collectors\<close>

datatype collector =
    NodeInfo | NodeStartTime
  | HeadSlot | CurrentSlot | SafeTargetSlot | ForkChoiceBlockProcessingTime
  | AttestationsValid | AttestationsInvalid | AttestationValidationTime
  | LatestJustifiedSlot | LatestFinalizedSlot | StateTransitionTime
  | STFSlotsProcessed | STFSlotsProcessingTime | STFBlockProcessingTime
  | STFAttestationsProcessed | STFAttestationsProcessingTime
  | ValidatorsCount | ConnectedPeers
  | SignatureVerificationTime | SigningTime | AggregateSizeBytes

text \<open>The kinds of collectors; the labels of a vector and the buckets, in thousandths of a second, of a histogram.\<close>

datatype collector_kind = Gauge | GaugeVec "string list" | Counter | Histogram "nat list"

record collector_opts =
  opt_kind :: collector_kind
  opt_name :: string
  opt_help :: string

abbreviation opts_of :: "collector_kind \<Rightarrow> string \<Rightarrow> string \<Rightarrow> collector_opts" where
  "opts_of k name help \<equiv> \<lparr>opt_kind = k, opt_name = name, opt_help = help\<rparr>"

definition fastBuckets :: "nat list" where
  "fastBuckets = [5, 10, 25, 50, 100, 1000]"

definition stfBuckets :: "nat list" where
  "stfBuckets = [250, 500, 750, 1000, 1250, 1500, 2000, 2500, 3000, 4000]"

fun collector_var :: "collector \<Rightarrow> collector_opts" where
  "collector_var NodeInfo =
     opts_of (GaugeVec [''name'', ''version'']) ''lean_node_info'' ''Node information (always 1)''"
| "collector_var NodeStartTime = opts_of Gauge ''lean_node_start_time_seconds'' ''Start timestamp''"
| "collector_var HeadSlot = opts_of Gauge ''lean_head_slot'' ''Latest slot of the lean chain''"
| "collector_var CurrentSlot = opts_of Gauge ''lean_current_slot'' ''Current slot of the lean chain''"
| "collector_var SafeTargetSlot = opts_of Gauge ''lean_safe_target_slot'' ''Safe target slot''"
| "collector_var ForkChoiceBlockProcessingTime =
     opts_of (Histogram fastBuckets) ''lean_fork_choice_block_processing_time_seconds'' ''Time taken to process block in fork choice''"
| "collector_var AttestationsValid = opts_of Counter ''lean_attestations_valid_total'' ''Total number of valid attestations''"
| "collector_var AttestationsInvalid = opts_of Counter ''lean_attestations_invalid_total'' ''Total number of invalid attestations''"
| "collector_var AttestationValidationTime =
     opts_of (Histogram fastBuckets) ''lean_attestation_validation_time_seconds'' ''Time taken to validate attestation''"
| "collector_var LatestJustifiedSlot = opts_of Gauge ''lean_latest_justified_slot'' ''Latest justified slot''"
| "collector_var LatestFinalizedSlot = opts_of Gauge ''lean_latest_finalized_slot'' ''Latest finalized slot''"
| "collector_var StateTransitionTime =
     opts_of (Histogram stfBuckets) ''lean_state_transition_time_seconds'' ''Time to process state transition''"
| "collector_var STFSlotsProcessed =
     opts_of Counter ''lean_state_transition_slots_processed_total'' ''Total number of processed slots''"
| "collector_var STFSlotsProcessingTime =
     opts_of (Histogram fastBuckets) ''lean_state_transition_slots_processing_time_seconds'' ''Time taken to process slots''"
| "collector_var STFBlockProcessingTime =
     opts_of (Histogram fastBuckets) ''lean_state_transition_block_processing_time_seconds'' ''Time taken to process block''"
| "collector_var STFAttestationsProcessed =
     opts_of Counter ''lean_state_transition_attestations_processed_total'' ''Total number of processed attestations''"
| "collector_var STFAttestationsProcessingTime =
     opts_of (Histogram fastBuckets) ''lean_state_transition_attestations_processing_time_seconds''
       ''Time taken to process attestations''"
| "collector_var ValidatorsCount = opts_of Gauge ''lean_validators_count'' ''Number of validators managed by a node''"
| "collector_var ConnectedPeers = opts_of Gauge ''lean_connected_peers'' ''Number of connected peers''"
| "collector_var SignatureVerificationTime =
     opts_of (Histogram [1, 5, 10, 25, 50, 100]) ''lean_signature_verification_time_seconds''
       ''Time to verify a single XMSS signature''"
| "collector_var SigningTime =
     opts_of (Histogram [5, 10, 25, 50, 100, 500]) ''lean_signing_time_seconds'' ''Time to produce a single XMSS signature''"
| "collector_var AggregateSizeBytes =
     opts_of Gauge ''lean_aggregate_size_bytes'' ''Size in bytes of the latest aggregated signature''"

subsection \<open>Registration\<close>

text \<open>
  The Prometheus library: whether a constructor returns, and the registration in a registry, \<open>None\<close> standing for
  its panic or error. As documented, a constructor returns if the buckets of a histogram increase and labels do not repeat, and
  a collector can be registered if its name is well formed and not taken.
\<close>

record 'r prom_lib =
  prom_new :: "collector_opts \<Rightarrow> bool"
  prom_register :: "'r \<Rightarrow> collector_opts \<Rightarrow> 'r option"
  prom_names :: "'r \<Rightarrow> string set"

definition well_shaped :: "collector_opts \<Rightarrow> bool" where
  "well_shaped opts \<longleftrightarrow>
     (case opt_kind opts of Histogram buckets \<Rightarrow> sorted_wrt (<) buckets | GaugeVec labels \<Rightarrow> distinct labels | _ \<Rightarrow> True)"

definition metric_name :: "string \<Rightarrow> bool" where
  "metric_name name \<longleftrightarrow> name \<noteq> [] \<and> set name \<subseteq> set ''abcdefghijklmnopqrstuvwxyz_''"

definition prometheus_ok :: "'r prom_lib \<Rightarrow> bool" where
  "prometheus_ok lib \<longleftrightarrow>
     (\<forall>opts. well_shaped opts \<longrightarrow> prom_new lib opts) \<and>
     (\<forall>r opts. prom_new lib opts \<longrightarrow> metric_name (opt_name opts) \<longrightarrow> opt_name opts \<notin> prom_names lib r \<longrightarrow>
       (\<exists>r'. prom_register lib r opts = Some r' \<and> prom_names lib r' = insert (opt_name opts) (prom_names lib r)))"

primrec MustRegister :: "'r prom_lib \<Rightarrow> collector_opts list \<Rightarrow> 'r \<Rightarrow> 'r option" where
  "MustRegister lib [] r = Some r"
| "MustRegister lib (opts # os) r = Option.bind (prom_register lib r opts) (MustRegister lib os)"

text \<open>The order of the calls in \<open>init\<close>.\<close>

definition collectors :: "collector list" where
  "collectors =
     [NodeInfo, NodeStartTime,
      HeadSlot, CurrentSlot, SafeTargetSlot, ForkChoiceBlockProcessingTime, AttestationsValid, AttestationsInvalid,
      AttestationValidationTime,
      LatestJustifiedSlot, LatestFinalizedSlot, StateTransitionTime, STFSlotsProcessed, STFSlotsProcessingTime,
      STFBlockProcessingTime, STFAttestationsProcessed, STFAttestationsProcessingTime,
      ValidatorsCount,
      ConnectedPeers,
      SignatureVerificationTime, SigningTime, AggregateSizeBytes]"

text \<open>The initialization of the package: the variables, then \<open>init\<close>.\<close>

definition metrics_init :: "'r prom_lib \<Rightarrow> 'r \<Rightarrow> 'r option" where
  "metrics_init lib r =
     (if list_all (\<lambda>k. prom_new lib (collector_var k)) collectors
      then MustRegister lib (map collector_var collectors) r else None)"

lemma set_collectors: "set collectors = UNIV"
proof -
  have "k \<in> set collectors" for k by (cases k) (simp_all add: collectors_def)
  then show ?thesis by blast
qed

lemma collector_shapes: "well_shaped (collector_var k)" "metric_name (opt_name (collector_var k))"
proof -
  have "list_all (\<lambda>k. well_shaped (collector_var k)) collectors" "list_all (\<lambda>k. metric_name (opt_name (collector_var k))) collectors"
    by code_simp+
  then show "well_shaped (collector_var k)" "metric_name (opt_name (collector_var k))"
    by (simp_all add: list_all_iff set_collectors)
qed

lemma collector_names_distinct: "distinct (map (opt_name \<circ> collector_var) collectors)"
  by code_simp

lemma prometheus_register:
  assumes "prometheus_ok lib" and "prom_new lib opts" and "metric_name (opt_name opts)" and "opt_name opts \<notin> prom_names lib r"
  shows "\<exists>r'. prom_register lib r opts = Some r' \<and> prom_names lib r' = insert (opt_name opts) (prom_names lib r)"
  using assms unfolding prometheus_ok_def by blast

lemma MustRegister_ok:
  assumes lib: "prometheus_ok lib" and "\<forall>opts \<in> set os. prom_new lib opts \<and> metric_name (opt_name opts)"
    and "distinct (map opt_name os)" and "opt_name ` set os \<inter> prom_names lib r = {}"
  shows "\<exists>r'. MustRegister lib os r = Some r' \<and> prom_names lib r' = opt_name ` set os \<union> prom_names lib r"
  using assms(2-4)
proof (induction os arbitrary: r)
  case (Cons opts os)
  obtain r1 where r1: "prom_register lib r opts = Some r1" "prom_names lib r1 = insert (opt_name opts) (prom_names lib r)"
    using prometheus_register [OF lib, of opts r] Cons.prems by auto
  have "opt_name ` set os \<inter> prom_names lib r1 = {}" using Cons.prems r1(2) by auto
  then show ?case using Cons.IH [of r1] Cons.prems r1 by auto
qed simp

text \<open>With a library as documented the package initializes, and every collector is registered.\<close>

lemma metrics_init_ok:
  assumes "prometheus_ok lib" and "range (opt_name \<circ> collector_var) \<inter> prom_names lib r = {}"
  shows "\<exists>r'. metrics_init lib r = Some r' \<and> prom_names lib r' = range (opt_name \<circ> collector_var) \<union> prom_names lib r"
proof -
  have "prom_new lib (collector_var k)" for k using assms(1) collector_shapes(1) by (simp add: prometheus_ok_def)
  then show ?thesis
    using MustRegister_ok [OF assms(1), of "map collector_var collectors" r] assms(2) collector_shapes(2) collector_names_distinct
    by (simp add: metrics_init_def list_all_iff image_comp set_collectors)
qed

subsection \<open>Updates\<close>

datatype metric_event =
    Inc collector | AddTo collector nat | SetTo collector nat | SetLabelled collector "string list" nat | Observe collector

text \<open>\<open>float64(x)\<close> of a \<open>uint64\<close>.\<close>

abbreviation float64 :: "u64 \<Rightarrow> nat" where
  "float64 x \<equiv> float64_of_uint64 (unat x)"

definition ProcessBlock_events :: "hasher \<Rightarrow> State \<Rightarrow> Block \<Rightarrow> metric_event list" where
  "ProcessBlock_events hash state block =
     (case ProcessBlockHeader hash state block of
        Inl _ \<Rightarrow> []
      | Inr s \<Rightarrow>
          [AddTo STFAttestationsProcessed (float64_of_uint64 (length (body_attestations (b_body block)))),
           Observe STFAttestationsProcessingTime, Observe STFBlockProcessingTime])"

definition StateTransition_events :: "hasher \<Rightarrow> State \<Rightarrow> Block \<Rightarrow> metric_event list" where
  "StateTransition_events hash state block =
     (case ProcessSlots hash state (b_slot block) of
        Inl _ \<Rightarrow> []
      | Inr s \<Rightarrow>
          [AddTo STFSlotsProcessed (float64 (b_slot block - st_slot state)), Observe STFSlotsProcessingTime] @
          ProcessBlock_events hash s block)"

definition processAttestationLocked_events :: "env \<Rightarrow> SignedAttestation \<Rightarrow> bool \<Rightarrow> Store \<Rightarrow> metric_event list" where
  "processAttestationLocked_events e sa isFromBlock c =
     (let data = sa_message sa;
          outcome =
            (if validateAttestationData c data \<noteq> None then AttestationsInvalid
             else if \<not> isFromBlock \<and> env_verify_signatures e \<and> verifyAttestationSignature e c sa \<noteq> None
             then AttestationsInvalid
             else if isFromBlock then AttestationsValid
             else if ad_slot data > fc_time c div IntervalsPerSlot then AttestationsInvalid
             else AttestationsValid)
      in [Inc outcome, Observe AttestationValidationTime])"

definition updateSafeTargetLocked_events :: "Store \<Rightarrow> metric_event list" where
  "updateSafeTargetLocked_events c =
     (case updateSafeTargetLocked c of
        None \<Rightarrow> []
      | Some c' \<Rightarrow>
          (case GetBlock (fc_storage c') (fc_safe_target c') of
             None \<Rightarrow> [] | Some block \<Rightarrow> [SetTo SafeTargetSlot (float64 (b_slot block))]))"

definition tickIntervalLocked_events :: "Store \<Rightarrow> metric_event list" where
  "tickIntervalLocked_events c0 =
     (let c = c0\<lparr>fc_time := fc_time c0 + 1\<rparr> in
      if fc_time c mod IntervalsPerSlot = 2 then updateSafeTargetLocked_events c else [])"

partial_function (option) advance_loop_events :: "u64 \<Rightarrow> bool \<Rightarrow> Store \<Rightarrow> metric_event list option" where
  "advance_loop_events tickInterval hasProposal c =
     (if fc_time c < tickInterval then
        let shouldSignal = hasProposal \<and> fc_time c + 1 = tickInterval in
        Option.bind (tickIntervalLocked shouldSignal c) (\<lambda>c'.
        Option.bind (advance_loop_events tickInterval hasProposal c') (\<lambda>evs.
        Some (tickIntervalLocked_events c @ evs)))
      else Some [])"

declare advance_loop_events.simps [code]

definition advance_now_events :: "u64 option \<Rightarrow> Store \<Rightarrow> metric_event list option" where
  "advance_now_events now c =
     (case now of
        None \<Rightarrow> Some []
      | Some t \<Rightarrow>
          if t \<le> fc_genesis_time c then Some []
          else advance_loop_events ((t - fc_genesis_time c) div SecondsPerInterval) False c)"

fun apply_body_events :: "env \<Rightarrow> signature list \<Rightarrow> nat \<Rightarrow> Attestation list \<Rightarrow> Store \<Rightarrow> metric_event list" where
  "apply_body_events e sigs i [] c = []"
| "apply_body_events e sigs i (att # atts) c =
     (let sa = \<lparr>sa_validator = att_validator att, sa_message = att_data att, sa_signature = sigs ! i\<rparr> in
      processAttestationLocked_events e sa True c @
      apply_body_events e sigs (i + 1) atts (processAttestationLocked e sa True c))"

definition import_block_events ::
    "env \<Rightarrow> root \<Rightarrow> SignedBlockWithAttestation \<Rightarrow> State \<Rightarrow> Store \<Rightarrow> metric_event list option" where
  "import_block_events e blockHash envelope state c =
     (let atts = body_attestations (b_body (bwa_block (sb_message envelope)));
          c3 = adopt_checkpoints state (c\<lparr>fc_storage := store_block blockHash envelope state (fc_storage c)\<rparr>);
          c4 = apply_body e (sb_signature envelope) 0 atts c3
      in map_option
           (\<lambda>c5. apply_body_events e (sb_signature envelope) 0 atts c3 @
              (case bwa_proposer_attestation (sb_message envelope) of
                 None \<Rightarrow> []
               | Some proposerAtt \<Rightarrow>
                   processAttestationLocked_events e
                     \<lparr>sa_validator = att_validator proposerAtt, sa_message = att_data proposerAtt,
                      sa_signature = sb_signature envelope ! length atts\<rparr> False c5) @
              [Observe ForkChoiceBlockProcessingTime])
           (updateHeadLocked c4))"

definition Store_ProcessBlock_events ::
    "env \<Rightarrow> u64 option \<Rightarrow> SignedBlockWithAttestation \<Rightarrow> Store \<Rightarrow> metric_event list option" where
  "Store_ProcessBlock_events e now envelope c0 =
     Option.bind (advance_now_events now c0) (\<lambda>evs.
     Option.bind (advance_now now c0) (\<lambda>c.
     let block = bwa_block (sb_message envelope);
         blockHash = fst (Block_HashTreeRoot (env_hash e) block)
     in case GetBlock (fc_storage c) blockHash of
          Some _ \<Rightarrow> Some evs
        | None \<Rightarrow>
     (case GetState (fc_storage c) (b_parent_root block) of
        None \<Rightarrow> Some evs
      | Some parentState \<Rightarrow>
     let evs1 = evs @ StateTransition_events (env_hash e) parentState block @ [Observe StateTransitionTime]
     in case StateTransition (env_hash e) parentState block of
        Inl err \<Rightarrow> Some evs1
      | Inr state \<Rightarrow>
        let numBodyAtts = length (body_attestations (b_body block));
            want = (if bwa_proposer_attestation (sb_message envelope) \<noteq> None
                    then numBodyAtts + 1 else numBodyAtts)
        in if length (sb_signature envelope) \<noteq> want then Some evs1
           else
             case (if env_verify_signatures e then verify_envelope e parentState envelope else None) of
               Some err \<Rightarrow> Some evs1
             | None \<Rightarrow> map_option ((@) evs1) (import_block_events e blockHash envelope state c))))"

definition ProcessAttestation_events :: "env \<Rightarrow> u64 option \<Rightarrow> SignedAttestation \<Rightarrow> Store \<Rightarrow> metric_event list option" where
  "ProcessAttestation_events e now sa c =
     Option.bind (advance_now_events now c) (\<lambda>evs.
     map_option (\<lambda>c'. evs @ processAttestationLocked_events e sa False c') (advance_now now c))"

text \<open>
  The block of \<open>Run\<close> at a slot boundary, with the last slot it has seen, and \<open>startMetrics\<close>, which reads the port and the
  validators of the configuration.
\<close>

definition slot_metrics :: "u64 \<Rightarrow> nat \<Rightarrow> Store \<Rightarrow> u64 \<Rightarrow> metric_event list \<times> u64" where
  "slot_metrics slot peerCount c lastSlot =
     (if slot \<noteq> lastSlot then
        let status = GetStatus c in
        ([SetTo CurrentSlot (float64 slot), SetTo HeadSlot (float64 (cs_head_slot status)),
          SetTo LatestFinalizedSlot (float64 (cs_finalized_slot status)),
          SetTo LatestJustifiedSlot (float64 (cs_justified_slot status)),
          SetTo ConnectedPeers (float64_of_uint64 peerCount)], slot)
      else ([], lastSlot))"

definition startMetrics :: "int \<Rightarrow> u64 list \<Rightarrow> string \<Rightarrow> u64 \<Rightarrow> metric_event list" where
  "startMetrics metricsPort validatorIDs version now =
     (if metricsPort \<le> 0 then []
      else [SetLabelled NodeInfo [''gean'', version] 1, SetTo NodeStartTime (float64 now),
            SetTo ValidatorsCount (float64_of_uint64 (length validatorIDs))])"

subsection \<open>Counting\<close>

text \<open>By how much the events raise a counter, and how often they observe a histogram.\<close>

fun raise_of :: "collector \<Rightarrow> metric_event \<Rightarrow> nat" where
  "raise_of k (Inc k') = (if k' = k then 1 else 0)"
| "raise_of k (AddTo k' x) = (if k' = k then x else 0)"
| "raise_of k _ = 0"

definition raised :: "collector \<Rightarrow> metric_event list \<Rightarrow> nat" where
  "raised k evs = (\<Sum>ev \<leftarrow> evs. raise_of k ev)"

definition observed :: "collector \<Rightarrow> metric_event list \<Rightarrow> nat" where
  "observed k evs = length (filter ((=) (Observe k)) evs)"

lemma raised_simps [simp]: "raised k [] = 0" "raised k (ev # evs) = raise_of k ev + raised k evs" "raised k (xs @ ys) = raised k xs + raised k ys"
  by (simp_all add: raised_def)

lemma observed_simps [simp]:
  "observed k [] = 0" "observed k (ev # evs) = (if ev = Observe k then 1 else 0) + observed k evs"
  "observed k (xs @ ys) = observed k xs + observed k ys"
  by (auto simp: observed_def)

text \<open>Advancing the clock only sets the gauge of the safe target.\<close>

definition quiet :: "metric_event list \<Rightarrow> bool" where
  "quiet evs \<longleftrightarrow> (\<forall>ev \<in> set evs. \<exists>x. ev = SetTo SafeTargetSlot x)"

lemma quiet_counts [simp]:
  assumes "quiet evs"
  shows "raised k evs = 0" and "observed k evs = 0"
  using assms by (induction evs) (auto simp: quiet_def)

lemma quiet_tick: "quiet (tickIntervalLocked_events c)"
  by (auto simp: quiet_def tickIntervalLocked_events_def updateSafeTargetLocked_events_def Let_def split: option.splits)

lemma advance_loop_events_quiet:
  assumes "fc_inv hash ap c"
  shows "\<exists>evs. advance_loop_events t hasProposal c = Some evs \<and> quiet evs"
  using assms
proof (induction "unat t - unat (fc_time c)" arbitrary: c rule: less_induct)
  case less
  show ?case
  proof (cases "fc_time c < t")
    case True
    obtain c1 where c1: "tickIntervalLocked (hasProposal \<and> fc_time c + 1 = t) c = Some c1" "fc_inv hash ap c1" "fc_time c1 = fc_time c + 1"
      by (rule tickIntervalLocked_inv [OF less.prems])
    have "unat t - unat (fc_time c1) < unat t - unat (fc_time c)"
      using True unat_Suc_u64 [OF True] by (simp add: c1(3) word_less_nat_alt)
    from less.hyps [OF this c1(2)] obtain evs where "advance_loop_events t hasProposal c1 = Some evs" "quiet evs" by blast
    then show ?thesis using True c1(1) quiet_tick [of c] by (subst advance_loop_events.simps) (auto simp: quiet_def)
  qed (subst advance_loop_events.simps, simp add: quiet_def)
qed

lemma advance_now_events_quiet:
  assumes "fc_inv hash ap c"
  obtains evs where "advance_now_events now c = Some evs" and "quiet evs"
proof (cases now)
  case (Some t)
  obtain evs where "advance_loop_events ((t - fc_genesis_time c) div SecondsPerInterval) False c = Some evs" "quiet evs"
    using advance_loop_events_quiet [OF assms] by blast
  then show ?thesis using that by (cases "t \<le> fc_genesis_time c") (simp_all add: advance_now_events_def Some quiet_def)
qed (use that in \<open>simp add: advance_now_events_def quiet_def\<close>)

text \<open>Every attestation is counted once, as valid or as invalid, and an invalid one leaves no trace in the store.\<close>

definition judged :: "metric_event list \<Rightarrow> nat" where
  "judged evs = raised AttestationsValid evs + raised AttestationsInvalid evs"

lemma judged_simps [simp]:
  "judged [] = 0" "judged (ev # evs) = raise_of AttestationsValid ev + raise_of AttestationsInvalid ev + judged evs"
  "judged (xs @ ys) = judged xs + judged ys" "quiet evs \<Longrightarrow> judged evs = 0"
  by (simp_all add: judged_def)

lemma processAttestationLocked_events_counts:
  "judged (processAttestationLocked_events e sa fromBlock c) = Suc 0"
  "observed AttestationValidationTime (processAttestationLocked_events e sa fromBlock c) = Suc 0"
  "observed ForkChoiceBlockProcessingTime (processAttestationLocked_events e sa fromBlock c) = 0"
  "k \<noteq> AttestationsValid \<Longrightarrow> k \<noteq> AttestationsInvalid \<Longrightarrow> raised k (processAttestationLocked_events e sa fromBlock c) = 0"
  by (simp_all add: processAttestationLocked_events_def Let_def)

lemma invalid_no_trace:
  assumes "raised AttestationsInvalid (processAttestationLocked_events e sa fromBlock c) \<noteq> 0"
  shows "processAttestationLocked e sa fromBlock c = c"
proof -
  consider "validateAttestationData c (sa_message sa) \<noteq> None"
    | "\<not> fromBlock" "env_verify_signatures e" "verifyAttestationSignature e c sa \<noteq> None"
    | "\<not> fromBlock" "fc_time c div IntervalsPerSlot < ad_slot (sa_message sa)"
    using assms unfolding processAttestationLocked_events_def Let_def
    by (cases "validateAttestationData c (sa_message sa) = None"; cases fromBlock;
        cases "verifyAttestationSignature e c sa = None"; cases "env_verify_signatures e";
        cases "fc_time c div IntervalsPerSlot < ad_slot (sa_message sa)") simp_all
  then show ?thesis by cases (simp_all add: processAttestationLocked_def Let_def)
qed

lemma apply_body_events_counts:
  "judged (apply_body_events e sigs i atts c) = length atts"
  "observed AttestationValidationTime (apply_body_events e sigs i atts c) = length atts"
  "observed ForkChoiceBlockProcessingTime (apply_body_events e sigs i atts c) = 0"
  "k \<noteq> AttestationsValid \<Longrightarrow> k \<noteq> AttestationsInvalid \<Longrightarrow> raised k (apply_body_events e sigs i atts c) = 0"
  by (induction atts arbitrary: i c) (simp_all add: processAttestationLocked_events_counts Let_def)

definition votes_in :: "SignedBlockWithAttestation \<Rightarrow> nat" where
  "votes_in envelope =
     length (body_attestations (b_body (bwa_block (sb_message envelope)))) +
     (if bwa_proposer_attestation (sb_message envelope) = None then 0 else 1)"

lemma import_block_events_counts:
  assumes "import_block e r envelope s c = Some c'"
  obtains evs where "import_block_events e r envelope s c = Some evs" and "judged evs = votes_in envelope"
    and "observed AttestationValidationTime evs = votes_in envelope" and "observed ForkChoiceBlockProcessingTime evs = 1"
    and "raised STFSlotsProcessed evs = 0" and "raised STFAttestationsProcessed evs = 0"
proof -
  let ?atts = "body_attestations (b_body (bwa_block (sb_message envelope)))"
  let ?c3 = "adopt_checkpoints s (c\<lparr>fc_storage := store_block r envelope s (fc_storage c)\<rparr>)"
  obtain c5 where c5: "updateHeadLocked (apply_body e (sb_signature envelope) 0 ?atts ?c3) = Some c5"
    using assms by (auto simp: import_block_def Let_def)
  note counts = processAttestationLocked_events_counts apply_body_events_counts
  show ?thesis
  proof (cases "bwa_proposer_attestation (sb_message envelope)")
    case None
    show ?thesis by (rule that, simp add: import_block_events_def c5 None Let_def) (simp_all add: counts votes_in_def None)
  next
    case (Some att)
    show ?thesis by (rule that, simp add: import_block_events_def c5 Some Let_def) (simp_all add: counts votes_in_def Some)
  qed
qed

lemma StateTransition_events_counts:
  "judged (StateTransition_events hash ps b) = 0" "observed AttestationValidationTime (StateTransition_events hash ps b) = 0"
  "observed ForkChoiceBlockProcessingTime (StateTransition_events hash ps b) = 0"
  by (simp_all add: StateTransition_events_def ProcessBlock_events_def split: sum.split)

lemma StateTransition_events_Inr:
  assumes "StateTransition hash ps b = Inr s" and "unat (b_slot b) < 2 ^ 53" and "length (body_attestations (b_body b)) < 2 ^ 53"
  shows "raised STFSlotsProcessed (StateTransition_events hash ps b) = unat (b_slot b) - unat (st_slot ps)"
    and "raised STFAttestationsProcessed (StateTransition_events hash ps b) = length (body_attestations (b_body b))"
proof -
  have "unat (b_slot b - st_slot ps) = unat (b_slot b) - unat (st_slot ps)"
    using StateTransition_slots(1) [OF assms(1)] by (simp add: unat_sub word_le_nat_alt word_less_nat_alt)
  then have "float64 (b_slot b - st_slot ps) = unat (b_slot b) - unat (st_slot ps)"
    using float64_of_uint64_error(3) [of "unat (b_slot b - st_slot ps)"] assms(2) by simp
  moreover have "float64_of_uint64 (length (body_attestations (b_body b))) = length (body_attestations (b_body b))"
    using float64_of_uint64_error(3) assms(3) by simp
  moreover obtain s1 s2 where "ProcessSlots hash ps (b_slot b) = Inr s1" "ProcessBlockHeader hash s1 b = Inr s2"
    using assms(1) by (auto simp: StateTransition_def ProcessBlock_def and_then_eq_Inr_iff)
  ultimately show "raised STFSlotsProcessed (StateTransition_events hash ps b) = unat (b_slot b) - unat (st_slot ps)"
    "raised STFAttestationsProcessed (StateTransition_events hash ps b) = length (body_attestations (b_body b))"
    by (simp_all add: StateTransition_events_def ProcessBlock_events_def)
qed

subsection \<open>Theorems\<close>



text \<open>The gauges of the checkpoints never go down as the store grows.\<close>

definition gauge :: "collector \<Rightarrow> metric_event list \<Rightarrow> nat option" where
  "gauge k evs = fold (\<lambda>ev g. case ev of SetTo k' x \<Rightarrow> if k' = k then Some x else g | _ \<Rightarrow> g) evs None"

lemma slot_gauges:
  assumes "slot \<noteq> lastSlot"
  shows "gauge LatestFinalizedSlot (fst (slot_metrics slot peerCount c lastSlot)) = Some (float64 (cp_slot (fc_latest_finalized c)))"
    and "gauge LatestJustifiedSlot (fst (slot_metrics slot peerCount c lastSlot)) = Some (float64 (cp_slot (fc_latest_justified c)))"
  using assms by (simp_all add: slot_metrics_def gauge_def GetStatus_def Let_def)

lemma checkpoint_gauges_grow:
  assumes "fc_grows c c'" and "unat (cp_slot (fc_latest_justified c')) < 2 ^ 53" and "unat (cp_slot (fc_latest_finalized c')) < 2 ^ 53"
  shows "float64 (cp_slot (fc_latest_justified c)) \<le> float64 (cp_slot (fc_latest_justified c'))"
    and "float64 (cp_slot (fc_latest_finalized c)) \<le> float64 (cp_slot (fc_latest_finalized c'))"
proof -
  have mono: "float64 x \<le> float64 y" if "x \<le> y" "unat y < 2 ^ 53" for x y :: u64
  proof -
    have "unat x \<le> unat y" using that(1) by (simp add: word_le_nat_alt)
    then show ?thesis using that(2) float64_of_uint64_error(3) [of "unat x"] float64_of_uint64_error(3) [of "unat y"] by simp
  qed
  show "float64 (cp_slot (fc_latest_justified c)) \<le> float64 (cp_slot (fc_latest_justified c'))"
    "float64 (cp_slot (fc_latest_finalized c)) \<le> float64 (cp_slot (fc_latest_finalized c'))"
    using assms by (auto simp: fc_grows_def intro: mono)
qed

text \<open>The time of a signature verification is registered as a metric, but handling votes and blocks never observes it.\<close>

lemma verification_not_timed:
  assumes inv: "fc_inv (env_hash e) ap c"
  shows "Store_ProcessBlock_events e now envelope c = Some evs \<Longrightarrow> observed SignatureVerificationTime evs = 0"
    and "ProcessAttestation_events e now sa c = Some evs \<Longrightarrow> observed SignatureVerificationTime evs = 0"
proof -
  obtain evs0 where evs0: "advance_now_events now c = Some evs0" "quiet evs0" by (rule advance_now_events_quiet [OF inv])
  then have q: "observed SignatureVerificationTime evs0 = 0" by simp
  have vote: "observed SignatureVerificationTime (processAttestationLocked_events e sa fromBlock c) = 0" for sa fromBlock c
    by (simp add: processAttestationLocked_events_def Let_def)
  have body: "observed SignatureVerificationTime (apply_body_events e sigs i atts c) = 0" for sigs i atts c
    by (induction atts arbitrary: i c) (simp_all add: vote Let_def)
  have imp: "observed SignatureVerificationTime evs1 = 0" if "import_block_events e r envelope s c1 = Some evs1" for r s c1 evs1
    using that by (auto simp: import_block_events_def Let_def vote body split: option.splits)
  have tr: "observed SignatureVerificationTime (StateTransition_events hash ps b) = 0" for hash ps b
    by (simp add: StateTransition_events_def ProcessBlock_events_def split: sum.split)
  show "observed SignatureVerificationTime evs = 0" if "Store_ProcessBlock_events e now envelope c = Some evs"
    using that q by (auto simp: Store_ProcessBlock_events_def evs0(1) Let_def bind_eq_Some_conv tr imp
        split: option.splits sum.splits if_splits)
  show "observed SignatureVerificationTime evs = 0" if "ProcessAttestation_events e now sa c = Some evs"
    using that q by (auto simp: ProcessAttestation_events_def evs0(1) vote)
qed

end
