(* ===== verification/LittleEndian.thy ===== *)
theory LittleEndian
  imports Prelude
begin

text \<open>
  The part of Go's package \<open>encoding/binary\<close> that the code uses, and slice expressions.
  \<open>le_put\<close> and \<open>le_get\<close> are \<open>LittleEndian.PutUint32/64\<close> and \<open>LittleEndian.Uint32/64\<close>
  at every width; \<open>PutUvarint\<close> and \<open>ReadUvarint\<close> are the loops of the variable-length
  encoding of \<open>uint64\<close>. An \<open>io.Reader\<close> is the list of the bytes it still has to deliver.
\<close>

unbundle bit_operations_syntax

subsection \<open>Slices\<close>

text \<open>
  The bytes of \<open>buf[a:b]\<close>. The expression panics when the bounds are not in order or lie behind the
  end; every other use of the bytes is of \<open>sub\<close>.
\<close>

definition sub :: "nat \<Rightarrow> nat \<Rightarrow> 'a list \<Rightarrow> 'a list" where
  "sub a b xs = take (b - a) (drop a xs)"

lemma length_sub [simp]: "a \<le> b \<Longrightarrow> b \<le> length xs \<Longrightarrow> length (sub a b xs) = b - a"
  by (simp add: sub_def)

lemma sub_left [simp]: "b \<le> length xs \<Longrightarrow> sub a b (xs @ ys) = sub a b xs"
  by (simp add: sub_def)

lemma sub_right [simp]: "length xs \<le> a \<Longrightarrow> sub a b (xs @ ys) = sub (a - length xs) (b - length xs) ys"
  by (simp add: sub_def)

lemma sub_all [simp]: "length xs \<le> b \<Longrightarrow> sub 0 b xs = xs"
  by (simp add: sub_def)

lemma sub_join: "a \<le> b \<Longrightarrow> b \<le> c \<Longrightarrow> sub a b xs @ sub b c xs = sub a c xs"
proof -
  assume "a \<le> b" "b \<le> c"
  then have "take (c - a) (drop a xs) = take (b - a) (drop a xs) @ take (c - b) (drop (b - a) (drop a xs))"
    using take_add [of "b - a" "c - b" "drop a xs"] by simp
  with \<open>a \<le> b\<close> show ?thesis by (simp add: sub_def)
qed

lemma sub_join_append: "a \<le> b \<Longrightarrow> b \<le> c \<Longrightarrow> sub a b xs @ sub b c xs @ ys = sub a c xs @ ys"
  by (simp only: append_assoc [symmetric] sub_join)

lemma drop_sub: "a \<le> length xs \<Longrightarrow> drop a xs = sub a (length xs) xs"
  by (simp add: sub_def)

lemmas sub_joins = sub_join sub_join_append

subsection \<open>Fixed width\<close>

fun le_put :: "nat \<Rightarrow> 'a::len word \<Rightarrow> byte list" where
  "le_put 0 v = []"
| "le_put (Suc n) v = ucast v # le_put n (drop_bit 8 v)"

fun le_get :: "byte list \<Rightarrow> 'a::len word" where
  "le_get [] = 0"
| "le_get (b # bs) = ucast b OR push_bit 8 (le_get bs)"

abbreviation PutUint64 :: "u64 \<Rightarrow> byte list" where "PutUint64 \<equiv> le_put 8"
abbreviation PutUint32 :: "u32 \<Rightarrow> byte list" where "PutUint32 \<equiv> le_put 4"
abbreviation Uint64 :: "byte list \<Rightarrow> u64" where "Uint64 \<equiv> le_get"
abbreviation Uint32 :: "byte list \<Rightarrow> u32" where "Uint32 \<equiv> le_get"

lemma length_le_put [simp]: "length (le_put n v) = n"
  by (induction n arbitrary: v) simp_all

lemma bit_le_get: "bit (le_get bs :: 'a::len word) i \<longleftrightarrow> i < LENGTH('a) \<and> i div 8 < length bs \<and> bit (bs ! (i div 8)) (i mod 8)"
proof (induction bs arbitrary: i)
  case (Cons b bs)
  show ?case
  proof (cases "i < 8")
    case True
    then show ?thesis by (auto simp: bit_simps)
  next
    case False
    then obtain k where "i = k + 8" by (metis le_Suc_ex not_less add.commute)
    then show ?thesis using Cons.IH [of k] bit_imp_le_length [of b "k + 8"] by (auto simp: bit_simps div_add_self2)
  qed
qed simp

lemma bit_nth_le_put: "i < n \<Longrightarrow> bit (le_put n (v :: 'a::len word) ! i) j \<longleftrightarrow> j < 8 \<and> bit v (8 * i + j)"
proof (induction n arbitrary: v i)
  case (Suc n)
  show ?case
  proof (cases i)
    case 0
    then show ?thesis by (auto simp: bit_simps dest: bit_imp_le_length)
  next
    case (Suc k)
    then show ?thesis using Suc.IH Suc.prems by (simp add: bit_simps add.assoc)
  qed
qed simp

lemma le_get_put: "LENGTH('a) \<le> 8 * n \<Longrightarrow> le_get (le_put n (v :: 'a::len word)) = v"
proof (rule bit_word_eqI)
  fix i assume "LENGTH('a) \<le> 8 * n" and "i < LENGTH('a)"
  then have "i div 8 < n" by auto
  then show "bit (le_get (le_put n v) :: 'a word) i \<longleftrightarrow> bit v i"
    using \<open>i < LENGTH('a)\<close> by (simp add: bit_le_get bit_nth_le_put)
qed

lemma le_put_get:
  assumes "8 * length bs \<le> LENGTH('a)"
  shows "le_put (length bs) (le_get bs :: 'a::len word) = bs"
proof (rule nth_equalityI)
  fix i assume "i < length (le_put (length bs) (le_get bs :: 'a word))"
  then have i: "i < length bs" by simp
  show "le_put (length bs) (le_get bs :: 'a word) ! i = bs ! i"
  proof (rule bit_word_eqI)
    fix j assume "j < LENGTH(8)"
    then have "j < 8" by simp
    moreover have "8 * i + j < LENGTH('a)" using i \<open>j < 8\<close> assms by linarith
    ultimately show "bit (le_put (length bs) (le_get bs :: 'a word) ! i) j = bit (bs ! i) j"
      using i by (simp add: bit_nth_le_put bit_le_get)
  qed
qed simp

lemma Uint64_PutUint64 [simp]: "Uint64 (PutUint64 v) = v"
  by (rule le_get_put) simp

lemma PutUint64_Uint64: "length bs = 8 \<Longrightarrow> PutUint64 (Uint64 bs) = bs"
  using le_put_get [of bs, where ?'a = 64] by simp

lemma Uint32_PutUint32 [simp]: "Uint32 (PutUint32 v) = v"
  by (rule le_get_put) simp

lemma PutUint32_Uint32: "length bs = 4 \<Longrightarrow> PutUint32 (Uint32 bs) = bs"
  using le_put_get [of bs, where ?'a = 32] by simp

subsection \<open>Variable width\<close>

datatype read_error = EOF | UnexpectedEOF | VarintOverflow

definition MaxVarintLen64 :: nat where "MaxVarintLen64 = 10"

function PutUvarint :: "u64 \<Rightarrow> byte list" where
  "PutUvarint x = (if x \<ge> 0x80 then (ucast x OR 0x80) # PutUvarint (drop_bit 7 x) else [ucast x])"
  by pat_completeness auto
termination
proof (relation "measure unat")
  fix x :: u64
  assume "0x80 \<le> x"
  then have "128 \<le> unat x" by (simp add: word_le_nat_alt)
  then show "(drop_bit 7 x, x) \<in> measure unat" by (simp add: drop_bit_eq_div unat_div)
qed simp

declare PutUvarint.simps [simp del]

text \<open>
  \<open>uvarint_loop i x s\<close> is the loop of \<open>ReadUvarint\<close> at its \<open>i\<close>-th byte; it returns the result
  and what is left in the reader.
\<close>

function uvarint_loop :: "nat \<Rightarrow> u64 \<Rightarrow> nat \<Rightarrow> byte list \<Rightarrow> (read_error + u64) \<times> byte list" where
  "uvarint_loop i x s bs =
     (if i < MaxVarintLen64 then
        case bs of
          [] \<Rightarrow> (Inl (if i > 0 then UnexpectedEOF else EOF), [])
        | b # bs' \<Rightarrow>
            if b < 0x80 then
              if i = MaxVarintLen64 - 1 \<and> b > 1 then (Inl VarintOverflow, bs')
              else (Inr (x OR push_bit s (ucast b)), bs')
            else uvarint_loop (i + 1) (x OR push_bit s (ucast (b AND 0x7f))) (s + 7) bs'
      else (Inl VarintOverflow, bs))"
  by pat_completeness auto
termination
  by (relation "measure (\<lambda>(i, _, _, _). MaxVarintLen64 - i)") auto

declare uvarint_loop.simps [simp del]

definition ReadUvarint :: "byte list \<Rightarrow> (read_error + u64) \<times> byte list" where
  "ReadUvarint bs = uvarint_loop 0 0 0 bs"

lemma bit_0x7f: "bit (0x7f :: int) n \<longleftrightarrow> n < 7"
proof -
  have "(0x7f :: int) = mask 7" by (simp add: mask_eq_exp_minus_1)
  then show ?thesis by (simp only: bit_mask_iff) simp
qed

lemma bit_0x80: "bit (0x80 :: int) n \<longleftrightarrow> n = 7"
proof -
  have "(0x80 :: int) = 2 ^ 7" by simp
  then show ?thesis by (simp only: bit_exp_iff) auto
qed

lemma PutUvarint_byte:
  fixes y :: u64
  shows "\<not> (ucast y OR 0x80 :: byte) < 0x80"
    and "ucast ((ucast y OR 0x80 :: byte) AND 0x7f) = y AND 0x7f"
proof -
  have "bit (ucast y OR 0x80 :: byte) 7" by (simp add: bit_simps)
  then have "bit (unat (ucast y OR 0x80 :: byte)) 7" by (simp add: bit_unsigned_iff)
  then have "take_bit 7 (unat (ucast y OR 0x80 :: byte)) \<noteq> unat (ucast y OR 0x80 :: byte)"
    by (metis bit_take_bit_iff less_irrefl)
  then have "\<not> unat (ucast y OR 0x80 :: byte) < 2 ^ 7" by (metis take_bit_nat_eq_self)
  then show "\<not> (ucast y OR 0x80 :: byte) < 0x80" by (simp add: word_less_nat_alt)
  show "ucast ((ucast y OR 0x80 :: byte) AND 0x7f) = y AND 0x7f"
    by (rule bit_word_eqI) (auto simp: bit_simps bit_0x7f bit_0x80)
qed

lemma uvarint_loop_put:
  "i < 10 \<Longrightarrow> unat y < 2 ^ (64 - 7 * i) \<Longrightarrow>
   uvarint_loop i x (7 * i) (PutUvarint y @ rest) = (Inr (x OR push_bit (7 * i) y), rest)"
proof (induction y arbitrary: i x rule: PutUvarint.induct)
  case (1 y)
  show ?case
  proof (cases "0x80 \<le> y")
    case True
    then have "128 \<le> unat y" by (simp add: word_le_nat_alt)
    then have i: "i < 9" using "1.prems" by (cases "i = 9") auto
    have "unat (drop_bit 7 y) < 2 ^ (64 - 7 * (i + 1))"
    proof -
      have "64 - 7 * i = 7 + (64 - 7 * (i + 1))" using i by simp
      then have "unat y < 2 ^ 7 * 2 ^ (64 - 7 * (i + 1))"
        using "1.prems"(2) by (simp only: power_add)
      then show ?thesis by (simp add: drop_bit_eq_div unat_div less_mult_imp_div_less mult.commute)
    qed
    then have "uvarint_loop (i + 1) (x OR push_bit (7 * i) (y AND 0x7f)) (7 * (i + 1)) (PutUvarint (drop_bit 7 y) @ rest) =
        (Inr ((x OR push_bit (7 * i) (y AND 0x7f)) OR push_bit (7 * (i + 1)) (drop_bit 7 y)), rest)"
      using i by (intro "1.IH" [OF True]) simp_all
    moreover have "(x OR push_bit (7 * i) (y AND 0x7f)) OR push_bit (7 * (i + 1)) (drop_bit 7 y) = x OR push_bit (7 * i) y"
    proof (rule bit_word_eqI)
      fix n
      have "7 + 7 * i \<le> n \<Longrightarrow> 7 + (n - (7 + 7 * i)) = n - 7 * i" by simp
      then show "bit ((x OR push_bit (7 * i) (y AND 0x7f)) OR push_bit (7 * (i + 1)) (drop_bit 7 y)) n =
          bit (x OR push_bit (7 * i) y) n"
        by (cases "7 + 7 * i \<le> n") (auto simp: bit_simps bit_0x7f)
    qed
    ultimately show ?thesis
      using True i PutUvarint_byte [of y]
      by (subst PutUvarint.simps, subst uvarint_loop.simps) (simp add: MaxVarintLen64_def add.commute)
  next
    case False
    then have y: "unat y < 128" by (simp add: word_le_nat_alt)
    then have u: "unat (ucast y :: byte) = unat y" by (simp add: unsigned_ucast_eq take_bit_nat_eq_self)
    have "ucast y < (0x80 :: byte)" using y u by (simp add: word_less_nat_alt)
    moreover have "ucast (ucast y :: byte) = y"
    proof -
      have "take_bit 8 (unat y) = unat y" using y by (simp add: take_bit_nat_eq_self)
      then have "unat (take_bit 8 y) = unat y" by (simp only: unsigned_take_bit_eq)
      then have "take_bit 8 y = y" by (simp only: word_unat_eq_iff)
      moreover have "ucast (ucast y :: byte) = take_bit 8 y" by (rule bit_word_eqI) (auto simp: bit_simps)
      ultimately show ?thesis by metis
    qed
    moreover have "i = 9 \<Longrightarrow> \<not> (ucast y :: byte) > 1"
      using "1.prems" u by (simp add: word_less_nat_alt)
    ultimately show ?thesis
      using False "1.prems"(1)
      by (subst PutUvarint.simps, subst uvarint_loop.simps) (auto simp: MaxVarintLen64_def)
  qed
qed

text \<open>A length written as a varint is read back, and the reader stands behind it.\<close>

lemma ReadUvarint_PutUvarint: "ReadUvarint (PutUvarint x @ rest) = (Inr x, rest)"
  using uvarint_loop_put [of 0 x 0 rest] by (simp add: ReadUvarint_def)

end
