(* ===== verification/Encoding.thy ===== *)
theory Encoding
  imports HashWalk Bitlist LittleEndian
begin

text \<open>
  The SSZ codecs of \<open>types/*_encoding.go\<close> for votes, headers and blocks: \<open>MarshalSSZTo\<close>,
  \<open>UnmarshalSSZ\<close> and \<open>SizeSSZ\<close> of every struct (the codec of the state is in
  \<open>StateEncoding\<close>).

  The functions of the fastssz package they call are not part of the repository: they are the fields of
  the record \<open>ssz_lib\<close>, an argument of every codec, and the locale \<open>ssz_library\<close> states what the
  SSZ specification and the package's documentation say of them. \<open>le_lib\<close>, the little-endian library of
  the specification, is shown to be one.

  A slice expression of the code is \<open>slice\<close>, which yields the error \<open>SlicePanic\<close> where Go would panic;
  that no decoder ever yields it, whatever bytes a peer sends, is a law of the interface \<open>codec\<close> that
  every type is shown to satisfy. The interface's other laws say that encoding appends to its buffer, that
  \<open>SizeSSZ\<close> is the size of the encoding, and that a byte string decodes to a value exactly when it is
  the encoding of that value: decoding inverts encoding, and no value has a second encoding.
\<close>

subsection \<open>The fastssz library\<close>

record ssz_lib =
  MarshalUint64 :: "byte list \<Rightarrow> u64 \<Rightarrow> byte list"
  UnmarshallUint64 :: "byte list \<Rightarrow> u64"
  WriteOffset :: "byte list \<Rightarrow> nat \<Rightarrow> byte list"
  ReadOffset :: "byte list \<Rightarrow> u64"
  DivideInt2 :: "nat \<Rightarrow> nat \<Rightarrow> nat \<Rightarrow> ssz_error + nat"
  ValidateBitlist :: "byte list \<Rightarrow> nat \<Rightarrow> ssz_error option"
  MarshalSSZ :: "(byte list \<Rightarrow> ssz_error + byte list) \<Rightarrow> nat \<Rightarrow> ssz_error + byte list"

text \<open>
  Numbers and offsets are appended to the buffer as 8 and 4 bytes, every 8 or 4 bytes being the encoding
  of one number; \<open>DivideInt2\<close> divides exactly and enforces a maximum; a bitlist is valid when it has a
  sentinel and no more data bits than its limit; \<open>MarshalSSZ\<close> calls the object's \<open>MarshalSSZTo\<close> on
  an empty buffer.
\<close>

locale ssz_library =
  fixes lib :: ssz_lib
  assumes uint64_append: "MarshalUint64 lib dst x = dst @ MarshalUint64 lib [] x"
    and uint64_length: "length (MarshalUint64 lib [] x) = 8"
    and uint64_read: "UnmarshallUint64 lib (MarshalUint64 lib [] x) = x"
    and uint64_canonical: "length bs = 8 \<Longrightarrow> MarshalUint64 lib [] (UnmarshallUint64 lib bs) = bs"
    and offset_append: "WriteOffset lib dst n = dst @ WriteOffset lib [] n"
    and offset_length: "length (WriteOffset lib [] n) = 4"
    and offset_read: "n < 2 ^ 32 \<Longrightarrow> unat (ReadOffset lib (WriteOffset lib [] n)) = n"
    and offset_canonical: "length bs = 4 \<Longrightarrow> WriteOffset lib [] (unat (ReadOffset lib bs)) = bs"
    and divide: "0 < b \<Longrightarrow> DivideInt2 lib a b m = Inr n \<longleftrightarrow> a = n * b \<and> n \<le> m"
    and divide_error: "DivideInt2 lib a b m \<noteq> Inl SlicePanic"
    and bitlist: "ValidateBitlist lib bs limit = None \<longleftrightarrow> bitlist_wf bs \<and> BitlistLen bs \<le> limit"
    and bitlist_error: "ValidateBitlist lib bs limit \<noteq> Some SlicePanic"
    and marshal: "MarshalSSZ lib f n = f []"

text \<open>The library of the specification: little-endian numbers, offsets of 32 bits.\<close>

definition le_lib :: ssz_lib where
  "le_lib =
     \<lparr>MarshalUint64 = (\<lambda>dst x. dst @ PutUint64 x),
      UnmarshallUint64 = Uint64,
      WriteOffset = (\<lambda>dst n. dst @ PutUint32 (of_nat n)),
      ReadOffset = (\<lambda>bs. ucast (Uint32 bs)),
      DivideInt2 = (\<lambda>a b m. if a mod b = 0 \<and> a div b \<le> m then Inr (a div b) else Inl ErrDivideInt),
      ValidateBitlist = (\<lambda>bs limit. if bs \<noteq> [] \<and> last bs \<noteq> 0 \<and> BitlistLen bs \<le> limit then None else Some ErrInvalidBitlist),
      MarshalSSZ = (\<lambda>f n. f [])\<rparr>"

interpretation le: ssz_library le_lib
proof unfold_locales
  fix n :: nat
  assume "n < 2 ^ 32"
  then show "unat (ReadOffset le_lib (WriteOffset le_lib [] n)) = n"
    by (simp add: le_lib_def unsigned_ucast_eq unat_of_nat take_bit_nat_eq_self)
next
  fix bs :: "byte list"
  assume "length bs = 4"
  then show "WriteOffset le_lib [] (unat (ReadOffset le_lib bs)) = bs"
    using unsigned_less [of "Uint32 bs", where ?'a = nat]
    by (simp add: le_lib_def unsigned_ucast_eq take_bit_nat_eq_self PutUint32_Uint32)
qed (auto simp: le_lib_def PutUint64_Uint64 bitlist_wf_def)

subsection \<open>Slices and loops\<close>

definition slice :: "nat \<Rightarrow> nat \<Rightarrow> byte list \<Rightarrow> ssz_error + byte list" where
  "slice a b buf = (if a \<le> b \<and> b \<le> length buf then Inr (sub a b buf) else Inl SlicePanic)"

lemma slice_in_range [simp]: "a \<le> b \<Longrightarrow> b \<le> length buf \<Longrightarrow> slice a b buf = Inr (sub a b buf)"
  by (simp add: slice_def)

text \<open>\<open>copy(dst[:], buf[a:b])\<close> and \<open>append(dst, src[:]...)\<close> for an array.\<close>

definition read_array :: "nat \<Rightarrow> nat \<Rightarrow> byte list \<Rightarrow> ssz_error + 'n::len bytes" where
  "read_array a b buf = and_then (slice a b buf) (\<lambda>bs. Inr (bytes_of bs))"

definition write_array :: "'n::len bytes \<Rightarrow> byte list \<Rightarrow> ssz_error + byte list" where
  "write_array x dst = Inr (dst @ list_of_bytes x)"

definition read_uint64 :: "ssz_lib \<Rightarrow> nat \<Rightarrow> nat \<Rightarrow> byte list \<Rightarrow> ssz_error + u64" where
  "read_uint64 lib a b buf = and_then (slice a b buf) (\<lambda>bs. Inr (UnmarshallUint64 lib bs))"

text \<open>The loops over the elements of a list: both stop at the first error.\<close>

fun write_items :: "('a \<Rightarrow> byte list \<Rightarrow> ssz_error + byte list) \<Rightarrow> 'a list \<Rightarrow> byte list \<Rightarrow> ssz_error + byte list" where
  "write_items to [] dst = Inr dst"
| "write_items to (x # xs) dst = and_then (to x dst) (write_items to xs)"

fun read_items :: "(byte list \<Rightarrow> ssz_error + 'a) \<Rightarrow> nat \<Rightarrow> nat list \<Rightarrow> byte list \<Rightarrow> ssz_error + 'a list" where
  "read_items dec w [] buf = Inr []"
| "read_items dec w (ii # iis) buf =
     and_then (slice (ii * w) ((ii + 1) * w) buf) (\<lambda>bs.
     and_then (dec bs) (\<lambda>x.
     and_then (read_items dec w iis buf) (\<lambda>xs. Inr (x # xs))))"

definition written :: "(byte list \<Rightarrow> ssz_error + byte list) \<Rightarrow> byte list" where
  "written f = (case f [] of Inl _ \<Rightarrow> [] | Inr bs \<Rightarrow> bs)"

subsection \<open>Interfaces\<close>

text \<open>An element of a list: a fixed, positive number of bytes that decode to it alone.\<close>

locale item =
  fixes to :: "'a \<Rightarrow> byte list \<Rightarrow> ssz_error + byte list" and dec :: "byte list \<Rightarrow> ssz_error + 'a" and w :: nat
  assumes to_item: "to x dst = Inr (dst @ written (to x))"
    and length_item: "length (written (to x)) = w"
    and dec_item: "length bs = w \<Longrightarrow> dec bs = Inr x \<longleftrightarrow> bs = written (to x)"
    and item_no_panic: "length bs = w \<Longrightarrow> dec bs \<noteq> Inl SlicePanic"
begin

lemma write_items_concat: "write_items to xs dst = Inr (dst @ concat (map (\<lambda>x. written (to x)) xs))"
  by (induction xs arbitrary: dst) (simp_all add: to_item)

lemma length_items: "length (concat (map (\<lambda>x. written (to x)) xs)) = length xs * w"
  by (induction xs) (simp_all add: length_item)

lemma read_items_from:
  "k \<le> n \<Longrightarrow> length buf = n * w \<Longrightarrow>
   read_items dec w [k..<n] buf = Inr xs \<longleftrightarrow>
     length xs = n - k \<and> drop (k * w) buf = concat (map (\<lambda>x. written (to x)) xs)"
proof (induction "n - k" arbitrary: k xs)
  case 0
  then show ?case by auto
next
  case (Suc d)
  have k: "Suc k \<le> n" "d = n - Suc k" "[k..<n] = k # [Suc k..<n]" using Suc by (auto simp: upt_rec)
  then have w: "(k + 1) * w \<le> n * w" using mult_le_mono1 [of "k + 1" n w] by simp
  define item where "item = sub (k * w) ((k + 1) * w) buf"
  have item: "length item = w" "drop (k * w) buf = item @ drop ((k + 1) * w) buf"
    using w Suc.prems(2) append_take_drop_id [of w "drop (k * w) buf"]
    by (simp_all add: item_def sub_def add.commute)
  have "read_items dec w [k..<n] buf = Inr xs \<longleftrightarrow>
      (\<exists>x xs'. xs = x # xs' \<and> dec item = Inr x \<and> read_items dec w [Suc k..<n] buf = Inr xs')"
    using w Suc.prems(2) by (auto simp: k(3) item_def and_then_eq_Inr_iff)
  also have "\<dots> \<longleftrightarrow> (\<exists>x xs'. xs = x # xs' \<and> item = written (to x) \<and> length xs' = n - Suc k \<and>
      drop ((k + 1) * w) buf = concat (map (\<lambda>x. written (to x)) xs'))"
    using Suc.hyps(1) [OF k(2,1) Suc.prems(2)] dec_item [OF item(1)] by auto
  also have "\<dots> \<longleftrightarrow> length xs = n - k \<and> drop (k * w) buf = concat (map (\<lambda>x. written (to x)) xs)"
    using k(1) item length_item by (cases xs) (auto simp: append_eq_append_conv)
  finally show ?case .
qed

lemma read_items_iff:
  "length buf = n * w \<Longrightarrow>
   read_items dec w [0..<n] buf = Inr xs \<longleftrightarrow> length xs = n \<and> buf = concat (map (\<lambda>x. written (to x)) xs)"
  using read_items_from [of 0 n buf xs] by simp

lemma read_items_no_panic:
  "\<forall>i \<in> set iis. (i + 1) * w \<le> length buf \<Longrightarrow> read_items dec w iis buf \<noteq> Inl SlicePanic"
proof (induction iis)
  case (Cons i iis)
  then have "length (sub (i * w) ((i + 1) * w) buf) = w" by simp
  then show ?case using Cons item_no_panic by (auto simp: and_then_def split: sum.splits)
qed simp

end

text \<open>The codec of a struct. \<open>ok\<close> holds of the values a decoder can produce.\<close>

locale codec =
  fixes ok :: "'a \<Rightarrow> bool" and to :: "'a \<Rightarrow> byte list \<Rightarrow> ssz_error + byte list"
    and dec :: "byte list \<Rightarrow> ssz_error + 'a" and sizeSSZ :: "'a \<Rightarrow> nat"
  assumes to_append: "to x dst = and_then (to x []) (\<lambda>bs. Inr (dst @ bs))"
    and to_size: "to x [] = Inr bs \<Longrightarrow> length bs = sizeSSZ x"
    and dec_iff: "dec bs = Inr x \<longleftrightarrow> ok x \<and> to x [] = Inr bs"
    and no_panic: "dec bs \<noteq> Inl SlicePanic"
begin

lemma roundtrip: "ok x \<Longrightarrow> to x [] = Inr bs \<Longrightarrow> dec bs = Inr x"
  by (simp add: dec_iff)

lemma canonical: "dec bs = Inr x \<Longrightarrow> to x [] = Inr bs"
  by (simp add: dec_iff)

end

locale fixed_codec = codec "\<lambda>_. True" to dec sizeSSZ
  for to :: "'a \<Rightarrow> byte list \<Rightarrow> ssz_error + byte list" and dec sizeSSZ +
  fixes w :: nat
  assumes size_fixed: "sizeSSZ x = w" and total: "\<exists>bs. to x [] = Inr bs"
begin

lemma to_written: "to x dst = Inr (dst @ written (to x))"
  using total [of x] to_append [of x dst] by (auto simp: written_def)

lemma length_written: "length (written (to x)) = w"
  using total [of x] to_size [of x] size_fixed by (auto simp: written_def)

lemma dec_written: "dec bs = Inr x \<longleftrightarrow> bs = written (to x)"
  using dec_iff [of bs x] to_written [of x "[]"] by auto

lemma dec_of_written: "dec (written (to x)) = Inr x"
  by (simp add: dec_written)

lemma decD: "dec bs = Inr x \<Longrightarrow> written (to x) = bs"
  by (simp add: dec_written)

end

sublocale fixed_codec \<subseteq> item to dec w
  by unfold_locales (simp_all add: to_written [symmetric] length_written dec_written no_panic)

interpretation array: item "write_array :: 'n::len bytes \<Rightarrow> _" "\<lambda>bs. Inr (bytes_of bs)" "LENGTH('n)"
  by unfold_locales (auto simp: write_array_def written_def)

text \<open>A proof of \<open>fixed_codec\<close> needs the encoding itself, its length and the decoder.\<close>

lemma fixed_codecI:
  assumes "\<And>x dst. to x dst = Inr (dst @ enc x)" and "\<And>x. length (enc x) = w" and "\<And>x. sizeSSZ x = w"
    and "\<And>bs x. dec bs = Inr x \<longleftrightarrow> bs = enc x" and "\<And>bs. dec bs \<noteq> Inl SlicePanic"
  shows "fixed_codec to dec sizeSSZ w"
  using assms by unfold_locales auto

subsection \<open>Structs of fixed size\<close>

definition Checkpoint_MarshalSSZTo :: "ssz_lib \<Rightarrow> Checkpoint \<Rightarrow> byte list \<Rightarrow> ssz_error + byte list" where
  "Checkpoint_MarshalSSZTo lib c buf =
     (let dst = buf @ list_of_bytes (cp_root c); dst = MarshalUint64 lib dst (cp_slot c) in Inr dst)"

definition Checkpoint_UnmarshalSSZ :: "ssz_lib \<Rightarrow> byte list \<Rightarrow> ssz_error + Checkpoint" where
  "Checkpoint_UnmarshalSSZ lib buf =
     (if length buf \<noteq> 40 then Inl ErrSize else
      and_then (read_array 0 32 buf) (\<lambda>rt.
      and_then (read_uint64 lib 32 40 buf) (\<lambda>slot.
      Inr \<lparr>cp_root = rt, cp_slot = slot\<rparr>)))"

definition Checkpoint_SizeSSZ :: "Checkpoint \<Rightarrow> nat" where "Checkpoint_SizeSSZ c = 40"

definition Config_MarshalSSZTo :: "ssz_lib \<Rightarrow> Config \<Rightarrow> byte list \<Rightarrow> ssz_error + byte list" where
  "Config_MarshalSSZTo lib c buf = Inr (MarshalUint64 lib buf (cfg_genesis_time c))"

definition Config_UnmarshalSSZ :: "ssz_lib \<Rightarrow> byte list \<Rightarrow> ssz_error + Config" where
  "Config_UnmarshalSSZ lib buf =
     (if length buf \<noteq> 8 then Inl ErrSize else
      and_then (read_uint64 lib 0 8 buf) (\<lambda>t. Inr \<lparr>cfg_genesis_time = t\<rparr>))"

definition Config_SizeSSZ :: "Config \<Rightarrow> nat" where "Config_SizeSSZ c = 8"

definition AttestationData_MarshalSSZTo :: "ssz_lib \<Rightarrow> AttestationData \<Rightarrow> byte list \<Rightarrow> ssz_error + byte list" where
  "AttestationData_MarshalSSZTo lib a buf =
     (let dst = MarshalUint64 lib buf (ad_slot a) in
      and_then (Checkpoint_MarshalSSZTo lib (ad_head a) dst) (\<lambda>dst.
      and_then (Checkpoint_MarshalSSZTo lib (ad_target a) dst) (\<lambda>dst.
      Checkpoint_MarshalSSZTo lib (ad_source a) dst)))"

definition AttestationData_UnmarshalSSZ :: "ssz_lib \<Rightarrow> byte list \<Rightarrow> ssz_error + AttestationData" where
  "AttestationData_UnmarshalSSZ lib buf =
     (if length buf \<noteq> 128 then Inl ErrSize else
      and_then (read_uint64 lib 0 8 buf) (\<lambda>slot.
      and_then (and_then (slice 8 48 buf) (Checkpoint_UnmarshalSSZ lib)) (\<lambda>head.
      and_then (and_then (slice 48 88 buf) (Checkpoint_UnmarshalSSZ lib)) (\<lambda>target.
      and_then (and_then (slice 88 128 buf) (Checkpoint_UnmarshalSSZ lib)) (\<lambda>source.
      Inr \<lparr>ad_slot = slot, ad_head = head, ad_target = target, ad_source = source\<rparr>)))))"

definition AttestationData_SizeSSZ :: "AttestationData \<Rightarrow> nat" where "AttestationData_SizeSSZ a = 128"

definition Attestation_MarshalSSZTo :: "ssz_lib \<Rightarrow> Attestation \<Rightarrow> byte list \<Rightarrow> ssz_error + byte list" where
  "Attestation_MarshalSSZTo lib a buf =
     (let dst = MarshalUint64 lib buf (att_validator a) in
      AttestationData_MarshalSSZTo lib (att_data a) dst)"

definition Attestation_UnmarshalSSZ :: "ssz_lib \<Rightarrow> byte list \<Rightarrow> ssz_error + Attestation" where
  "Attestation_UnmarshalSSZ lib buf =
     (if length buf \<noteq> 136 then Inl ErrSize else
      and_then (read_uint64 lib 0 8 buf) (\<lambda>v.
      and_then (and_then (slice 8 136 buf) (AttestationData_UnmarshalSSZ lib)) (\<lambda>data.
      Inr \<lparr>att_validator = v, att_data = data\<rparr>)))"

definition Attestation_SizeSSZ :: "Attestation \<Rightarrow> nat" where "Attestation_SizeSSZ a = 136"

definition SignedAttestation_MarshalSSZTo :: "ssz_lib \<Rightarrow> SignedAttestation \<Rightarrow> byte list \<Rightarrow> ssz_error + byte list" where
  "SignedAttestation_MarshalSSZTo lib s buf =
     (let dst = MarshalUint64 lib buf (sa_validator s) in
      and_then (AttestationData_MarshalSSZTo lib (sa_message s) dst) (\<lambda>dst.
      Inr (dst @ list_of_bytes (sa_signature s))))"

definition SignedAttestation_UnmarshalSSZ :: "ssz_lib \<Rightarrow> byte list \<Rightarrow> ssz_error + SignedAttestation" where
  "SignedAttestation_UnmarshalSSZ lib buf =
     (if length buf \<noteq> 3248 then Inl ErrSize else
      and_then (read_uint64 lib 0 8 buf) (\<lambda>v.
      and_then (and_then (slice 8 136 buf) (AttestationData_UnmarshalSSZ lib)) (\<lambda>message.
      and_then (read_array 136 3248 buf) (\<lambda>sig.
      Inr \<lparr>sa_validator = v, sa_message = message, sa_signature = sig\<rparr>))))"

definition SignedAttestation_SizeSSZ :: "SignedAttestation \<Rightarrow> nat" where "SignedAttestation_SizeSSZ s = 3248"

definition BlockHeader_MarshalSSZTo :: "ssz_lib \<Rightarrow> BlockHeader \<Rightarrow> byte list \<Rightarrow> ssz_error + byte list" where
  "BlockHeader_MarshalSSZTo lib b buf =
     (let dst = MarshalUint64 lib buf (bh_slot b); dst = MarshalUint64 lib dst (bh_proposer b);
          dst = dst @ list_of_bytes (bh_parent_root b); dst = dst @ list_of_bytes (bh_state_root b);
          dst = dst @ list_of_bytes (bh_body_root b)
      in Inr dst)"

definition BlockHeader_UnmarshalSSZ :: "ssz_lib \<Rightarrow> byte list \<Rightarrow> ssz_error + BlockHeader" where
  "BlockHeader_UnmarshalSSZ lib buf =
     (if length buf \<noteq> 112 then Inl ErrSize else
      and_then (read_uint64 lib 0 8 buf) (\<lambda>slot.
      and_then (read_uint64 lib 8 16 buf) (\<lambda>proposer.
      and_then (read_array 16 48 buf) (\<lambda>parent.
      and_then (read_array 48 80 buf) (\<lambda>state.
      and_then (read_array 80 112 buf) (\<lambda>body.
      Inr \<lparr>bh_slot = slot, bh_proposer = proposer, bh_parent_root = parent, bh_state_root = state,
           bh_body_root = body\<rparr>))))))"

definition BlockHeader_SizeSSZ :: "BlockHeader \<Rightarrow> nat" where "BlockHeader_SizeSSZ b = 112"

definition Validator_MarshalSSZTo :: "ssz_lib \<Rightarrow> Validator \<Rightarrow> byte list \<Rightarrow> ssz_error + byte list" where
  "Validator_MarshalSSZTo lib v buf =
     (let dst = buf @ list_of_bytes (val_pubkey v); dst = MarshalUint64 lib dst (val_index v) in Inr dst)"

definition Validator_UnmarshalSSZ :: "ssz_lib \<Rightarrow> byte list \<Rightarrow> ssz_error + Validator" where
  "Validator_UnmarshalSSZ lib buf =
     (if length buf \<noteq> 60 then Inl ErrSize else
      and_then (read_array 0 52 buf) (\<lambda>key.
      and_then (read_uint64 lib 52 60 buf) (\<lambda>idx.
      Inr \<lparr>val_pubkey = key, val_index = idx\<rparr>)))"

definition Validator_SizeSSZ :: "Validator \<Rightarrow> nat" where "Validator_SizeSSZ v = 60"

subsubsection \<open>They are codecs\<close>

lemma read_array_in_range [simp]: "a \<le> b \<Longrightarrow> b \<le> length buf \<Longrightarrow> read_array a b buf = Inr (bytes_of (sub a b buf))"
  by (simp add: read_array_def)

lemma read_uint64_in_range [simp]:
  "a \<le> b \<Longrightarrow> b \<le> length buf \<Longrightarrow> read_uint64 lib a b buf = Inr (UnmarshallUint64 lib (sub a b buf))"
  by (simp add: read_uint64_def)

context ssz_library
begin

lemmas uint64_laws = uint64_length uint64_read uint64_canonical
lemmas offset_laws = offset_length offset_read offset_canonical

lemma uint64_append' [simp]: "NO_MATCH [] dst \<Longrightarrow> MarshalUint64 lib dst x = dst @ MarshalUint64 lib [] x"
  by (rule uint64_append)

lemma offset_append' [simp]: "NO_MATCH [] dst \<Longrightarrow> WriteOffset lib dst n = dst @ WriteOffset lib [] n"
  by (rule offset_append)

end

sublocale ssz_library \<subseteq> checkpoint:
  fixed_codec "Checkpoint_MarshalSSZTo lib" "Checkpoint_UnmarshalSSZ lib" Checkpoint_SizeSSZ 40
proof (rule fixed_codecI [where enc = "\<lambda>c. list_of_bytes (cp_root c) @ MarshalUint64 lib [] (cp_slot c)"])
  fix bs :: "byte list" and c
  show "Checkpoint_UnmarshalSSZ lib bs = Inr c \<longleftrightarrow> bs = list_of_bytes (cp_root c) @ MarshalUint64 lib [] (cp_slot c)"
    by (auto simp: Checkpoint_UnmarshalSSZ_def uint64_laws sub_joins)
  show "Checkpoint_UnmarshalSSZ lib bs \<noteq> Inl SlicePanic" by (simp add: Checkpoint_UnmarshalSSZ_def)
qed (simp_all add: Checkpoint_MarshalSSZTo_def Checkpoint_SizeSSZ_def uint64_length)

sublocale ssz_library \<subseteq> config:
  fixed_codec "Config_MarshalSSZTo lib" "Config_UnmarshalSSZ lib" Config_SizeSSZ 8
proof (rule fixed_codecI [where enc = "\<lambda>c. MarshalUint64 lib [] (cfg_genesis_time c)"])
  fix bs :: "byte list" and c
  show "Config_UnmarshalSSZ lib bs = Inr c \<longleftrightarrow> bs = MarshalUint64 lib [] (cfg_genesis_time c)"
    by (auto simp: Config_UnmarshalSSZ_def uint64_laws)
  show "Config_UnmarshalSSZ lib bs \<noteq> Inl SlicePanic" by (simp add: Config_UnmarshalSSZ_def)
qed (simp_all add: Config_MarshalSSZTo_def Config_SizeSSZ_def uint64_length)

sublocale ssz_library \<subseteq> header:
  fixed_codec "BlockHeader_MarshalSSZTo lib" "BlockHeader_UnmarshalSSZ lib" BlockHeader_SizeSSZ 112
proof (rule fixed_codecI [where enc = "\<lambda>b. MarshalUint64 lib [] (bh_slot b) @ MarshalUint64 lib [] (bh_proposer b) @
    list_of_bytes (bh_parent_root b) @ list_of_bytes (bh_state_root b) @ list_of_bytes (bh_body_root b)"])
  fix bs :: "byte list" and b
  show "BlockHeader_UnmarshalSSZ lib bs = Inr b \<longleftrightarrow> bs = MarshalUint64 lib [] (bh_slot b) @
      MarshalUint64 lib [] (bh_proposer b) @
      list_of_bytes (bh_parent_root b) @ list_of_bytes (bh_state_root b) @ list_of_bytes (bh_body_root b)"
    by (auto simp: BlockHeader_UnmarshalSSZ_def uint64_laws sub_joins)
  show "BlockHeader_UnmarshalSSZ lib bs \<noteq> Inl SlicePanic" by (simp add: BlockHeader_UnmarshalSSZ_def)
qed (simp_all add: BlockHeader_MarshalSSZTo_def BlockHeader_SizeSSZ_def uint64_length)

sublocale ssz_library \<subseteq> validator:
  fixed_codec "Validator_MarshalSSZTo lib" "Validator_UnmarshalSSZ lib" Validator_SizeSSZ 60
proof (rule fixed_codecI [where enc = "\<lambda>v. list_of_bytes (val_pubkey v) @ MarshalUint64 lib [] (val_index v)"])
  fix bs :: "byte list" and v
  show "Validator_UnmarshalSSZ lib bs = Inr v \<longleftrightarrow> bs = list_of_bytes (val_pubkey v) @ MarshalUint64 lib [] (val_index v)"
    by (auto simp: Validator_UnmarshalSSZ_def uint64_laws sub_joins)
  show "Validator_UnmarshalSSZ lib bs \<noteq> Inl SlicePanic" by (simp add: Validator_UnmarshalSSZ_def)
qed (simp_all add: Validator_MarshalSSZTo_def Validator_SizeSSZ_def uint64_length)

text \<open>The nested structs use the laws of what they contain.\<close>

context ssz_library
begin

lemmas checkpoint_laws = checkpoint.to_written checkpoint.length_written checkpoint.dec_of_written

end

sublocale ssz_library \<subseteq> attestation_data:
  fixed_codec "AttestationData_MarshalSSZTo lib" "AttestationData_UnmarshalSSZ lib" AttestationData_SizeSSZ 128
proof (rule fixed_codecI [where enc = "\<lambda>a. MarshalUint64 lib [] (ad_slot a) @ written (Checkpoint_MarshalSSZTo lib (ad_head a)) @
    written (Checkpoint_MarshalSSZTo lib (ad_target a)) @ written (Checkpoint_MarshalSSZTo lib (ad_source a))"])
  fix bs :: "byte list" and a
  show "AttestationData_UnmarshalSSZ lib bs = Inr a \<longleftrightarrow> bs = MarshalUint64 lib [] (ad_slot a) @
      written (Checkpoint_MarshalSSZTo lib (ad_head a)) @
      written (Checkpoint_MarshalSSZTo lib (ad_target a)) @ written (Checkpoint_MarshalSSZTo lib (ad_source a))"
    (is "?decoded \<longleftrightarrow> ?encoded")
  proof
    show "?decoded \<Longrightarrow> ?encoded"
      by (auto simp: AttestationData_UnmarshalSSZ_def and_then_eq_Inr_iff uint64_laws sub_joins split: if_splits
          dest!: checkpoint.decD)
    show "?encoded \<Longrightarrow> ?decoded"
      by (simp add: AttestationData_UnmarshalSSZ_def uint64_laws checkpoint_laws)
  qed
  show "AttestationData_UnmarshalSSZ lib bs \<noteq> Inl SlicePanic"
    by (auto simp: AttestationData_UnmarshalSSZ_def and_then_eq_Inl_iff checkpoint.no_panic)
qed (simp_all add: AttestationData_MarshalSSZTo_def AttestationData_SizeSSZ_def uint64_length checkpoint_laws)

context ssz_library
begin

lemmas attestation_data_laws =
  attestation_data.to_written attestation_data.length_written attestation_data.dec_of_written

end

sublocale ssz_library \<subseteq> attestation:
  fixed_codec "Attestation_MarshalSSZTo lib" "Attestation_UnmarshalSSZ lib" Attestation_SizeSSZ 136
proof (rule fixed_codecI [where enc = "\<lambda>a. MarshalUint64 lib [] (att_validator a) @
    written (AttestationData_MarshalSSZTo lib (att_data a))"])
  fix bs :: "byte list" and a
  show "Attestation_UnmarshalSSZ lib bs = Inr a \<longleftrightarrow>
      bs = MarshalUint64 lib [] (att_validator a) @ written (AttestationData_MarshalSSZTo lib (att_data a))"
    (is "?decoded \<longleftrightarrow> ?encoded")
  proof
    show "?decoded \<Longrightarrow> ?encoded"
      by (auto simp: Attestation_UnmarshalSSZ_def and_then_eq_Inr_iff uint64_laws sub_joins split: if_splits
          dest!: attestation_data.decD)
    show "?encoded \<Longrightarrow> ?decoded"
      by (simp add: Attestation_UnmarshalSSZ_def uint64_laws attestation_data_laws)
  qed
  show "Attestation_UnmarshalSSZ lib bs \<noteq> Inl SlicePanic"
    by (auto simp: Attestation_UnmarshalSSZ_def and_then_eq_Inl_iff attestation_data.no_panic)
qed (simp_all add: Attestation_MarshalSSZTo_def Attestation_SizeSSZ_def uint64_length attestation_data_laws)

sublocale ssz_library \<subseteq> signed_attestation:
  fixed_codec "SignedAttestation_MarshalSSZTo lib" "SignedAttestation_UnmarshalSSZ lib" SignedAttestation_SizeSSZ 3248
proof (rule fixed_codecI [where enc = "\<lambda>s. MarshalUint64 lib [] (sa_validator s) @
    written (AttestationData_MarshalSSZTo lib (sa_message s)) @ list_of_bytes (sa_signature s)"])
  fix bs :: "byte list" and s
  show "SignedAttestation_UnmarshalSSZ lib bs = Inr s \<longleftrightarrow> bs = MarshalUint64 lib [] (sa_validator s) @
      written (AttestationData_MarshalSSZTo lib (sa_message s)) @ list_of_bytes (sa_signature s)"
    (is "?decoded \<longleftrightarrow> ?encoded")
  proof
    show "?decoded \<Longrightarrow> ?encoded"
      by (auto simp: SignedAttestation_UnmarshalSSZ_def and_then_eq_Inr_iff uint64_laws sub_joins split: if_splits
          dest!: attestation_data.decD)
    show "?encoded \<Longrightarrow> ?decoded"
      by (simp add: SignedAttestation_UnmarshalSSZ_def uint64_laws attestation_data_laws)
  qed
  show "SignedAttestation_UnmarshalSSZ lib bs \<noteq> Inl SlicePanic"
    by (auto simp: SignedAttestation_UnmarshalSSZ_def and_then_eq_Inl_iff attestation_data.no_panic)
qed (simp_all add: SignedAttestation_MarshalSSZTo_def SignedAttestation_SizeSSZ_def uint64_length attestation_data_laws)

context ssz_library
begin

lemmas attestation_laws = attestation.to_written attestation.length_written attestation.dec_of_written

end

subsection \<open>Blocks\<close>

text \<open>
  The offset of a variable field: it must lie within the buffer, and the first one must be the size of
  the fixed part.
\<close>

definition first_offset :: "ssz_lib \<Rightarrow> byte list \<Rightarrow> nat \<Rightarrow> nat \<Rightarrow> nat \<Rightarrow> ssz_error + nat" where
  "first_offset lib buf a b fixed =
     and_then (slice a b buf) (\<lambda>bs.
     let o0 = unat (ReadOffset lib bs) in
     if o0 > length buf then Inl ErrOffset
     else if o0 \<noteq> fixed then Inl ErrInvalidVariableOffset
     else Inr o0)"

definition BlockBody_MarshalSSZTo :: "ssz_lib \<Rightarrow> BlockBody \<Rightarrow> byte list \<Rightarrow> ssz_error + byte list" where
  "BlockBody_MarshalSSZTo lib b buf =
     (let dst = WriteOffset lib buf 4; num = length (body_attestations b) in
      if num > 4096 then Inl (ErrListTooBig num 4096)
      else write_items (Attestation_MarshalSSZTo lib) (body_attestations b) dst)"

definition BlockBody_UnmarshalSSZ :: "ssz_lib \<Rightarrow> byte list \<Rightarrow> ssz_error + BlockBody" where
  "BlockBody_UnmarshalSSZ lib tail =
     (if length tail < 4 then Inl ErrSize else
      and_then (first_offset lib tail 0 4 4) (\<lambda>o0.
      and_then (slice o0 (length tail) tail) (\<lambda>buf.
      and_then (DivideInt2 lib (length buf) 136 4096) (\<lambda>num.
      and_then (read_items (Attestation_UnmarshalSSZ lib) 136 [0..<num] buf) (\<lambda>atts.
      Inr \<lparr>body_attestations = atts\<rparr>)))))"

definition BlockBody_SizeSSZ :: "BlockBody \<Rightarrow> nat" where
  "BlockBody_SizeSSZ b = 4 + length (body_attestations b) * 136"

definition Block_MarshalSSZTo :: "ssz_lib \<Rightarrow> Block \<Rightarrow> byte list \<Rightarrow> ssz_error + byte list" where
  "Block_MarshalSSZTo lib b buf =
     (let dst = MarshalUint64 lib buf (b_slot b); dst = MarshalUint64 lib dst (b_proposer b);
          dst = dst @ list_of_bytes (b_parent_root b); dst = dst @ list_of_bytes (b_state_root b);
          dst = WriteOffset lib dst 84
      in BlockBody_MarshalSSZTo lib (b_body b) dst)"

definition Block_UnmarshalSSZ :: "ssz_lib \<Rightarrow> byte list \<Rightarrow> ssz_error + Block" where
  "Block_UnmarshalSSZ lib tail =
     (if length tail < 84 then Inl ErrSize else
      and_then (read_uint64 lib 0 8 tail) (\<lambda>slot.
      and_then (read_uint64 lib 8 16 tail) (\<lambda>proposer.
      and_then (read_array 16 48 tail) (\<lambda>parent.
      and_then (read_array 48 80 tail) (\<lambda>state.
      and_then (first_offset lib tail 80 84 84) (\<lambda>o4.
      and_then (and_then (slice o4 (length tail) tail) (BlockBody_UnmarshalSSZ lib)) (\<lambda>body.
      Inr \<lparr>b_slot = slot, b_proposer = proposer, b_parent_root = parent, b_state_root = state,
           b_body = body\<rparr>)))))))"

definition Block_SizeSSZ :: "Block \<Rightarrow> nat" where
  "Block_SizeSSZ b = 84 + BlockBody_SizeSSZ (b_body b)"

text \<open>A missing proposer attestation is replaced by \<open>new(Attestation)\<close> before it is written.\<close>

definition proposer_filled :: "BlockWithAttestation \<Rightarrow> Attestation" where
  "proposer_filled b = (case bwa_proposer_attestation b of None \<Rightarrow> new_Attestation | Some a \<Rightarrow> a)"

definition BlockWithAttestation_MarshalSSZTo ::
    "ssz_lib \<Rightarrow> BlockWithAttestation \<Rightarrow> byte list \<Rightarrow> ssz_error + byte list" where
  "BlockWithAttestation_MarshalSSZTo lib b buf =
     (let dst = WriteOffset lib buf 140 in
      and_then (Attestation_MarshalSSZTo lib (proposer_filled b) dst) (\<lambda>dst.
      Block_MarshalSSZTo lib (bwa_block b) dst))"

definition BlockWithAttestation_UnmarshalSSZ :: "ssz_lib \<Rightarrow> byte list \<Rightarrow> ssz_error + BlockWithAttestation" where
  "BlockWithAttestation_UnmarshalSSZ lib tail =
     (if length tail < 140 then Inl ErrSize else
      and_then (first_offset lib tail 0 4 140) (\<lambda>o0.
      and_then (and_then (slice 4 140 tail) (Attestation_UnmarshalSSZ lib)) (\<lambda>proposer.
      and_then (and_then (slice o0 (length tail) tail) (Block_UnmarshalSSZ lib)) (\<lambda>block.
      Inr \<lparr>bwa_block = block, bwa_proposer_attestation = Some proposer\<rparr>))))"

definition BlockWithAttestation_SizeSSZ :: "BlockWithAttestation \<Rightarrow> nat" where
  "BlockWithAttestation_SizeSSZ b = 140 + Block_SizeSSZ (bwa_block b)"

definition SignedBlockWithAttestation_MarshalSSZTo ::
    "ssz_lib \<Rightarrow> SignedBlockWithAttestation \<Rightarrow> byte list \<Rightarrow> ssz_error + byte list" where
  "SignedBlockWithAttestation_MarshalSSZTo lib s buf =
     (let offset = 8; dst = WriteOffset lib buf offset;
          offset = offset + BlockWithAttestation_SizeSSZ (sb_message s); dst = WriteOffset lib dst offset in
      and_then (BlockWithAttestation_MarshalSSZTo lib (sb_message s) dst) (\<lambda>dst.
      let num = length (sb_signature s) in
      if num > 4096 then Inl (ErrListTooBig num 4096)
      else write_items write_array (sb_signature s) dst))"

definition SignedBlockWithAttestation_UnmarshalSSZ ::
    "ssz_lib \<Rightarrow> byte list \<Rightarrow> ssz_error + SignedBlockWithAttestation" where
  "SignedBlockWithAttestation_UnmarshalSSZ lib tail =
     (if length tail < 8 then Inl ErrSize else
      and_then (first_offset lib tail 0 4 8) (\<lambda>o0.
      and_then (slice 4 8 tail) (\<lambda>bs.
      let o1 = unat (ReadOffset lib bs) in
      if o1 > length tail \<or> o0 > o1 then Inl ErrOffset else
      and_then (and_then (slice o0 o1 tail) (BlockWithAttestation_UnmarshalSSZ lib)) (\<lambda>message.
      and_then (slice o1 (length tail) tail) (\<lambda>buf.
      and_then (DivideInt2 lib (length buf) 3112 4096) (\<lambda>num.
      and_then (read_items (\<lambda>bs. Inr (bytes_of bs)) 3112 [0..<num] buf) (\<lambda>sigs.
      Inr \<lparr>sb_message = message, sb_signature = sigs\<rparr>)))))))"

definition SignedBlockWithAttestation_SizeSSZ :: "SignedBlockWithAttestation \<Rightarrow> nat" where
  "SignedBlockWithAttestation_SizeSSZ s =
     8 + BlockWithAttestation_SizeSSZ (sb_message s) + length (sb_signature s) * 3112"

subsubsection \<open>They are codecs\<close>

context ssz_library
begin

lemma first_offset_iff:
  assumes "length (sub a b buf) = 4" and "a \<le> b" and "b \<le> length buf" and "fixed \<le> length buf" and "fixed < 2 ^ 32"
  shows "first_offset lib buf a b fixed = Inr o0 \<longleftrightarrow> o0 = fixed \<and> sub a b buf = WriteOffset lib [] fixed"
  using assms offset_read [of fixed] offset_canonical [of "sub a b buf"]
  by (auto simp: first_offset_def Let_def)

lemma first_offset_no_panic: "a \<le> b \<Longrightarrow> b \<le> length buf \<Longrightarrow> first_offset lib buf a b fixed \<noteq> Inl SlicePanic"
  by (simp add: first_offset_def Let_def)

text \<open>The bytes of a list and its element count.\<close>

lemma divide_136: "DivideInt2 lib a 136 m = Inr n \<longleftrightarrow> a = n * 136 \<and> n \<le> m"
  by (rule divide) simp

lemma divide_3112: "DivideInt2 lib a 3112 m = Inr n \<longleftrightarrow> a = n * 3112 \<and> n \<le> m"
  by (rule divide) simp

abbreviation attestations_ssz :: "Attestation list \<Rightarrow> byte list" where
  "attestations_ssz atts \<equiv> concat (map (\<lambda>a. written (Attestation_MarshalSSZTo lib a)) atts)"

lemma BlockBody_to:
  "BlockBody_MarshalSSZTo lib b dst =
     (if length (body_attestations b) > 4096 then Inl (ErrListTooBig (length (body_attestations b)) 4096)
      else Inr (dst @ WriteOffset lib [] 4 @ attestations_ssz (body_attestations b)))"
  by (cases dst) (simp_all add: BlockBody_MarshalSSZTo_def attestation.write_items_concat)

lemma BlockBody_from:
  "BlockBody_UnmarshalSSZ lib bs = Inr b \<longleftrightarrow>
     length (body_attestations b) \<le> 4096 \<and> bs = WriteOffset lib [] 4 @ attestations_ssz (body_attestations b)"
    (is "?decoded \<longleftrightarrow> ?small \<and> ?encoded")
proof
  assume ?decoded
  then have len: "4 \<le> length bs"
    and b: "sub 0 4 bs = WriteOffset lib [] 4" "length bs - 4 = length (body_attestations b) * 136"
      "length (body_attestations b) \<le> 4096" "drop 4 bs = attestations_ssz (body_attestations b)"
    by (auto simp: BlockBody_UnmarshalSSZ_def and_then_eq_Inr_iff first_offset_iff divide_136
        attestation.read_items_iff drop_sub split: if_splits)
  then show "?small \<and> ?encoded" using append_take_drop_id [of 4 bs] by (simp add: sub_def)
next
  assume enc: "?small \<and> ?encoded"
  then have len: "length bs = 4 + length (body_attestations b) * 136"
    by (simp add: offset_length attestation.length_items)
  have "DivideInt2 lib (length (body_attestations b) * 136) 136 4096 = Inr (length (body_attestations b))"
    using enc by (simp add: divide_136)
  moreover have "read_items (Attestation_UnmarshalSSZ lib) 136 [0..<length (body_attestations b)]
      (attestations_ssz (body_attestations b)) = Inr (body_attestations b)"
    by (simp add: attestation.read_items_iff attestation.length_items)
  moreover have "first_offset lib bs 0 4 4 = Inr 4"
    using enc len by (subst first_offset_iff) (auto simp: offset_length)
  ultimately show ?decoded
    using enc len by (simp add: BlockBody_UnmarshalSSZ_def offset_length attestation.length_items)
qed

end

sublocale ssz_library \<subseteq> body:
  codec "\<lambda>_. True" "BlockBody_MarshalSSZTo lib" "BlockBody_UnmarshalSSZ lib" BlockBody_SizeSSZ
proof
  fix bs :: "byte list" and b dst
  show "BlockBody_MarshalSSZTo lib b dst = and_then (BlockBody_MarshalSSZTo lib b []) (\<lambda>bs. Inr (dst @ bs))"
    by (simp add: BlockBody_to)
  show "BlockBody_MarshalSSZTo lib b [] = Inr bs \<Longrightarrow> length bs = BlockBody_SizeSSZ b"
    by (auto simp: BlockBody_to BlockBody_SizeSSZ_def offset_length attestation.length_items split: if_splits)
  show "BlockBody_UnmarshalSSZ lib bs = Inr b \<longleftrightarrow> True \<and> BlockBody_MarshalSSZTo lib b [] = Inr bs"
    by (auto simp: BlockBody_to BlockBody_from)
  show "BlockBody_UnmarshalSSZ lib bs \<noteq> Inl SlicePanic"
    by (auto simp: BlockBody_UnmarshalSSZ_def and_then_eq_Inl_iff first_offset_no_panic first_offset_iff
        divide_136 divide_error intro!: attestation.read_items_no_panic)
qed

context ssz_library
begin

lemma Block_to:
  "Block_MarshalSSZTo lib b dst = and_then (BlockBody_MarshalSSZTo lib (b_body b) []) (\<lambda>body.
     Inr (dst @ MarshalUint64 lib [] (b_slot b) @ MarshalUint64 lib [] (b_proposer b) @
       list_of_bytes (b_parent_root b) @ list_of_bytes (b_state_root b) @ WriteOffset lib [] 84 @ body))"
  by (cases dst) (simp_all add: Block_MarshalSSZTo_def body.to_append [of _ "_ @ _"] and_then_def split: sum.split)

lemma Block_from:
  "Block_UnmarshalSSZ lib bs = Inr b \<longleftrightarrow> Block_MarshalSSZTo lib b [] = Inr bs" (is "?decoded \<longleftrightarrow> ?encoded")
proof
  assume ?decoded
  then have "84 \<le> length bs" "sub 80 84 bs = WriteOffset lib [] 84"
    "BlockBody_MarshalSSZTo lib (b_body b) [] = Inr (sub 84 (length bs) bs)"
    "b_slot b = UnmarshallUint64 lib (sub 0 8 bs)" "b_proposer b = UnmarshallUint64 lib (sub 8 16 bs)"
    "b_parent_root b = bytes_of (sub 16 48 bs)" "b_state_root b = bytes_of (sub 48 80 bs)"
    by (auto simp: Block_UnmarshalSSZ_def and_then_eq_Inr_iff first_offset_iff body.dec_iff split: if_splits)
  moreover from this(2) have "WriteOffset lib [] 84 = sub 80 84 bs" by simp
  ultimately show ?encoded
    by (simp add: Block_to uint64_canonical sub_joins del: sub_all) simp
next
  assume ?encoded
  then obtain body where body: "BlockBody_MarshalSSZTo lib (b_body b) [] = Inr body"
    and bs: "bs = MarshalUint64 lib [] (b_slot b) @ MarshalUint64 lib [] (b_proposer b) @
       list_of_bytes (b_parent_root b) @ list_of_bytes (b_state_root b) @ WriteOffset lib [] 84 @ body"
    by (auto simp: Block_to and_then_eq_Inr_iff)
  have "first_offset lib bs 80 84 84 = Inr 84"
    by (subst first_offset_iff) (auto simp: bs offset_length uint64_length)
  moreover have "BlockBody_UnmarshalSSZ lib body = Inr (b_body b)" using body by (simp add: body.dec_iff)
  ultimately show ?decoded
    by (simp add: Block_UnmarshalSSZ_def bs uint64_laws offset_length)
qed

end

sublocale ssz_library \<subseteq> block:
  codec "\<lambda>_. True" "Block_MarshalSSZTo lib" "Block_UnmarshalSSZ lib" Block_SizeSSZ
proof
  fix bs :: "byte list" and b dst
  show "Block_MarshalSSZTo lib b dst = and_then (Block_MarshalSSZTo lib b []) (\<lambda>bs. Inr (dst @ bs))"
    by (simp add: Block_to and_then_def split: sum.split)
  show "Block_MarshalSSZTo lib b [] = Inr bs \<Longrightarrow> length bs = Block_SizeSSZ b"
    by (auto simp: Block_to and_then_eq_Inr_iff Block_SizeSSZ_def offset_length uint64_length dest: body.to_size)
  show "Block_UnmarshalSSZ lib bs = Inr b \<longleftrightarrow> True \<and> Block_MarshalSSZTo lib b [] = Inr bs"
    by (simp add: Block_from)
  show "Block_UnmarshalSSZ lib bs \<noteq> Inl SlicePanic"
    by (auto simp: Block_UnmarshalSSZ_def and_then_eq_Inl_iff first_offset_no_panic first_offset_iff body.no_panic)
qed

context ssz_library
begin

lemma BlockWithAttestation_to:
  "BlockWithAttestation_MarshalSSZTo lib b dst = and_then (Block_MarshalSSZTo lib (bwa_block b) []) (\<lambda>block.
     Inr (dst @ WriteOffset lib [] 140 @ written (Attestation_MarshalSSZTo lib (proposer_filled b)) @ block))"
  by (cases dst) (simp_all add: BlockWithAttestation_MarshalSSZTo_def Let_def attestation.to_written
      block.to_append [of _ "_ @ _"] and_then_def split: sum.split)

lemma BlockWithAttestation_from:
  "BlockWithAttestation_UnmarshalSSZ lib bs = Inr b \<longleftrightarrow>
     bwa_proposer_attestation b \<noteq> None \<and> BlockWithAttestation_MarshalSSZTo lib b [] = Inr bs"
  (is "?decoded \<longleftrightarrow> ?some \<and> ?encoded")
proof
  assume ?decoded
  then obtain p where b: "140 \<le> length bs" "sub 0 4 bs = WriteOffset lib [] 140"
    "Attestation_UnmarshalSSZ lib (sub 4 140 bs) = Inr p" "bwa_proposer_attestation b = Some p"
    "Block_MarshalSSZTo lib (bwa_block b) [] = Inr (sub 140 (length bs) bs)"
    by (auto simp: BlockWithAttestation_UnmarshalSSZ_def and_then_eq_Inr_iff first_offset_iff block.dec_iff
        split: if_splits)
  moreover from this(2) have "WriteOffset lib [] 140 = sub 0 4 bs" by simp
  moreover have "written (Attestation_MarshalSSZTo lib p) = sub 4 140 bs" using b(3) by (rule attestation.decD)
  ultimately show "?some \<and> ?encoded"
    by (simp add: BlockWithAttestation_to proposer_filled_def sub_joins del: sub_all) simp
next
  assume enc: "?some \<and> ?encoded"
  then obtain p block where p: "bwa_proposer_attestation b = Some p"
    and block: "Block_MarshalSSZTo lib (bwa_block b) [] = Inr block"
    and bs: "bs = WriteOffset lib [] 140 @ written (Attestation_MarshalSSZTo lib p) @ block"
    by (auto simp: BlockWithAttestation_to and_then_eq_Inr_iff proposer_filled_def)
  have "first_offset lib bs 0 4 140 = Inr 140"
    by (subst first_offset_iff) (auto simp: bs offset_length attestation_laws)
  moreover have "Block_UnmarshalSSZ lib block = Inr (bwa_block b)" using block by (simp add: block.dec_iff)
  ultimately show ?decoded
    using p by (simp add: BlockWithAttestation_UnmarshalSSZ_def bs attestation_laws offset_length)
qed

end

sublocale ssz_library \<subseteq> block_with_attestation:
  codec "\<lambda>b. bwa_proposer_attestation b \<noteq> None" "BlockWithAttestation_MarshalSSZTo lib"
    "BlockWithAttestation_UnmarshalSSZ lib" BlockWithAttestation_SizeSSZ
proof
  fix bs :: "byte list" and b dst
  show "BlockWithAttestation_MarshalSSZTo lib b dst =
      and_then (BlockWithAttestation_MarshalSSZTo lib b []) (\<lambda>bs. Inr (dst @ bs))"
    by (simp add: BlockWithAttestation_to and_then_def split: sum.split)
  show "BlockWithAttestation_MarshalSSZTo lib b [] = Inr bs \<Longrightarrow> length bs = BlockWithAttestation_SizeSSZ b"
    by (auto simp: BlockWithAttestation_to and_then_eq_Inr_iff BlockWithAttestation_SizeSSZ_def offset_length
        attestation_laws dest: block.to_size)
  show "BlockWithAttestation_UnmarshalSSZ lib bs = Inr b \<longleftrightarrow>
      bwa_proposer_attestation b \<noteq> None \<and> BlockWithAttestation_MarshalSSZTo lib b [] = Inr bs"
    by (rule BlockWithAttestation_from)
  show "BlockWithAttestation_UnmarshalSSZ lib bs \<noteq> Inl SlicePanic"
    by (auto simp: BlockWithAttestation_UnmarshalSSZ_def and_then_eq_Inl_iff first_offset_no_panic first_offset_iff
        block.no_panic attestation.no_panic)
qed

context ssz_library
begin

abbreviation signatures_ssz :: "signature list \<Rightarrow> byte list" where
  "signatures_ssz sigs \<equiv> concat (map (\<lambda>g. written (write_array g)) sigs)"

lemma length_signatures_ssz: "length (signatures_ssz sigs) = length sigs * 3112"
  using array.length_items [of sigs] by simp

lemma SignedBlockWithAttestation_to:
  "SignedBlockWithAttestation_MarshalSSZTo lib s dst =
     and_then (BlockWithAttestation_MarshalSSZTo lib (sb_message s) []) (\<lambda>message.
     if length (sb_signature s) > 4096 then Inl (ErrListTooBig (length (sb_signature s)) 4096)
     else Inr (dst @ WriteOffset lib [] 8 @ WriteOffset lib [] (8 + BlockWithAttestation_SizeSSZ (sb_message s)) @
       message @ signatures_ssz (sb_signature s)))"
  by (cases dst) (simp_all add: SignedBlockWithAttestation_MarshalSSZTo_def Let_def array.write_items_concat
      block_with_attestation.to_append [of _ "_ @ _"] and_then_def split: sum.split)

lemma read_signatures:
  "length buf = n * 3112 \<Longrightarrow>
   read_items (\<lambda>bs. Inr (bytes_of bs)) 3112 [0..<n] buf = Inr sigs \<longleftrightarrow> length sigs = n \<and> buf = signatures_ssz sigs"
  using array.read_items_iff [of buf n sigs] by simp

lemma read_signatures_no_panic:
  "\<forall>i \<in> set iis. (i + 1) * 3112 \<le> length buf \<Longrightarrow>
   read_items (\<lambda>bs. Inr (bytes_of bs :: signature)) 3112 iis buf \<noteq> Inl SlicePanic"
  using array.read_items_no_panic [where ?'n = 3112, of iis buf] by simp

text \<open>A message that can be written is far smaller than the range of an offset.\<close>

lemma message_size_bound:
  assumes "BlockWithAttestation_MarshalSSZTo lib m [] = Inr bs"
  shows "length bs = BlockWithAttestation_SizeSSZ m" and "BlockWithAttestation_SizeSSZ m \<le> 557284"
proof -
  show "length bs = BlockWithAttestation_SizeSSZ m" using assms by (rule block_with_attestation.to_size)
  have "length (body_attestations (b_body (bwa_block m))) \<le> 4096"
    using assms by (auto simp: BlockWithAttestation_to Block_to BlockBody_to and_then_eq_Inr_iff split: if_splits)
  then show "BlockWithAttestation_SizeSSZ m \<le> 557284"
    by (simp add: BlockWithAttestation_SizeSSZ_def Block_SizeSSZ_def BlockBody_SizeSSZ_def)
qed

lemma SignedBlockWithAttestation_from:
  "SignedBlockWithAttestation_UnmarshalSSZ lib bs = Inr s \<longleftrightarrow>
     bwa_proposer_attestation (sb_message s) \<noteq> None \<and> SignedBlockWithAttestation_MarshalSSZTo lib s [] = Inr bs"
  (is "?decoded \<longleftrightarrow> ?some \<and> ?encoded")
proof
  assume ?decoded
  then obtain o1 where len: "8 \<le> length bs" "8 \<le> o1" "o1 \<le> length bs" "o1 = unat (ReadOffset lib (sub 4 8 bs))"
    and offset: "sub 0 4 bs = WriteOffset lib [] 8"
    and message: "bwa_proposer_attestation (sb_message s) \<noteq> None"
      "BlockWithAttestation_MarshalSSZTo lib (sb_message s) [] = Inr (sub 8 o1 bs)"
    and sigs: "length (sb_signature s) \<le> 4096" "sub o1 (length bs) bs = signatures_ssz (sb_signature s)"
    by (auto simp: SignedBlockWithAttestation_UnmarshalSSZ_def Let_def and_then_eq_Inr_iff first_offset_iff
        block_with_attestation.dec_iff divide_3112 read_signatures split: if_splits)
  have "8 + BlockWithAttestation_SizeSSZ (sb_message s) = o1"
    using message_size_bound(1) [OF message(2)] len by simp
  then have "WriteOffset lib [] (8 + BlockWithAttestation_SizeSSZ (sb_message s)) = sub 4 8 bs"
    using len offset_canonical [of "sub 4 8 bs"] by simp
  moreover have "sub 0 4 bs @ sub 4 8 bs @ sub 8 o1 bs @ sub o1 (length bs) bs = bs"
    using len by (simp add: sub_joins)
  ultimately show "?some \<and> ?encoded"
    using message sigs offset by (simp add: SignedBlockWithAttestation_to)
next
  assume enc: "?some \<and> ?encoded"
  define o1 where "o1 = 8 + BlockWithAttestation_SizeSSZ (sb_message s)"
  obtain message where message: "BlockWithAttestation_MarshalSSZTo lib (sb_message s) [] = Inr message"
    and num: "length (sb_signature s) \<le> 4096"
    and bs: "bs = WriteOffset lib [] 8 @ WriteOffset lib [] o1 @ message @ signatures_ssz (sb_signature s)"
    using enc by (auto simp: SignedBlockWithAttestation_to and_then_eq_Inr_iff o1_def split: if_splits)
  have o1: "length message = o1 - 8" "8 \<le> o1" "unat (ReadOffset lib (WriteOffset lib [] o1)) = o1"
    using message_size_bound [OF message] by (auto simp: o1_def intro!: offset_read)
  have "first_offset lib bs 0 4 8 = Inr 8"
    by (subst first_offset_iff) (auto simp: bs offset_length)
  moreover have "BlockWithAttestation_UnmarshalSSZ lib message = Inr (sb_message s)"
    using message enc by (simp add: block_with_attestation.dec_iff)
  moreover have "DivideInt2 lib (length (sb_signature s) * 3112) 3112 4096 = Inr (length (sb_signature s))"
    using num by (simp add: divide_3112)
  moreover have "read_items (\<lambda>bs. Inr (bytes_of bs)) 3112 [0..<length (sb_signature s)]
      (signatures_ssz (sb_signature s)) = Inr (sb_signature s)"
    by (simp add: read_signatures length_signatures_ssz)
  ultimately show ?decoded
    using o1 by (simp add: SignedBlockWithAttestation_UnmarshalSSZ_def Let_def bs offset_length length_signatures_ssz)
qed

end

sublocale ssz_library \<subseteq> signed_block:
  codec "\<lambda>s. bwa_proposer_attestation (sb_message s) \<noteq> None" "SignedBlockWithAttestation_MarshalSSZTo lib"
    "SignedBlockWithAttestation_UnmarshalSSZ lib" SignedBlockWithAttestation_SizeSSZ
proof
  fix bs :: "byte list" and s dst
  show "SignedBlockWithAttestation_MarshalSSZTo lib s dst =
      and_then (SignedBlockWithAttestation_MarshalSSZTo lib s []) (\<lambda>bs. Inr (dst @ bs))"
    by (simp add: SignedBlockWithAttestation_to and_then_def split: sum.split)
  show "SignedBlockWithAttestation_MarshalSSZTo lib s [] = Inr bs \<Longrightarrow> length bs = SignedBlockWithAttestation_SizeSSZ s"
    by (auto simp: SignedBlockWithAttestation_to and_then_eq_Inr_iff SignedBlockWithAttestation_SizeSSZ_def offset_length
        length_signatures_ssz dest: block_with_attestation.to_size split: if_splits)
  show "SignedBlockWithAttestation_UnmarshalSSZ lib bs = Inr s \<longleftrightarrow>
      bwa_proposer_attestation (sb_message s) \<noteq> None \<and> SignedBlockWithAttestation_MarshalSSZTo lib s [] = Inr bs"
    by (rule SignedBlockWithAttestation_from)
  show "SignedBlockWithAttestation_UnmarshalSSZ lib bs \<noteq> Inl SlicePanic"
    by (auto simp: SignedBlockWithAttestation_UnmarshalSSZ_def Let_def and_then_eq_Inl_iff first_offset_no_panic
        first_offset_iff divide_3112 divide_error block_with_attestation.no_panic
        intro!: read_signatures_no_panic)
qed

subsection \<open>The \<open>MarshalSSZ\<close> methods\<close>

definition Checkpoint_MarshalSSZ :: "ssz_lib \<Rightarrow> Checkpoint \<Rightarrow> ssz_error + byte list" where
  "Checkpoint_MarshalSSZ lib x = MarshalSSZ lib (Checkpoint_MarshalSSZTo lib x) (Checkpoint_SizeSSZ x)"

definition Config_MarshalSSZ :: "ssz_lib \<Rightarrow> Config \<Rightarrow> ssz_error + byte list" where
  "Config_MarshalSSZ lib x = MarshalSSZ lib (Config_MarshalSSZTo lib x) (Config_SizeSSZ x)"

definition AttestationData_MarshalSSZ :: "ssz_lib \<Rightarrow> AttestationData \<Rightarrow> ssz_error + byte list" where
  "AttestationData_MarshalSSZ lib x = MarshalSSZ lib (AttestationData_MarshalSSZTo lib x) (AttestationData_SizeSSZ x)"

definition Attestation_MarshalSSZ :: "ssz_lib \<Rightarrow> Attestation \<Rightarrow> ssz_error + byte list" where
  "Attestation_MarshalSSZ lib x = MarshalSSZ lib (Attestation_MarshalSSZTo lib x) (Attestation_SizeSSZ x)"

definition SignedAttestation_MarshalSSZ :: "ssz_lib \<Rightarrow> SignedAttestation \<Rightarrow> ssz_error + byte list" where
  "SignedAttestation_MarshalSSZ lib x = MarshalSSZ lib (SignedAttestation_MarshalSSZTo lib x) (SignedAttestation_SizeSSZ x)"

definition BlockHeader_MarshalSSZ :: "ssz_lib \<Rightarrow> BlockHeader \<Rightarrow> ssz_error + byte list" where
  "BlockHeader_MarshalSSZ lib x = MarshalSSZ lib (BlockHeader_MarshalSSZTo lib x) (BlockHeader_SizeSSZ x)"

definition Validator_MarshalSSZ :: "ssz_lib \<Rightarrow> Validator \<Rightarrow> ssz_error + byte list" where
  "Validator_MarshalSSZ lib x = MarshalSSZ lib (Validator_MarshalSSZTo lib x) (Validator_SizeSSZ x)"

definition BlockBody_MarshalSSZ :: "ssz_lib \<Rightarrow> BlockBody \<Rightarrow> ssz_error + byte list" where
  "BlockBody_MarshalSSZ lib x = MarshalSSZ lib (BlockBody_MarshalSSZTo lib x) (BlockBody_SizeSSZ x)"

definition Block_MarshalSSZ :: "ssz_lib \<Rightarrow> Block \<Rightarrow> ssz_error + byte list" where
  "Block_MarshalSSZ lib x = MarshalSSZ lib (Block_MarshalSSZTo lib x) (Block_SizeSSZ x)"

definition BlockWithAttestation_MarshalSSZ :: "ssz_lib \<Rightarrow> BlockWithAttestation \<Rightarrow> ssz_error + byte list" where
  "BlockWithAttestation_MarshalSSZ lib x = MarshalSSZ lib (BlockWithAttestation_MarshalSSZTo lib x) (BlockWithAttestation_SizeSSZ x)"

definition SignedBlockWithAttestation_MarshalSSZ :: "ssz_lib \<Rightarrow> SignedBlockWithAttestation \<Rightarrow> ssz_error + byte list" where
  "SignedBlockWithAttestation_MarshalSSZ lib x = MarshalSSZ lib (SignedBlockWithAttestation_MarshalSSZTo lib x) (SignedBlockWithAttestation_SizeSSZ x)"

context ssz_library
begin

lemmas marshal_defs =
  AttestationData_MarshalSSZ_def SignedAttestation_MarshalSSZ_def SignedBlockWithAttestation_MarshalSSZ_def marshal

lemma wire_laws:
  "SignedBlockWithAttestation_UnmarshalSSZ lib bs \<noteq> Inl SlicePanic"
  "SignedAttestation_UnmarshalSSZ lib bs \<noteq> Inl SlicePanic"
  "(SignedBlockWithAttestation_UnmarshalSSZ lib bs = Inr s) =
    (bwa_proposer_attestation (sb_message s) \<noteq> None \<and> SignedBlockWithAttestation_MarshalSSZ lib s = Inr bs)"
  "(SignedAttestation_UnmarshalSSZ lib bs = Inr a) = (SignedAttestation_MarshalSSZ lib a = Inr bs)"
  by (simp_all add: marshal_defs signed_block.no_panic signed_attestation.no_panic signed_block.dec_iff
      signed_attestation.dec_iff)

lemma decoded_attestations:
  assumes "SignedBlockWithAttestation_UnmarshalSSZ lib d = Inr sb"
  shows "length (body_attestations (b_body (bwa_block (sb_message sb)))) \<le> 4096"
  using assms by (auto simp: signed_block.dec_iff SignedBlockWithAttestation_to BlockWithAttestation_to Block_to
      BlockBody_to and_then_eq_Inr_iff split: if_splits)

lemma attestation_data_wire:
  assumes "AttestationData_MarshalSSZ lib a = Inr d"
  shows "length d = 128" and "AttestationData_UnmarshalSSZ lib d = Inr a"
  using assms attestation_data.dec_iff [of d a] attestation_data.to_size [of a d]
  by (simp_all add: marshal_defs AttestationData_SizeSSZ_def)

lemma attestations_marshal:
  "\<exists>d. SignedAttestation_MarshalSSZ lib sa = Inr d" "\<exists>d. AttestationData_MarshalSSZ lib a = Inr d"
  using signed_attestation.total attestation_data.total by (simp_all add: marshal_defs)

lemma marshal_filled:
  "BlockWithAttestation_MarshalSSZTo lib (m\<lparr>bwa_proposer_attestation := Some (proposer_filled m)\<rparr>) =
   BlockWithAttestation_MarshalSSZTo lib m"
  by (simp add: fun_eq_iff BlockWithAttestation_MarshalSSZTo_def proposer_filled_def)

lemma signed_block_marshals:
  assumes "length (body_attestations (b_body (bwa_block (sb_message s)))) \<le> 4096" and "length (sb_signature s) \<le> 4096"
  obtains bs where "SignedBlockWithAttestation_MarshalSSZ lib s = Inr bs"
    and "length bs = SignedBlockWithAttestation_SizeSSZ s"
    and "SignedBlockWithAttestation_UnmarshalSSZ lib bs =
      Inr (s\<lparr>sb_message := (sb_message s)\<lparr>bwa_proposer_attestation := Some (proposer_filled (sb_message s))\<rparr>\<rparr>)"
proof -
  obtain bs where bs: "SignedBlockWithAttestation_MarshalSSZTo lib s [] = Inr bs"
    using assms by (simp add: SignedBlockWithAttestation_to BlockWithAttestation_to Block_to BlockBody_to)
  let ?filled = "s\<lparr>sb_message := (sb_message s)\<lparr>bwa_proposer_attestation := Some (proposer_filled (sb_message s))\<rparr>\<rparr>"
  have "SignedBlockWithAttestation_MarshalSSZTo lib ?filled [] = Inr bs"
    using bs by (simp add: SignedBlockWithAttestation_MarshalSSZTo_def Let_def marshal_filled
        BlockWithAttestation_SizeSSZ_def cong: if_cong)
  then have "SignedBlockWithAttestation_UnmarshalSSZ lib bs = Inr ?filled"
    by (simp add: signed_block.dec_iff)
  then show ?thesis using that bs signed_block.to_size [OF bs] by (simp add: marshal_defs)
qed

end

text \<open>The smallest envelope: a block without attestations and without signatures.\<close>

definition ex_wire :: SignedBlockWithAttestation where
  "ex_wire =
     \<lparr>sb_message =
        \<lparr>bwa_block = \<lparr>b_slot = 1, b_proposer = 1, b_parent_root = ZeroHash, b_state_root = ZeroHash,
                      b_body = \<lparr>body_attestations = []\<rparr>\<rparr>,
         bwa_proposer_attestation = None\<rparr>,
      sb_signature = []\<rparr>"

text \<open>
  C15: block envelopes survive the wire. An envelope with at most 4096 attestations and 4096
  signatures is encoded without error, in exactly as many bytes as \<open>SizeSSZ\<close> says, and decoding the
  bytes gives the envelope back; only a missing proposer attestation comes back as the empty attestation
  that the encoder wrote for it.
\<close>

theorem signed_block_roundtrip:
  assumes "ssz_library lib"
    and "length (body_attestations (b_body (bwa_block (sb_message s)))) \<le> 4096" and "length (sb_signature s) \<le> 4096"
  shows "\<exists>bs. SignedBlockWithAttestation_MarshalSSZ lib s = Inr bs \<and>
    length bs = SignedBlockWithAttestation_SizeSSZ s \<and>
    SignedBlockWithAttestation_UnmarshalSSZ lib bs =
      Inr (s\<lparr>sb_message := (sb_message s)\<lparr>bwa_proposer_attestation := Some (proposer_filled (sb_message s))\<rparr>\<rparr>)"
  by (rule ssz_library.signed_block_marshals [OF assms]) blast

theorem signed_block_roundtrip_witness:
  "ssz_library le_lib \<and> (\<exists>bs. SignedBlockWithAttestation_MarshalSSZ le_lib ex_wire = Inr bs \<and> length bs = 236 \<and>
    SignedBlockWithAttestation_UnmarshalSSZ le_lib bs =
      Inr (ex_wire\<lparr>sb_message := (sb_message ex_wire)\<lparr>bwa_proposer_attestation := Some new_Attestation\<rparr>\<rparr>))"
proof -
  have "SignedBlockWithAttestation_SizeSSZ ex_wire = 236" "proposer_filled (sb_message ex_wire) = new_Attestation"
    by (simp_all add: ex_wire_def proposer_filled_def SignedBlockWithAttestation_SizeSSZ_def
        BlockWithAttestation_SizeSSZ_def Block_SizeSSZ_def BlockBody_SizeSSZ_def)
  then show ?thesis
    using signed_block_roundtrip [OF le.ssz_library_axioms, of ex_wire] le.ssz_library_axioms
    by (simp add: ex_wire_def)
qed

text \<open>
  C16: what peers send cannot crash the decoders, and has one meaning. For every byte string, decoding it
  as a block envelope or as a signed attestation never evaluates a slice expression out of range; and it
  yields a value exactly when the bytes are the encoding of that value (with its proposer attestation
  present), so that no value can be sent as two different messages.
\<close>

theorem wire_decoding_canonical:
  assumes "ssz_library lib"
  shows "SignedBlockWithAttestation_UnmarshalSSZ lib bs \<noteq> Inl SlicePanic \<and>
    SignedAttestation_UnmarshalSSZ lib bs \<noteq> Inl SlicePanic \<and>
    (SignedBlockWithAttestation_UnmarshalSSZ lib bs = Inr s) =
      (bwa_proposer_attestation (sb_message s) \<noteq> None \<and> SignedBlockWithAttestation_MarshalSSZ lib s = Inr bs) \<and>
    (SignedAttestation_UnmarshalSSZ lib bs = Inr a) = (SignedAttestation_MarshalSSZ lib a = Inr bs)"
  using ssz_library.wire_laws [OF assms] by blast

theorem wire_decoding_canonical_witness:
  "ssz_library le_lib \<and> SignedBlockWithAttestation_UnmarshalSSZ le_lib [8, 0, 0, 0, 9, 0, 0, 0, 1] \<noteq> Inl SlicePanic"
  using wire_decoding_canonical [OF le.ssz_library_axioms] le.ssz_library_axioms by simp

end
