(* ===== verification/StateEncoding.thy ===== *)
theory StateEncoding
  imports Encoding
begin

text \<open>
  The SSZ codec of the consensus state (\<open>types/state_encoding.go\<close>): five variable fields behind a
  fixed part of 228 bytes. \<open>State_UnmarshalSSZ\<close> takes the receiver of the method as an argument,
  because the method appends the two bitlists to what the receiver already holds.
\<close>

subsection \<open>The codec\<close>

definition State_MarshalSSZTo :: "ssz_lib \<Rightarrow> State \<Rightarrow> byte list \<Rightarrow> ssz_error + byte list" where
  "State_MarshalSSZTo lib s buf =
     (let num5 = length (st_historical_block_hashes s); num6 = length (st_justified_slots s);
          num7 = length (st_validators s); num8 = length (st_justifications_roots s);
          num9 = length (st_justifications_validators s) in
      and_then (Config_MarshalSSZTo lib (st_config s) buf) (\<lambda>dst.
      let dst = MarshalUint64 lib dst (st_slot s) in
      and_then (BlockHeader_MarshalSSZTo lib (st_latest_block_header s) dst) (\<lambda>dst.
      and_then (Checkpoint_MarshalSSZTo lib (st_latest_justified s) dst) (\<lambda>dst.
      and_then (Checkpoint_MarshalSSZTo lib (st_latest_finalized s) dst) (\<lambda>dst.
      let offset = 228; dst = WriteOffset lib dst offset;
          offset = offset + num5 * 32; dst = WriteOffset lib dst offset;
          offset = offset + num6; dst = WriteOffset lib dst offset;
          offset = offset + num7 * 60; dst = WriteOffset lib dst offset;
          offset = offset + num8 * 32; dst = WriteOffset lib dst offset in
      if num5 > 262144 then Inl (ErrListTooBig num5 262144) else
      and_then (write_items write_array (st_historical_block_hashes s) dst) (\<lambda>dst.
      if num6 > 262144 then Inl (ErrBytesLength num6 262144) else
      let dst = dst @ st_justified_slots s in
      if num7 > 4096 then Inl (ErrListTooBig num7 4096) else
      and_then (write_items (Validator_MarshalSSZTo lib) (st_validators s) dst) (\<lambda>dst.
      if num8 > 262144 then Inl (ErrListTooBig num8 262144) else
      and_then (write_items write_array (st_justifications_roots s) dst) (\<lambda>dst.
      if num9 > 1073741824 then Inl (ErrBytesLength num9 1073741824) else
      Inr (dst @ st_justifications_validators s)))))))))"

text \<open>The offset of a later variable field lies within the buffer and not before the previous one.\<close>

definition next_offset :: "ssz_lib \<Rightarrow> byte list \<Rightarrow> nat \<Rightarrow> nat \<Rightarrow> nat \<Rightarrow> ssz_error + nat" where
  "next_offset lib buf a b prev =
     and_then (slice a b buf) (\<lambda>bs.
     let oN = unat (ReadOffset lib bs) in
     if oN > length buf \<or> prev > oN then Inl ErrOffset else Inr oN)"

definition read_roots :: "ssz_lib \<Rightarrow> byte list \<Rightarrow> ssz_error + root list" where
  "read_roots lib buf =
     and_then (DivideInt2 lib (length buf) 32 262144) (\<lambda>num.
     read_items (\<lambda>bs. Inr (bytes_of bs)) 32 [0..<num] buf)"

definition read_bitlist :: "ssz_lib \<Rightarrow> nat \<Rightarrow> byte list \<Rightarrow> byte list \<Rightarrow> ssz_error + byte list" where
  "read_bitlist lib limit old buf =
     (case ValidateBitlist lib buf limit of Some err \<Rightarrow> Inl err | None \<Rightarrow> Inr (old @ buf))"

definition read_validators :: "ssz_lib \<Rightarrow> byte list \<Rightarrow> ssz_error + Validator list" where
  "read_validators lib buf =
     and_then (DivideInt2 lib (length buf) 60 4096) (\<lambda>num.
     read_items (Validator_UnmarshalSSZ lib) 60 [0..<num] buf)"

definition State_UnmarshalSSZ :: "ssz_lib \<Rightarrow> State \<Rightarrow> byte list \<Rightarrow> ssz_error + State" where
  "State_UnmarshalSSZ lib s tail =
     (if length tail < 228 then Inl ErrSize else
      and_then (and_then (slice 0 8 tail) (Config_UnmarshalSSZ lib)) (\<lambda>config.
      and_then (read_uint64 lib 8 16 tail) (\<lambda>slot.
      and_then (and_then (slice 16 128 tail) (BlockHeader_UnmarshalSSZ lib)) (\<lambda>header.
      and_then (and_then (slice 128 168 tail) (Checkpoint_UnmarshalSSZ lib)) (\<lambda>justified.
      and_then (and_then (slice 168 208 tail) (Checkpoint_UnmarshalSSZ lib)) (\<lambda>finalized.
      and_then (first_offset lib tail 208 212 228) (\<lambda>o5.
      and_then (next_offset lib tail 212 216 o5) (\<lambda>o6.
      and_then (next_offset lib tail 216 220 o6) (\<lambda>o7.
      and_then (next_offset lib tail 220 224 o7) (\<lambda>o8.
      and_then (next_offset lib tail 224 228 o8) (\<lambda>o9.
      and_then (and_then (slice o5 o6 tail) (read_roots lib)) (\<lambda>hashes.
      and_then (and_then (slice o6 o7 tail) (read_bitlist lib 262144 (st_justified_slots s))) (\<lambda>slots.
      and_then (and_then (slice o7 o8 tail) (read_validators lib)) (\<lambda>validators.
      and_then (and_then (slice o8 o9 tail) (read_roots lib)) (\<lambda>roots.
      and_then (and_then (slice o9 (length tail) tail)
        (read_bitlist lib 1073741824 (st_justifications_validators s))) (\<lambda>votes.
      Inr \<lparr>st_config = config, st_slot = slot, st_latest_block_header = header,
           st_latest_justified = justified, st_latest_finalized = finalized,
           st_historical_block_hashes = hashes, st_justified_slots = slots, st_validators = validators,
           st_justifications_roots = roots, st_justifications_validators = votes\<rparr>))))))))))))))))"

definition State_SizeSSZ :: "State \<Rightarrow> nat" where
  "State_SizeSSZ s =
     228 + length (st_historical_block_hashes s) * 32 + length (st_justified_slots s) +
     length (st_validators s) * 60 + length (st_justifications_roots s) * 32 +
     length (st_justifications_validators s)"

definition State_MarshalSSZ :: "ssz_lib \<Rightarrow> State \<Rightarrow> ssz_error + byte list" where
  "State_MarshalSSZ lib s = MarshalSSZ lib (State_MarshalSSZTo lib s) (State_SizeSSZ s)"

text \<open>\<open>new(State)\<close>, whose pointer fields the decoder fills.\<close>

definition new_State :: State where
  "new_State =
     \<lparr>st_config = \<lparr>cfg_genesis_time = 0\<rparr>, st_slot = 0,
      st_latest_block_header = \<lparr>bh_slot = 0, bh_proposer = 0, bh_parent_root = ZeroHash,
        bh_state_root = ZeroHash, bh_body_root = ZeroHash\<rparr>,
      st_latest_justified = new_Checkpoint, st_latest_finalized = new_Checkpoint,
      st_historical_block_hashes = [], st_justified_slots = [], st_validators = [],
      st_justifications_roots = [], st_justifications_validators = []\<rparr>"

subsection \<open>It is a codec\<close>

text \<open>The limits the encoder checks, and the bitlists the decoder accepts.\<close>

definition state_fits :: "State \<Rightarrow> bool" where
  "state_fits s \<longleftrightarrow> length (st_historical_block_hashes s) \<le> 262144 \<and> length (st_justified_slots s) \<le> 262144 \<and>
     length (st_validators s) \<le> 4096 \<and> length (st_justifications_roots s) \<le> 262144 \<and>
     length (st_justifications_validators s) \<le> 1073741824"

definition state_bitlists :: "State \<Rightarrow> bool" where
  "state_bitlists s \<longleftrightarrow> bitlist_wf (st_justified_slots s) \<and> BitlistLen (st_justified_slots s) \<le> 262144 \<and>
     bitlist_wf (st_justifications_validators s) \<and> BitlistLen (st_justifications_validators s) \<le> 1073741824"

context ssz_library
begin

abbreviation roots_ssz :: "root list \<Rightarrow> byte list" where
  "roots_ssz rs \<equiv> concat (map (\<lambda>r. written (write_array r)) rs)"

abbreviation validators_ssz :: "Validator list \<Rightarrow> byte list" where
  "validators_ssz vs \<equiv> concat (map (\<lambda>v. written (Validator_MarshalSSZTo lib v)) vs)"

lemma length_roots_ssz: "length (roots_ssz rs) = length rs * 32"
  using array.length_items [of rs] by simp

lemma length_validators_ssz: "length (validators_ssz vs) = length vs * 60"
  by (rule validator.length_items)

definition state_ssz :: "State \<Rightarrow> byte list" where
  "state_ssz s =
     (let o6 = 228 + length (st_historical_block_hashes s) * 32; o7 = o6 + length (st_justified_slots s);
          o8 = o7 + length (st_validators s) * 60; o9 = o8 + length (st_justifications_roots s) * 32 in
      written (Config_MarshalSSZTo lib (st_config s)) @ MarshalUint64 lib [] (st_slot s) @
      written (BlockHeader_MarshalSSZTo lib (st_latest_block_header s)) @
      written (Checkpoint_MarshalSSZTo lib (st_latest_justified s)) @
      written (Checkpoint_MarshalSSZTo lib (st_latest_finalized s)) @
      WriteOffset lib [] 228 @ WriteOffset lib [] o6 @ WriteOffset lib [] o7 @ WriteOffset lib [] o8 @
      WriteOffset lib [] o9 @ roots_ssz (st_historical_block_hashes s) @ st_justified_slots s @
      validators_ssz (st_validators s) @ roots_ssz (st_justifications_roots s) @ st_justifications_validators s)"

lemma State_to_eq:
  "State_MarshalSSZTo lib s dst =
     (let num5 = length (st_historical_block_hashes s); num6 = length (st_justified_slots s);
          num7 = length (st_validators s); num8 = length (st_justifications_roots s);
          num9 = length (st_justifications_validators s) in
      if num5 > 262144 then Inl (ErrListTooBig num5 262144)
      else if num6 > 262144 then Inl (ErrBytesLength num6 262144)
      else if num7 > 4096 then Inl (ErrListTooBig num7 4096)
      else if num8 > 262144 then Inl (ErrListTooBig num8 262144)
      else if num9 > 1073741824 then Inl (ErrBytesLength num9 1073741824)
      else Inr (dst @ state_ssz s))"
  by (simp add: State_MarshalSSZTo_def Let_def config.to_written header.to_written checkpoint.to_written
      array.write_items_concat validator.write_items_concat state_ssz_def add.assoc)

lemma State_to_iff: "State_MarshalSSZTo lib s [] = Inr bs \<longleftrightarrow> state_fits s \<and> bs = state_ssz s"
  by (auto simp: State_to_eq Let_def state_fits_def)

lemma length_state_ssz: "length (state_ssz s) = State_SizeSSZ s"
  by (simp add: state_ssz_def Let_def State_SizeSSZ_def config.length_written header.length_written
      checkpoint.length_written uint64_length offset_length length_roots_ssz length_validators_ssz)

lemma next_offset_iff:
  assumes "a + 4 = b" and "b \<le> length buf"
  shows "next_offset lib buf a b prev = Inr oN \<longleftrightarrow>
    prev \<le> oN \<and> oN \<le> length buf \<and> oN = unat (ReadOffset lib (sub a b buf)) \<and> WriteOffset lib [] oN = sub a b buf"
  using assms offset_canonical [of "sub a b buf"] by (auto simp: next_offset_def Let_def)

lemma read_roots_iff:
  "read_roots lib buf = Inr rs \<longleftrightarrow> length rs \<le> 262144 \<and> buf = roots_ssz rs"
proof -
  have "DivideInt2 lib (length buf) 32 262144 = Inr n \<longleftrightarrow> length buf = n * 32 \<and> n \<le> 262144" for n
    by (rule divide) simp
  then show ?thesis
    using array.read_items_iff [where ?'n = 32] length_roots_ssz [of rs]
    by (auto simp: read_roots_def and_then_eq_Inr_iff)
qed

lemma read_validators_iff:
  "read_validators lib buf = Inr vs \<longleftrightarrow> length vs \<le> 4096 \<and> buf = validators_ssz vs"
proof -
  have "DivideInt2 lib (length buf) 60 4096 = Inr n \<longleftrightarrow> length buf = n * 60 \<and> n \<le> 4096" for n
    by (rule divide) simp
  then show ?thesis
    using validator.read_items_iff length_validators_ssz [of vs]
    by (auto simp: read_validators_def and_then_eq_Inr_iff)
qed

lemma read_bitlist_iff:
  "read_bitlist lib limit old buf = Inr bl \<longleftrightarrow> bitlist_wf buf \<and> BitlistLen buf \<le> limit \<and> bl = old @ buf"
  using bitlist [of buf limit] by (auto simp: read_bitlist_def split: option.split)

lemma length_valid_bitlist: "bitlist_wf bl \<Longrightarrow> BitlistLen bl \<le> 8 * n \<Longrightarrow> length bl \<le> n + 1"
  using bitlist_len_div [of bl] by simp

lemma State_decoded:
  assumes "State_UnmarshalSSZ lib new_State bs = Inr s"
  shows "state_bitlists s \<and> state_fits s \<and> bs = state_ssz s"
proof -
  obtain o6 o7 o8 o9 where len: "228 \<le> length bs" "228 \<le> o6" "o6 \<le> o7" "o7 \<le> o8" "o8 \<le> o9" "o9 \<le> length bs"
    and offsets: "sub 208 212 bs = WriteOffset lib [] 228" "WriteOffset lib [] o6 = sub 212 216 bs"
      "WriteOffset lib [] o7 = sub 216 220 bs" "WriteOffset lib [] o8 = sub 220 224 bs"
      "WriteOffset lib [] o9 = sub 224 228 bs"
    and fixed: "Config_UnmarshalSSZ lib (sub 0 8 bs) = Inr (st_config s)" "st_slot s = UnmarshallUint64 lib (sub 8 16 bs)"
      "BlockHeader_UnmarshalSSZ lib (sub 16 128 bs) = Inr (st_latest_block_header s)"
      "Checkpoint_UnmarshalSSZ lib (sub 128 168 bs) = Inr (st_latest_justified s)"
      "Checkpoint_UnmarshalSSZ lib (sub 168 208 bs) = Inr (st_latest_finalized s)"
    and fields: "read_roots lib (sub 228 o6 bs) = Inr (st_historical_block_hashes s)"
      "read_bitlist lib 262144 [] (sub o6 o7 bs) = Inr (st_justified_slots s)"
      "read_validators lib (sub o7 o8 bs) = Inr (st_validators s)"
      "read_roots lib (sub o8 o9 bs) = Inr (st_justifications_roots s)"
      "read_bitlist lib 1073741824 [] (sub o9 (length bs) bs) = Inr (st_justifications_validators s)"
    using assms
    by (auto simp: State_UnmarshalSSZ_def and_then_eq_Inr_iff first_offset_iff next_offset_iff new_State_def
        split: if_splits)
  have bytes: "sub 228 o6 bs = roots_ssz (st_historical_block_hashes s)" "sub o6 o7 bs = st_justified_slots s"
      "sub o7 o8 bs = validators_ssz (st_validators s)" "sub o8 o9 bs = roots_ssz (st_justifications_roots s)"
      "sub o9 (length bs) bs = st_justifications_validators s"
    and bitlists: "state_bitlists s"
    and few: "length (st_historical_block_hashes s) \<le> 262144" "length (st_validators s) \<le> 4096"
      "length (st_justifications_roots s) \<le> 262144"
    using fields by (simp_all add: read_roots_iff read_bitlist_iff read_validators_iff state_bitlists_def)
  have fits: "state_fits s"
    using few bitlists length_valid_bitlist [of _ 32768] length_valid_bitlist [of _ 134217728]
    by (force simp: state_fits_def state_bitlists_def)
  have o6: "228 + length (st_historical_block_hashes s) * 32 = o6"
    using arg_cong [OF bytes(1), of length] len by (simp add: length_roots_ssz)
  moreover have o7: "o6 + length (st_justified_slots s) = o7"
    using arg_cong [OF bytes(2), of length] len by simp
  moreover have o8: "o7 + length (st_validators s) * 60 = o8"
    using arg_cong [OF bytes(3), of length] len by (simp add: length_validators_ssz)
  moreover have o9: "o8 + length (st_justifications_roots s) * 32 = o9"
    using arg_cong [OF bytes(4), of length] len by (simp add: length_roots_ssz)
  moreover have "written (Config_MarshalSSZTo lib (st_config s)) = sub 0 8 bs"
    "written (BlockHeader_MarshalSSZTo lib (st_latest_block_header s)) = sub 16 128 bs"
    "written (Checkpoint_MarshalSSZTo lib (st_latest_justified s)) = sub 128 168 bs"
    "written (Checkpoint_MarshalSSZTo lib (st_latest_finalized s)) = sub 168 208 bs"
    using fixed by (simp_all add: config.decD header.decD checkpoint.decD)
  moreover have "MarshalUint64 lib [] (st_slot s) = sub 8 16 bs"
    using fixed(2) len by (simp add: uint64_canonical)
  ultimately have "state_ssz s = sub 0 8 bs @ sub 8 16 bs @ sub 16 128 bs @ sub 128 168 bs @ sub 168 208 bs @
      sub 208 212 bs @ sub 212 216 bs @ sub 216 220 bs @ sub 220 224 bs @ sub 224 228 bs @ sub 228 o6 bs @
      sub o6 o7 bs @ sub o7 o8 bs @ sub o8 o9 bs @ sub o9 (length bs) bs"
    by (simp add: state_ssz_def Let_def offsets bytes)
  also have "\<dots> = bs" using len by (simp add: sub_joins)
  finally show ?thesis using bitlists fits by simp
qed

lemma State_encoded:
  assumes "state_bitlists s" and "state_fits s"
  shows "State_UnmarshalSSZ lib new_State (state_ssz s) = Inr s"
proof -
  define o6 where "o6 = 228 + length (st_historical_block_hashes s) * 32"
  define o7 where "o7 = o6 + length (st_justified_slots s)"
  define o8 where "o8 = o7 + length (st_validators s) * 60"
  define o9 where "o9 = o8 + length (st_justifications_roots s) * 32"
  define bs where "bs = state_ssz s"
  have size: "length bs = o9 + length (st_justifications_validators s)"
    by (simp add: bs_def length_state_ssz State_SizeSSZ_def o9_def o8_def o7_def o6_def)
  note offset_defs = o9_def o8_def o7_def o6_def
  have order: "228 \<le> o6" "o6 \<le> o7" "o7 \<le> o8" "o8 \<le> o9" "o6 \<le> length bs" "o7 \<le> length bs" "o8 \<le> length bs"
      "o9 \<le> length bs" "228 \<le> length bs"
    unfolding size by (simp_all add: offset_defs)
  note lens = config.length_written header.length_written checkpoint.length_written uint64_length offset_length
    length_roots_ssz length_validators_ssz
  have bs: "bs = written (Config_MarshalSSZTo lib (st_config s)) @ MarshalUint64 lib [] (st_slot s) @
      written (BlockHeader_MarshalSSZTo lib (st_latest_block_header s)) @
      written (Checkpoint_MarshalSSZTo lib (st_latest_justified s)) @
      written (Checkpoint_MarshalSSZTo lib (st_latest_finalized s)) @
      WriteOffset lib [] 228 @ WriteOffset lib [] o6 @ WriteOffset lib [] o7 @ WriteOffset lib [] o8 @
      WriteOffset lib [] o9 @ roots_ssz (st_historical_block_hashes s) @ st_justified_slots s @
      validators_ssz (st_validators s) @ roots_ssz (st_justifications_roots s) @ st_justifications_validators s"
    by (simp add: bs_def state_ssz_def Let_def offset_defs)
  have small: "o6 < 2 ^ 32" "o7 < 2 ^ 32" "o8 < 2 ^ 32" "o9 < 2 ^ 32"
    using assms(2) by (simp_all add: offset_defs state_fits_def)
  have "sub 0 8 bs = written (Config_MarshalSSZTo lib (st_config s))"
    "sub 8 16 bs = MarshalUint64 lib [] (st_slot s)"
    "sub 16 128 bs = written (BlockHeader_MarshalSSZTo lib (st_latest_block_header s))"
    "sub 128 168 bs = written (Checkpoint_MarshalSSZTo lib (st_latest_justified s))"
    "sub 168 208 bs = written (Checkpoint_MarshalSSZTo lib (st_latest_finalized s))"
    by (simp_all add: bs lens)
  moreover have offsets: "sub 208 212 bs = WriteOffset lib [] 228" "sub 212 216 bs = WriteOffset lib [] o6"
    "sub 216 220 bs = WriteOffset lib [] o7" "sub 220 224 bs = WriteOffset lib [] o8"
    "sub 224 228 bs = WriteOffset lib [] o9"
    by (simp_all add: bs lens)
  moreover have "first_offset lib bs 208 212 228 = Inr 228" "next_offset lib bs 212 216 228 = Inr o6"
    "next_offset lib bs 216 220 o6 = Inr o7" "next_offset lib bs 220 224 o7 = Inr o8"
    "next_offset lib bs 224 228 o8 = Inr o9"
    using small order by (simp_all add: first_offset_iff next_offset_iff offsets offset_read offset_length)
  moreover have "sub 228 o6 bs = roots_ssz (st_historical_block_hashes s)"
    by (simp add: bs lens offset_defs)
  moreover have "sub o6 o7 bs = st_justified_slots s" "sub o7 o8 bs = validators_ssz (st_validators s)"
    "sub o8 o9 bs = roots_ssz (st_justifications_roots s)"
    "sub o9 (length bs) bs = st_justifications_validators s"
    by (simp_all add: bs lens offset_defs)
  moreover have "read_bitlist lib 262144 [] (st_justified_slots s) = Inr (st_justified_slots s)"
    "read_bitlist lib 1073741824 [] (st_justifications_validators s) = Inr (st_justifications_validators s)"
    using assms(1) by (simp_all add: read_bitlist_iff state_bitlists_def)
  moreover have "read_roots lib (roots_ssz (st_historical_block_hashes s)) = Inr (st_historical_block_hashes s)"
    "read_roots lib (roots_ssz (st_justifications_roots s)) = Inr (st_justifications_roots s)"
    "read_validators lib (validators_ssz (st_validators s)) = Inr (st_validators s)"
    using assms(2) by (simp_all add: read_roots_iff read_validators_iff state_fits_def)
  ultimately show ?thesis
    using order by (simp add: State_UnmarshalSSZ_def new_State_def bs_def [symmetric] uint64_read
        config.dec_of_written header.dec_of_written checkpoint.dec_of_written)
qed

end


sublocale ssz_library \<subseteq> state:
  codec state_bitlists "State_MarshalSSZTo lib" "State_UnmarshalSSZ lib new_State" State_SizeSSZ
proof
  fix bs :: "byte list" and s dst
  show "State_MarshalSSZTo lib s dst = and_then (State_MarshalSSZTo lib s []) (\<lambda>bs. Inr (dst @ bs))"
    by (simp add: State_to_eq Let_def)
  show "State_MarshalSSZTo lib s [] = Inr bs \<Longrightarrow> length bs = State_SizeSSZ s"
    by (auto simp: State_to_iff length_state_ssz)
  show "State_UnmarshalSSZ lib new_State bs = Inr s \<longleftrightarrow> state_bitlists s \<and> State_MarshalSSZTo lib s [] = Inr bs"
    using State_decoded State_encoded by (auto simp: State_to_iff)
  have roots: "read_roots lib buf \<noteq> Inl SlicePanic" for buf
  proof -
    have "DivideInt2 lib (length buf) 32 262144 = Inr n \<longleftrightarrow> length buf = n * 32 \<and> n \<le> 262144" for n
      by (rule divide) simp
    then show ?thesis using array.read_items_no_panic [where ?'n = 32]
      by (auto simp: read_roots_def and_then_eq_Inl_iff divide_error)
  qed
  have validators: "read_validators lib buf \<noteq> Inl SlicePanic" for buf
  proof -
    have "DivideInt2 lib (length buf) 60 4096 = Inr n \<longleftrightarrow> length buf = n * 60 \<and> n \<le> 4096" for n
      by (rule divide) simp
    then show ?thesis using validator.read_items_no_panic
      by (auto simp: read_validators_def and_then_eq_Inl_iff divide_error)
  qed
  have bitlists: "read_bitlist lib limit old buf \<noteq> Inl SlicePanic" for limit old buf
    using bitlist_error [of buf limit] by (auto simp: read_bitlist_def split: option.split)
  have offsets: "next_offset lib bs a b prev \<noteq> Inl SlicePanic" if "a \<le> b" "b \<le> length bs" for a b prev
    using that by (simp add: next_offset_def Let_def)
  show "State_UnmarshalSSZ lib new_State bs \<noteq> Inl SlicePanic"
    by (auto simp: State_UnmarshalSSZ_def and_then_eq_Inl_iff first_offset_iff first_offset_no_panic next_offset_iff
        config.no_panic header.no_panic checkpoint.no_panic roots validators bitlists offsets)
qed

context ssz_library
begin

lemma state_roundtrip:
  assumes "state_bitlists s" and "state_fits s"
  shows "\<exists>bs. State_MarshalSSZ lib s = Inr bs \<and> length bs = State_SizeSSZ s \<and> State_UnmarshalSSZ lib new_State bs = Inr s"
  using assms by (simp add: State_MarshalSSZ_def marshal State_to_iff length_state_ssz State_encoded)

end

text \<open>A decoded state is only as fresh as the receiver: bitlists are appended to those it holds.\<close>

lemma State_UnmarshalSSZ_appends:
  "State_UnmarshalSSZ lib s bs = and_then (State_UnmarshalSSZ lib new_State bs) (\<lambda>s'.
     Inr (s'\<lparr>st_justified_slots := st_justified_slots s @ st_justified_slots s',
            st_justifications_validators := st_justifications_validators s @ st_justifications_validators s'\<rparr>))"
  by (simp add: State_UnmarshalSSZ_def and_then_def read_bitlist_def new_State_def slice_def split: sum.split option.split)

end
