(* ===== verification/ReqResp.thy ===== *)
theory ReqResp
  imports Encoding
begin

text \<open>
  The request/response protocols of \<open>network/reqresp\<close>: \<open>codec.go\<close>, \<open>messages.go\<close>, \<open>client.go\<close> and
  \<open>server.go\<close>. A stream that is read is the list of bytes still to come; what is written to a stream is the
  list of bytes written. For the client, the other end is an argument \<open>peer\<close> that maps the bytes of the
  request to an error of opening, writing or closing the stream, or to the bytes of the response.

  The snappy package is a parameter: \<open>snappy_stream\<close> is what a buffered writer emits for some data until it is
  closed, \<open>snappy_read_full n\<close> is \<open>io.ReadFull\<close> of \<open>n\<close> bytes from a reader on a stream (with what is left of
  the stream), \<open>snappy_Encode\<close> and \<open>snappy_Decode\<close> are the block format. \<open>snappy_ok\<close> is what its documentation
  promises: what was written is read back, and reading consumes.
\<close>

subsection \<open>The snappy library\<close>

record snappy_lib =
  snappy_stream :: "byte list \<Rightarrow> byte list"
  snappy_read_full :: "nat \<Rightarrow> byte list \<Rightarrow> byte list option \<times> byte list"
  snappy_Encode :: "byte list \<Rightarrow> byte list"
  snappy_Decode :: "byte list \<Rightarrow> byte list option"

definition snappy_ok :: "snappy_lib \<Rightarrow> bool" where
  "snappy_ok sn \<longleftrightarrow>
     (\<forall>data rest. snappy_read_full sn (length data) (snappy_stream sn data @ rest) = (Some data, rest)) \<and>
     (\<forall>n r. length (snd (snappy_read_full sn n r)) \<le> length r) \<and>
     (\<forall>data. snappy_Decode sn (snappy_Encode sn data) = Some data)"

subsection \<open>Messages\<close>

record Status =
  status_finalized :: Checkpoint
  status_head :: Checkpoint

definition ResponseSuccess :: byte where "ResponseSuccess = 0x00"

datatype rr_error =
    StreamFailed
  | ReadFailed read_error
  | MessageTooLarge u64
  | SnappyFrameDecode
  | InvalidStatusLength nat
  | InvalidRootsLength nat
  | TooManyRoots nat
  | PeerErrorCode byte

subsection \<open>Frames\<close>

definition ReadResponseCode :: "byte list \<Rightarrow> (read_error + byte) \<times> byte list" where
  "ReadResponseCode r = (case r of [] \<Rightarrow> (Inl EOF, []) | b # r' \<Rightarrow> (Inr b, r'))"

definition ReadSnappyFrame :: "snappy_lib \<Rightarrow> byte list \<Rightarrow> (rr_error + byte list) \<times> byte list" where
  "ReadSnappyFrame sn r =
     (case ReadUvarint r of
        (Inl err, r1) \<Rightarrow> (Inl (ReadFailed err), r1)
      | (Inr len, r1) \<Rightarrow>
          if len > 10 * 1024 * 1024 then (Inl (MessageTooLarge len), r1)
          else case snappy_read_full sn (unat len) r1 of
                 (None, r2) \<Rightarrow> (Inl SnappyFrameDecode, r2)
               | (Some decoded, r2) \<Rightarrow> (Inr decoded, r2))"

definition WriteSnappyFrame :: "snappy_lib \<Rightarrow> byte list \<Rightarrow> byte list" where
  "WriteSnappyFrame sn data = PutUvarint (of_nat (length data)) @ snappy_stream sn data"

definition ReadStatus :: "snappy_lib \<Rightarrow> byte list \<Rightarrow> (rr_error + Status) \<times> byte list" where
  "ReadStatus sn r =
     (case ReadSnappyFrame sn r of
        (Inl err, r1) \<Rightarrow> (Inl err, r1)
      | (Inr data, r1) \<Rightarrow>
          if length data \<noteq> 80 then (Inl (InvalidStatusLength (length data)), r1)
          else (Inr \<lparr>status_finalized = \<lparr>cp_root = bytes_of (sub 0 32 data), cp_slot = Uint64 (sub 32 40 data)\<rparr>,
                     status_head = \<lparr>cp_root = bytes_of (sub 40 72 data), cp_slot = Uint64 (sub 72 80 data)\<rparr>\<rparr>, r1))"

definition WriteStatus :: "snappy_lib \<Rightarrow> Status \<Rightarrow> byte list" where
  "WriteStatus sn status =
     WriteSnappyFrame sn
       (list_of_bytes (cp_root (status_finalized status)) @ PutUint64 (cp_slot (status_finalized status)) @
        list_of_bytes (cp_root (status_head status)) @ PutUint64 (cp_slot (status_head status)))"

definition writeSignedBlock :: "ssz_lib \<Rightarrow> snappy_lib \<Rightarrow> SignedBlockWithAttestation \<Rightarrow> ssz_error + byte list" where
  "writeSignedBlock lib sn block =
     and_then (SignedBlockWithAttestation_MarshalSSZ lib block) (\<lambda>data. Inr (WriteSnappyFrame sn data))"

definition readBlocksByRootRequest :: "snappy_lib \<Rightarrow> byte list \<Rightarrow> rr_error + root list" where
  "readBlocksByRootRequest sn r =
     (case fst (ReadSnappyFrame sn r) of
        Inl err \<Rightarrow> Inl err
      | Inr data \<Rightarrow>
          if length data mod 32 \<noteq> 0 then Inl (InvalidRootsLength (length data))
          else let n = length data div 32 in
            if n > MaxRequestBlocks then Inl (TooManyRoots n)
            else Inr (map (\<lambda>i. bytes_of (sub (i * 32) ((i + 1) * 32) data)) [0..<n]))"

subsection \<open>The server\<close>

text \<open>The bytes a handler writes before it closes the stream; a \<open>nil\<close> callback is \<open>None\<close>.\<close>

definition handleStatus :: "snappy_lib \<Rightarrow> (Status \<Rightarrow> Status) option \<Rightarrow> byte list \<Rightarrow> byte list" where
  "handleStatus sn onStatus s =
     (case onStatus of None \<Rightarrow> []
      | Some onStatus \<Rightarrow>
          (case fst (ReadStatus sn s) of Inl _ \<Rightarrow> []
           | Inr req \<Rightarrow> ResponseSuccess # WriteStatus sn (onStatus req)))"

fun send_blocks :: "ssz_lib \<Rightarrow> snappy_lib \<Rightarrow> SignedBlockWithAttestation list \<Rightarrow> byte list" where
  "send_blocks lib sn [] = []"
| "send_blocks lib sn (block # blocks) =
     ResponseSuccess #
       (case writeSignedBlock lib sn block of Inl _ \<Rightarrow> [] | Inr bs \<Rightarrow> bs @ send_blocks lib sn blocks)"

definition handleBlocksByRoot ::
    "ssz_lib \<Rightarrow> snappy_lib \<Rightarrow> (root list \<Rightarrow> SignedBlockWithAttestation list) option \<Rightarrow> byte list \<Rightarrow> byte list" where
  "handleBlocksByRoot lib sn onBlocksByRoot s =
     (case onBlocksByRoot of None \<Rightarrow> []
      | Some onBlocksByRoot \<Rightarrow>
          (case readBlocksByRootRequest sn s of Inl _ \<Rightarrow> []
           | Inr roots \<Rightarrow> send_blocks lib sn (onBlocksByRoot roots)))"

subsection \<open>The client\<close>

definition RequestStatus ::
    "snappy_lib \<Rightarrow> (byte list \<Rightarrow> rr_error + byte list) \<Rightarrow> Status \<Rightarrow> rr_error + Status" where
  "RequestStatus sn peer status =
     and_then (peer (WriteStatus sn status)) (\<lambda>s.
     case ReadResponseCode s of
       (Inl err, _) \<Rightarrow> Inl (ReadFailed err)
     | (Inr code, s1) \<Rightarrow>
         if code \<noteq> ResponseSuccess then Inl (PeerErrorCode code) else fst (ReadStatus sn s1))"

text \<open>The loop over the responses: it returns the blocks read so far, with an error if there was one.\<close>

partial_function (option) read_blocks ::
    "ssz_lib \<Rightarrow> snappy_lib \<Rightarrow> byte list \<Rightarrow> SignedBlockWithAttestation list \<Rightarrow>
     (SignedBlockWithAttestation list \<times> rr_error option) option" where
  "read_blocks lib sn s blocks =
     (case ReadResponseCode s of
        (Inl err, _) \<Rightarrow> Some (blocks, if err = EOF then None else Some (ReadFailed err))
      | (Inr code, s1) \<Rightarrow>
          if code \<noteq> ResponseSuccess then Some (blocks, None)
          else case ReadSnappyFrame sn s1 of
                 (Inl err, _) \<Rightarrow> Some (blocks, Some err)
               | (Inr data, s2) \<Rightarrow>
                   (case SignedBlockWithAttestation_UnmarshalSSZ lib data of
                      Inl _ \<Rightarrow> read_blocks lib sn s2 blocks
                    | Inr block \<Rightarrow> read_blocks lib sn s2 (blocks @ [block])))"

declare read_blocks.simps [code]

definition RequestBlocksByRoot ::
    "ssz_lib \<Rightarrow> snappy_lib \<Rightarrow> (byte list \<Rightarrow> rr_error + byte list) \<Rightarrow> root list \<Rightarrow>
     (SignedBlockWithAttestation list \<times> rr_error option) option" where
  "RequestBlocksByRoot lib sn peer roots =
     (let rootsBuf = concat (map list_of_bytes roots) in
      case peer (WriteSnappyFrame sn rootsBuf) of
        Inl err \<Rightarrow> Some ([], Some err)
      | Inr s \<Rightarrow> read_blocks lib sn s [])"

subsection \<open>Frames are read back\<close>

lemma ReadSnappyFrame_Write:
  assumes "snappy_ok sn" and "length data \<le> 10485760"
  shows "ReadSnappyFrame sn (WriteSnappyFrame sn data @ rest) = (Inr data, rest)"
proof -
  have "unat (of_nat (length data) :: u64) = length data" using assms(2) by simp
  moreover have "\<not> (of_nat (length data) :: u64) > 10 * 1024 * 1024"
    using assms(2) by (simp add: word_less_nat_alt)
  ultimately show ?thesis
    using assms(1) by (simp add: ReadSnappyFrame_def WriteSnappyFrame_def ReadUvarint_PutUvarint snappy_ok_def)
qed

lemma ReadSnappyFrame_too_large:
  assumes "10485760 < length data" and "length data < 2 ^ 64"
  shows "fst (ReadSnappyFrame sn (WriteSnappyFrame sn data @ rest)) = Inl (MessageTooLarge (of_nat (length data)))"
proof -
  have "(of_nat (length data) :: u64) > 10 * 1024 * 1024"
    using assms by (simp add: word_less_nat_alt)
  then show ?thesis by (simp add: ReadSnappyFrame_def WriteSnappyFrame_def ReadUvarint_PutUvarint)
qed

lemma ReadStatus_WriteStatus:
  assumes "snappy_ok sn"
  shows "ReadStatus sn (WriteStatus sn status @ rest) = (Inr status, rest)"
  by (simp add: ReadStatus_def WriteStatus_def ReadSnappyFrame_Write [OF assms])

text \<open>Reading consumes: this is what makes the client's loop end.\<close>

lemma uvarint_loop_consumes: "length (snd (uvarint_loop i x s bs)) \<le> length bs"
proof (induction i x s bs rule: uvarint_loop.induct)
  case (1 i x s bs)
  then show ?case by (subst uvarint_loop.simps) (auto split: list.split intro: le_SucI)
qed

lemma ReadSnappyFrame_consumes:
  "snappy_ok sn \<Longrightarrow> length (snd (ReadSnappyFrame sn r)) \<le> length r"
  using uvarint_loop_consumes [of 0 0 0 r]
  by (auto simp: ReadSnappyFrame_def ReadUvarint_def snappy_ok_def split: prod.splits sum.splits option.splits)
    (metis order_trans snd_conv)+

lemma read_blocks_total:
  assumes "snappy_ok sn"
  shows "\<exists>y. read_blocks lib sn s blocks = Some y"
proof (induction "length s" arbitrary: s blocks rule: less_induct)
  case less
  show ?case
  proof (cases s)
    case Nil
    then show ?thesis by (simp add: read_blocks.simps [of lib sn "[]"] ReadResponseCode_def)
  next
    case (Cons code s1)
    have "length (snd (ReadSnappyFrame sn s1)) < length s"
      using ReadSnappyFrame_consumes [OF assms, of s1] Cons by simp
    then show ?thesis
      using less Cons
      by (cases "ReadSnappyFrame sn s1")
        (auto simp: read_blocks.simps [of lib sn "code # s1"] ReadResponseCode_def split: sum.split)
  qed
qed


subsection \<open>Exchanges\<close>

text \<open>An envelope whose encoding fits into a frame, and the envelope as the other side reads it.\<close>

definition fits_frame :: "SignedBlockWithAttestation \<Rightarrow> bool" where
  "fits_frame s \<longleftrightarrow> length (body_attestations (b_body (bwa_block (sb_message s)))) \<le> 4096 \<and>
     length (sb_signature s) \<le> 4096 \<and> SignedBlockWithAttestation_SizeSSZ s \<le> 10485760"

definition as_received :: "SignedBlockWithAttestation \<Rightarrow> SignedBlockWithAttestation" where
  "as_received s = s\<lparr>sb_message := (sb_message s)\<lparr>bwa_proposer_attestation := Some (proposer_filled (sb_message s))\<rparr>\<rparr>"

lemma read_blocks_send_blocks:
  assumes "ssz_library lib" and "snappy_ok sn" and "\<forall>s \<in> set bs. fits_frame s"
  shows "read_blocks lib sn (send_blocks lib sn bs) blocks = Some (blocks @ map as_received bs, None)"
  using assms(3)
proof (induction bs arbitrary: blocks)
  case Nil
  show ?case by (simp add: read_blocks.simps [of lib sn "[]"] ReadResponseCode_def)
next
  case (Cons s bs)
  then obtain d where d: "SignedBlockWithAttestation_MarshalSSZ lib s = Inr d"
    "length d = SignedBlockWithAttestation_SizeSSZ s"
    "SignedBlockWithAttestation_UnmarshalSSZ lib d = Inr (as_received s)"
    using ssz_library.signed_block_marshals [OF assms(1)] by (auto simp: fits_frame_def as_received_def)
  then have "ReadSnappyFrame sn (WriteSnappyFrame sn d @ rest) = (Inr d, rest)" for rest
    using Cons.prems by (intro ReadSnappyFrame_Write [OF assms(2)]) (simp add: fits_frame_def)
  then show ?case
    using Cons d by (simp add: writeSignedBlock_def ReadResponseCode_def ResponseSuccess_def
        read_blocks.simps [of lib sn "0 # _"])
qed

lemma readBlocksByRootRequest_frame:
  assumes "snappy_ok sn" and "length roots \<le> 1024"
  shows "readBlocksByRootRequest sn (WriteSnappyFrame sn (concat (map list_of_bytes roots))) = Inr roots"
proof -
  let ?data = "concat (map list_of_bytes roots)"
  have len: "length ?data = length roots * 32" by (induction roots) simp_all
  have "map (\<lambda>i. bytes_of (sub (i * 32) ((i + 1) * 32) ?data)) [0..<length roots] = roots"
  proof (rule nth_equalityI)
    fix i assume "i < length (map (\<lambda>i. bytes_of (sub (i * 32) ((i + 1) * 32) ?data) :: root) [0..<length roots])"
    then have i: "i < length roots" by simp
    have "?data = concat (map list_of_bytes (take i roots)) @ list_of_bytes (roots ! i) @
        concat (map list_of_bytes (drop (Suc i) roots))"
      using i by (metis id_take_nth_drop concat.simps(2) concat_append list.simps(9) map_append)
    moreover have "length (concat (map list_of_bytes (take i roots))) = i * 32"
      using i length_concat_equal [of "map list_of_bytes (take i roots)" 32] by simp
    ultimately have "sub (i * 32) ((i + 1) * 32) ?data = list_of_bytes (roots ! i)" by simp
    then show "map (\<lambda>i. bytes_of (sub (i * 32) ((i + 1) * 32) ?data)) [0..<length roots] ! i = roots ! i"
      using i by simp
  qed simp
  moreover have "ReadSnappyFrame sn (WriteSnappyFrame sn ?data @ []) = (Inr ?data, [])"
    using assms(2) len by (intro ReadSnappyFrame_Write [OF assms(1)]) simp
  ultimately show ?thesis
    using len assms(2) by (simp add: readBlocksByRootRequest_def MaxRequestBlocks_def)
qed

text \<open>The trivial snappy stream: everything stored as it is.\<close>

definition stored :: snappy_lib where
  "stored = \<lparr>snappy_stream = (\<lambda>d. d), snappy_read_full = (\<lambda>n r. if n \<le> length r then (Some (take n r), drop n r) else (None, [])),
     snappy_Encode = (\<lambda>d. d), snappy_Decode = Some\<rparr>"

lemma stored_ok: "snappy_ok stored"
  by (simp add: snappy_ok_def stored_def)

text \<open>
  C18: two nodes understand each other. A status request to a peer that runs the status handler returns what the
  peer's callback answers to exactly the status that was sent. A request for at most 1024 roots to a peer that
  runs the blocks handler reaches its callback as the same list of roots, and returns the callback's blocks,
  all of them, in order and without error, provided they fit into a frame; only a missing proposer attestation
  comes back as the empty one.
\<close>

theorem reqresp_exchange:
  assumes "ssz_library lib" and "snappy_ok sn" and "length roots \<le> 1024" and "\<forall>s \<in> set (onBlocks roots). fits_frame s"
  shows "RequestStatus sn (\<lambda>req. Inr (handleStatus sn (Some onStatus) req)) status = Inr (onStatus status) \<and>
    RequestBlocksByRoot lib sn (\<lambda>req. Inr (handleBlocksByRoot lib sn (Some onBlocks) req)) roots =
      Some (map as_received (onBlocks roots), None)"
proof
  show "RequestStatus sn (\<lambda>req. Inr (handleStatus sn (Some onStatus) req)) status = Inr (onStatus status)"
    using ReadStatus_WriteStatus [OF assms(2), of _ "[]"]
    by (simp add: RequestStatus_def handleStatus_def ReadResponseCode_def)
  show "RequestBlocksByRoot lib sn (\<lambda>req. Inr (handleBlocksByRoot lib sn (Some onBlocks) req)) roots =
      Some (map as_received (onBlocks roots), None)"
    using readBlocksByRootRequest_frame [OF assms(2,3)] read_blocks_send_blocks [OF assms(1,2,4), of "[]"]
    by (simp add: RequestBlocksByRoot_def handleBlocksByRoot_def)
qed

lemma ex_wire_fits: "fits_frame ex_wire"
  by (simp add: fits_frame_def ex_wire_def SignedBlockWithAttestation_SizeSSZ_def BlockWithAttestation_SizeSSZ_def
      Block_SizeSSZ_def BlockBody_SizeSSZ_def)

theorem reqresp_exchange_witness:
  "snappy_ok stored \<and> ssz_library le_lib \<and>
   RequestBlocksByRoot le_lib stored
     (\<lambda>req. Inr (handleBlocksByRoot le_lib stored (Some (\<lambda>roots. map (\<lambda>r. ex_wire) roots)) req)) [ZeroHash, ZeroHash] =
   Some ([as_received ex_wire, as_received ex_wire], None)"
  using reqresp_exchange [OF le.ssz_library_axioms stored_ok, of "[ZeroHash, ZeroHash]" "\<lambda>roots. map (\<lambda>r. ex_wire) roots"]
    ex_wire_fits stored_ok le.ssz_library_axioms by simp



text \<open>
  The frame limit of 10 MiB is below what the types allow: an envelope with 4095 body attestations and the 4096
  signatures they need is encoded, but the client refuses to read it, and no other path delivers a missed block.
\<close>

lemma full_envelope_not_served:
  assumes "ssz_library lib" and "length (body_attestations (b_body (bwa_block (sb_message s)))) = 4095"
    and "length (sb_signature s) = 4096"
  shows "\<exists>bs. SignedBlockWithAttestation_MarshalSSZ lib s = Inr bs \<and>
    RequestBlocksByRoot lib sn (\<lambda>_. Inr (send_blocks lib sn [s])) [r] = Some ([], Some (MessageTooLarge (of_nat (length bs))))"
proof -
  obtain bs where bs: "SignedBlockWithAttestation_MarshalSSZ lib s = Inr bs" "length bs = SignedBlockWithAttestation_SizeSSZ s"
    by (rule ssz_library.signed_block_marshals [OF assms(1), of s]) (use assms(2,3) in simp_all)
  then have "length bs = 13303908"
    using assms(2,3) by (simp add: SignedBlockWithAttestation_SizeSSZ_def BlockWithAttestation_SizeSSZ_def
        Block_SizeSSZ_def BlockBody_SizeSSZ_def)
  then have "fst (ReadSnappyFrame sn (WriteSnappyFrame sn bs @ [])) = Inl (MessageTooLarge (of_nat (length bs)))"
    by (intro ReadSnappyFrame_too_large) simp_all
  then show ?thesis
    using bs(1) by (cases "ReadSnappyFrame sn (WriteSnappyFrame sn bs)")
      (simp add: RequestBlocksByRoot_def writeSignedBlock_def ReadResponseCode_def ResponseSuccess_def
        read_blocks.simps [of lib sn "0 # _"])
qed

end
