(* ===== verification/Gossip.thy ===== *)
theory Gossip
  imports ReqResp
begin

text \<open>
  The gossip messages of \<open>network/gossipsub\<close>: \<open>encoding.go\<close> and \<open>handler.go\<close>. Publishing yields the bytes
  handed to the topic. A subscription is the list of the messages it delivers before it ends; a reading loop
  is a function of that list and of the state its callback works on. The compressed block format is the one of
  the snappy parameter; SHA-256 is the argument \<open>sha256\<close>.
\<close>

subsection \<open>Publishing\<close>

definition PublishBlock :: "ssz_lib \<Rightarrow> snappy_lib \<Rightarrow> SignedBlockWithAttestation \<Rightarrow> ssz_error + byte list" where
  "PublishBlock lib sn sb =
     and_then (SignedBlockWithAttestation_MarshalSSZ lib sb) (\<lambda>data. Inr (snappy_Encode sn data))"

definition PublishAttestation :: "ssz_lib \<Rightarrow> snappy_lib \<Rightarrow> SignedAttestation \<Rightarrow> ssz_error + byte list" where
  "PublishAttestation lib sn sa =
     and_then (SignedAttestation_MarshalSSZ lib sa) (\<lambda>data. Inr (snappy_Encode sn data))"

definition PublishAggregatedAttestation :: "ssz_lib \<Rightarrow> snappy_lib \<Rightarrow> AggregatedAttestation \<Rightarrow> ssz_error + byte list" where
  "PublishAggregatedAttestation lib sn agg =
     and_then (AttestationData_MarshalSSZ lib (agg_data agg)) (\<lambda>dataSSZ.
     let buf = PutUint32 (of_nat (length dataSSZ)) @ dataSSZ @
               PutUint32 (of_nat (length (agg_bits agg))) @ agg_bits agg @
               agg_signature agg
     in Inr (snappy_Encode sn buf))"

subsection \<open>Decoding\<close>

datatype agg_decode_error =
    MessageTooShort nat
  | DataLengthExceedsMessage
  | DataUnmarshalFailed ssz_error
  | MissingBitsLength
  | BitsLengthExceedsMessage

definition DecodeAggregatedAttestation :: "ssz_lib \<Rightarrow> byte list \<Rightarrow> agg_decode_error + AggregatedAttestation" where
  "DecodeAggregatedAttestation lib data =
     (if length data < 8 then Inl (MessageTooShort (length data))
      else
        let offset = 0;
            dataLen = unat (Uint32 (sub offset (offset + 4) data));
            offset = offset + 4
        in if offset + dataLen > length data then Inl DataLengthExceedsMessage
        else case AttestationData_UnmarshalSSZ lib (sub offset (offset + dataLen) data) of
               Inl err \<Rightarrow> Inl (DataUnmarshalFailed err)
             | Inr ad \<Rightarrow>
                 let offset = offset + dataLen in
                 if offset + 4 > length data then Inl MissingBitsLength
                 else
                   let bitsLen = unat (Uint32 (sub offset (offset + 4) data));
                       offset = offset + 4
                   in if offset + bitsLen > length data then Inl BitsLengthExceedsMessage
                   else
                     let bits = sub offset (offset + bitsLen) data;
                         offset = offset + bitsLen;
                         aggSig = drop offset data
                     in Inr \<lparr>agg_data = ad, agg_bits = bits, agg_signature = aggSig\<rparr>)"

subsection \<open>Receiving\<close>

text \<open>
  The body of the three loops: a message that does not decompress or decode is skipped, a \<open>nil\<close> callback is
  \<open>None\<close>.
\<close>

definition receive :: "snappy_lib \<Rightarrow> (byte list \<Rightarrow> 'e + 'm) \<Rightarrow> ('m \<Rightarrow> 's \<Rightarrow> 's) option \<Rightarrow> byte list \<Rightarrow> 's \<Rightarrow> 's" where
  "receive sn decode handler msg st =
     (case snappy_Decode sn msg of
        None \<Rightarrow> st
      | Some decoded \<Rightarrow>
          (case decode decoded of
             Inl _ \<Rightarrow> st
           | Inr m \<Rightarrow> (case handler of None \<Rightarrow> st | Some onMessage \<Rightarrow> onMessage m st)))"

definition readBlockMessages ::
    "ssz_lib \<Rightarrow> snappy_lib \<Rightarrow> (SignedBlockWithAttestation \<Rightarrow> 's \<Rightarrow> 's) option \<Rightarrow> byte list list \<Rightarrow> 's \<Rightarrow> 's" where
  "readBlockMessages lib sn onBlock msgs =
     fold (receive sn (SignedBlockWithAttestation_UnmarshalSSZ lib) onBlock) msgs"

definition readAttestationMessages ::
    "ssz_lib \<Rightarrow> snappy_lib \<Rightarrow> (SignedAttestation \<Rightarrow> 's \<Rightarrow> 's) option \<Rightarrow> byte list list \<Rightarrow> 's \<Rightarrow> 's" where
  "readAttestationMessages lib sn onAttestation msgs =
     fold (receive sn (SignedAttestation_UnmarshalSSZ lib) onAttestation) msgs"

definition readAggregatedAttestationMessages ::
    "ssz_lib \<Rightarrow> snappy_lib \<Rightarrow> (AggregatedAttestation \<Rightarrow> 's \<Rightarrow> 's) option \<Rightarrow> byte list list \<Rightarrow> 's \<Rightarrow> 's" where
  "readAggregatedAttestationMessages lib sn onAggregatedAttestation msgs =
     fold (receive sn (DecodeAggregatedAttestation lib) onAggregatedAttestation) msgs"

subsection \<open>Message identifiers\<close>

definition DomainValidSnappy :: "byte list" where "DomainValidSnappy = [0x01, 0x00, 0x00, 0x00]"
definition DomainInvalidSnappy :: "byte list" where "DomainInvalidSnappy = [0x00, 0x00, 0x00, 0x00]"

text \<open>What is written to the hash.\<close>

definition message_id_input :: "snappy_lib \<Rightarrow> byte list \<Rightarrow> byte list \<Rightarrow> byte list" where
  "message_id_input sn topic data =
     (let (domain, msgData) = (case snappy_Decode sn data of
            Some decoded \<Rightarrow> (DomainValidSnappy, decoded) | None \<Rightarrow> (DomainInvalidSnappy, data))
      in domain @ PutUint64 (of_nat (length topic)) @ topic @ msgData)"

definition ComputeMessageID :: "(byte list \<Rightarrow> byte list) \<Rightarrow> snappy_lib \<Rightarrow> byte list \<Rightarrow> byte list \<Rightarrow> byte list" where
  "ComputeMessageID sha256 sn topic data = sub 0 20 (sha256 (message_id_input sn topic data))"

subsection \<open>Lemmas\<close>

lemma unat_Uint32_PutUint32: "n < 2 ^ 32 \<Longrightarrow> unat (Uint32 (PutUint32 (of_nat n))) = n"
  by (simp add: unat_of_nat take_bit_nat_eq_self)

lemma DecodeAggregatedAttestation_published:
  assumes "ssz_library lib" and "AttestationData_MarshalSSZ lib (agg_data agg) = Inr d"
    and "length (agg_bits agg) < 2 ^ 32"
  shows "DecodeAggregatedAttestation lib (PutUint32 (of_nat (length d)) @ d @
    PutUint32 (of_nat (length (agg_bits agg))) @ agg_bits agg @ agg_signature agg) = Inr agg"
proof -
  have d: "length d = 128" "AttestationData_UnmarshalSSZ lib d = Inr (agg_data agg)"
    using ssz_library.attestation_data_wire [OF assms(1,2)] by simp_all
  have n: "unat (Uint32 (PutUint32 (of_nat (length d)))) = length d"
      "unat (Uint32 (PutUint32 (of_nat (length (agg_bits agg))))) = length (agg_bits agg)"
    by (rule unat_Uint32_PutUint32; use d(1) assms(3) in simp)+
  show ?thesis
    using d n by (simp add: DecodeAggregatedAttestation_def Let_def del: Uint32_PutUint32)
qed

lemma published_block_received:
  assumes "ssz_library lib" and "snappy_ok sn"
    and "length (body_attestations (b_body (bwa_block (sb_message sb)))) \<le> 4096" and "length (sb_signature sb) \<le> 4096"
  obtains msg where "PublishBlock lib sn sb = Inr msg"
    and "\<And>onBlock st. readBlockMessages lib sn (Some onBlock) [msg] st = onBlock (as_received sb) st"
proof -
  obtain data where "SignedBlockWithAttestation_MarshalSSZ lib sb = Inr data"
    "SignedBlockWithAttestation_UnmarshalSSZ lib data = Inr (as_received sb)"
    using ssz_library.signed_block_marshals [OF assms(1,3,4)] by (auto simp: as_received_def)
  then show ?thesis
    using assms(2) by (intro that [of "snappy_Encode sn data"]) (simp_all add: PublishBlock_def readBlockMessages_def receive_def snappy_ok_def)
qed

text \<open>
  C21: what is published is what other nodes handle. The message published for an attestation, for a block
  envelope within the limits of its lists, or for an aggregate, makes the reading loop of every subscriber call
  its callback once, with the value that was published (a missing proposer attestation filled in).
\<close>

theorem gossip_delivery:
  assumes "ssz_library lib" and "snappy_ok sn"
    and "length (body_attestations (b_body (bwa_block (sb_message sb)))) \<le> 4096" and "length (sb_signature sb) \<le> 4096"
    and "length (agg_bits agg) < 2 ^ 32"
  shows "\<exists>m1 m2 m3. PublishAttestation lib sn sa = Inr m1 \<and> readAttestationMessages lib sn (Some f1) [m1] st = f1 sa st \<and>
    PublishBlock lib sn sb = Inr m2 \<and> readBlockMessages lib sn (Some f2) [m2] st = f2 (as_received sb) st \<and>
    PublishAggregatedAttestation lib sn agg = Inr m3 \<and>
    readAggregatedAttestationMessages lib sn (Some f3) [m3] st = f3 agg st"
proof -
  have sn: "snappy_Decode sn (snappy_Encode sn d) = Some d" for d using assms(2) by (simp add: snappy_ok_def)
  obtain d1 where d1: "SignedAttestation_MarshalSSZ lib sa = Inr d1"
    using ssz_library.attestations_marshal(1) [OF assms(1)] by blast
  then have "SignedAttestation_UnmarshalSSZ lib d1 = Inr sa" using ssz_library.wire_laws(4) [OF assms(1)] by simp
  moreover obtain m2 where "PublishBlock lib sn sb = Inr m2" "readBlockMessages lib sn (Some f2) [m2] st = f2 (as_received sb) st"
    using published_block_received [OF assms(1-4)] by metis
  moreover obtain d3 where d3: "AttestationData_MarshalSSZ lib (agg_data agg) = Inr d3"
    using ssz_library.attestations_marshal(2) [OF assms(1)] by blast
  ultimately show ?thesis
    using d1 DecodeAggregatedAttestation_published [OF assms(1) d3 assms(5)]
    by (simp add: PublishAttestation_def PublishAggregatedAttestation_def readAttestationMessages_def
        readAggregatedAttestationMessages_def receive_def sn)
qed

definition ex_wire_vote :: SignedAttestation where
  "ex_wire_vote = \<lparr>sa_validator = 3, sa_message = att_data new_Attestation, sa_signature = bytes_of []\<rparr>"

theorem gossip_delivery_witness:
  "ssz_library le_lib \<and> snappy_ok stored \<and>
   (\<exists>m. PublishAttestation le_lib stored ex_wire_vote = Inr m \<and>
     readAttestationMessages le_lib stored (Some (\<lambda>sa votes. sa # votes)) [m] [] = [ex_wire_vote])"
  using gossip_delivery [OF le.ssz_library_axioms stored_ok, where sb = ex_wire and sa = ex_wire_vote and st = "[]"
      and ?f1.0 = "\<lambda>sa votes. sa # votes" and ?f2.0 = "\<lambda>_ votes. votes" and ?f3.0 = "\<lambda>_ votes. votes"
      and agg = "\<lparr>agg_data = att_data new_Attestation, agg_bits = [1], agg_signature = []\<rparr>"]
    le.ssz_library_axioms stored_ok
  by (auto simp: ex_wire_def)

text \<open>
  Identifiers tell messages apart and copies together. What is hashed for two messages is equal exactly when
  their topics are equal and either both decompress to the same payload or neither decompresses and the raw
  bytes are equal: differently compressed copies of a message have one identifier, and nothing else does short of
  a collision of SHA-256.
\<close>

theorem message_id_input_iff:
  assumes "length topic < 2 ^ 64" and "length topic' < 2 ^ 64"
  shows "message_id_input sn topic data = message_id_input sn topic' data' \<longleftrightarrow>
    topic = topic' \<and>
    (case (snappy_Decode sn data, snappy_Decode sn data') of
       (Some d, Some d') \<Rightarrow> d = d' | (None, None) \<Rightarrow> data = data' | _ \<Rightarrow> False)"
proof -
  have "length topic = length topic'" if "PutUint64 (of_nat (length topic)) = PutUint64 (of_nat (length topic'))"
    using arg_cong [OF that, of "\<lambda>bs. unat (Uint64 bs)"] assms by simp
  then show ?thesis
    by (auto simp: message_id_input_def DomainValidSnappy_def DomainInvalidSnappy_def split: option.split)
qed

theorem message_id_input_iff_witness:
  "message_id_input stored [1, 2] [3] \<noteq> message_id_input stored [1] [2, 3]"
  using message_id_input_iff [of "[1, 2]" "[1]" stored "[3]" "[2, 3]"] by simp

end
