(* ===== verification/ConfigFiles.thy ===== *)
theory ConfigFiles
  imports Types
begin

text \<open>
  Package \<open>config\<close>: the genesis file, the validator assignments and the boot nodes. Reading a file and parsing
  YAML happen outside the repository; they are the arguments \<open>readFile\<close> and \<open>yaml\<close>, which return \<open>None\<close> for
  an error. Of the standard library, \<open>hex.DecodeString\<close>, \<open>hex.EncodeToString\<close> (used by \<open>cmd/keygen\<close> to
  print the keys) and \<open>strings.TrimPrefix\<close> are modelled.
\<close>

unbundle bit_operations_syntax

subsection \<open>Hexadecimal strings\<close>

datatype hex_error = InvalidByteError char | ErrLength

definition hex_table :: "char list" where
  "hex_table = ''0123456789abcdef''"

definition from_hex :: "char \<Rightarrow> byte option" where
  "from_hex c =
     (let n = of_char c :: nat in
      if 48 \<le> n \<and> n \<le> 57 then Some (of_nat (n - 48))
      else if 97 \<le> n \<and> n \<le> 102 then Some (of_nat (n - 87))
      else if 65 \<le> n \<and> n \<le> 70 then Some (of_nat (n - 55))
      else None)"

fun hex_decode :: "string \<Rightarrow> hex_error + byte list" where
  "hex_decode [] = Inr []"
| "hex_decode [p] = (if from_hex p = None then Inl (InvalidByteError p) else Inl ErrLength)"
| "hex_decode (p # q # src) =
     (case from_hex p of
        None \<Rightarrow> Inl (InvalidByteError p)
      | Some a \<Rightarrow>
          (case from_hex q of
             None \<Rightarrow> Inl (InvalidByteError q)
           | Some b \<Rightarrow> and_then (hex_decode src) (\<lambda>dst. Inr ((push_bit 4 a OR b) # dst))))"

definition hex_encode :: "byte list \<Rightarrow> string" where
  "hex_encode bs = concat (map (\<lambda>v. [hex_table ! unat (drop_bit 4 v), hex_table ! unat (v AND 0x0f)]) bs)"

definition TrimPrefix :: "string \<Rightarrow> string \<Rightarrow> string" where
  "TrimPrefix s prefix = (if take (length prefix) s = prefix then drop (length prefix) s else s)"

subsection \<open>Genesis\<close>

record GenesisConfig =
  gc_genesis_time :: u64
  gc_validators :: "Validator list"

record rawGenesisConfig =
  raw_genesis_time :: u64
  raw_genesis_validators :: "string list"

datatype config_error =
    ReadFileFailed
  | ParseFailed
  | NoValidators
  | InvalidPubkeyHex nat hex_error
  | PubkeyLength nat nat

fun parse_validators :: "nat \<Rightarrow> string list \<Rightarrow> config_error + Validator list" where
  "parse_validators i [] = Inr []"
| "parse_validators i (hexStr # hexStrs) =
     (case hex_decode (TrimPrefix hexStr ''0x'') of
        Inl err \<Rightarrow> Inl (InvalidPubkeyHex i err)
      | Inr pubkeyBytes \<Rightarrow>
          if length pubkeyBytes \<noteq> 52 then Inl (PubkeyLength i (length pubkeyBytes))
          else and_then (parse_validators (i + 1) hexStrs) (\<lambda>vs.
            Inr (\<lparr>val_pubkey = bytes_of pubkeyBytes, val_index = of_nat i\<rparr> # vs)))"

definition LoadGenesisConfig ::
    "(string \<Rightarrow> byte list option) \<Rightarrow> (byte list \<Rightarrow> rawGenesisConfig option) \<Rightarrow> string \<Rightarrow> config_error + GenesisConfig" where
  "LoadGenesisConfig readFile yaml path =
     (case readFile path of
        None \<Rightarrow> Inl ReadFileFailed
      | Some data \<Rightarrow>
          (case yaml data of
             None \<Rightarrow> Inl ParseFailed
           | Some raw \<Rightarrow>
               if length (raw_genesis_validators raw) = 0 then Inl NoValidators
               else and_then (parse_validators 0 (raw_genesis_validators raw)) (\<lambda>validators.
                 Inr \<lparr>gc_genesis_time = raw_genesis_time raw, gc_validators = validators\<rparr>)))"

subsection \<open>Validator assignments\<close>

record ValidatorAssignment =
  va_node_name :: string
  va_validators :: "u64 list"

type_synonym ValidatorRegistry = "ValidatorAssignment list"

text \<open>
  The file is first parsed as a map from names to indices, then as the legacy list. The order of the assignments
  is the order in which the map is visited.
\<close>

definition LoadValidators ::
    "(string \<Rightarrow> byte list option) \<Rightarrow> (byte list \<Rightarrow> (string \<times> u64 list) list option) \<Rightarrow>
     (byte list \<Rightarrow> ValidatorRegistry option) \<Rightarrow> string \<Rightarrow> config_error + ValidatorRegistry" where
  "LoadValidators readFile yamlMap yamlRegistry path =
     (case readFile path of
        None \<Rightarrow> Inl ReadFileFailed
      | Some data \<Rightarrow>
          (case yamlMap data of
             Some nodeMap \<Rightarrow>
               if length nodeMap > 0
               then Inr (map (\<lambda>(name, indices). \<lparr>va_node_name = name, va_validators = indices\<rparr>) nodeMap)
               else (case yamlRegistry data of None \<Rightarrow> Inl ParseFailed | Some reg \<Rightarrow> Inr reg)
           | None \<Rightarrow> (case yamlRegistry data of None \<Rightarrow> Inl ParseFailed | Some reg \<Rightarrow> Inr reg)))"

datatype validate_error =
    OutOfRange u64 string u64
  | AssignedToBoth u64 string string

text \<open>The inner and the outer loop of \<open>Validate\<close>; \<open>seen\<close> maps an index to the node it was given to.\<close>

fun validate_indices ::
    "u64 \<Rightarrow> string \<Rightarrow> u64 list \<Rightarrow> (u64 \<times> string) list \<Rightarrow> validate_error + (u64 \<times> string) list" where
  "validate_indices num name [] seen = Inr seen"
| "validate_indices num name (idx # indices) seen =
     (if idx \<ge> num then Inl (OutOfRange idx name num)
      else case map_of seen idx of
             Some prev \<Rightarrow> Inl (AssignedToBoth idx prev name)
           | None \<Rightarrow> validate_indices num name indices (AList.update idx name seen))"

fun validate_assignments ::
    "u64 \<Rightarrow> ValidatorRegistry \<Rightarrow> (u64 \<times> string) list \<Rightarrow> validate_error + (u64 \<times> string) list" where
  "validate_assignments num [] seen = Inr seen"
| "validate_assignments num (a # as) seen =
     and_then (validate_indices num (va_node_name a) (va_validators a) seen) (validate_assignments num as)"

definition Validate :: "ValidatorRegistry \<Rightarrow> u64 \<Rightarrow> validate_error option" where
  "Validate r numGenesisValidators =
     (case validate_assignments numGenesisValidators r [] of Inl err \<Rightarrow> Some err | Inr _ \<Rightarrow> None)"

fun GetValidatorIndices :: "ValidatorRegistry \<Rightarrow> string \<Rightarrow> u64 list" where
  "GetValidatorIndices [] nodeName = []"
| "GetValidatorIndices (a # as) nodeName =
     (if va_node_name a = nodeName then va_validators a else GetValidatorIndices as nodeName)"

subsection \<open>Boot nodes\<close>

text \<open>\<open>yamlEntries\<close> yields the \<open>multiaddr\<close> fields of the legacy format.\<close>

definition LoadBootnodes ::
    "(string \<Rightarrow> byte list option) \<Rightarrow> (byte list \<Rightarrow> string list option) \<Rightarrow> (byte list \<Rightarrow> string list option) \<Rightarrow>
     string \<Rightarrow> config_error + string list" where
  "LoadBootnodes readFile yamlEntries yamlStrings path =
     (case readFile path of
        None \<Rightarrow> Inl ReadFileFailed
      | Some data \<Rightarrow>
          (case yamlEntries data of
             Some (e # es) \<Rightarrow>
               if e \<noteq> '''' then Inr (filter (\<lambda>a. a \<noteq> '''') (e # es))
               else (case yamlStrings data of None \<Rightarrow> Inl ParseFailed | Some strs \<Rightarrow> Inr strs)
           | _ \<Rightarrow> (case yamlStrings data of None \<Rightarrow> Inl ParseFailed | Some strs \<Rightarrow> Inr strs)))"

subsection \<open>Keys survive printing and parsing\<close>

lemma from_hex_table: "n < 16 \<Longrightarrow> from_hex (hex_table ! n) = Some (of_nat n)"
proof -
  have "\<forall>n \<in> set [0..<16]. from_hex (hex_table ! n) = Some (of_nat n)" by code_simp
  moreover assume "n < 16"
  ultimately show ?thesis by auto
qed

lemma byte_nibbles:
  fixes v :: byte
  shows "unat (drop_bit 4 v) < 16" and "unat (v AND 0x0f) < 16" and "push_bit 4 (drop_bit 4 v) OR (v AND 0x0f) = v"
proof -
  show "unat (drop_bit 4 v) < 16"
    using unsigned_less [of v, where ?'a = nat] by (simp add: drop_bit_eq_div unat_div less_mult_imp_div_less)
  have m: "(0x0f :: byte) = mask 4" by (simp add: mask_eq_exp_minus_1)
  then have "v AND 0x0f = take_bit 4 v" by (simp only: take_bit_eq_mask)
  then show "unat (v AND 0x0f) < 16"
    using take_bit_nat_less_exp [of 4 "unat v"] by (simp add: unsigned_take_bit_eq)
  show "push_bit 4 (drop_bit 4 v) OR (v AND 0x0f) = v"
    unfolding m by (rule bit_word_eqI) (auto simp: bit_simps simp del: mask_numeral)
qed

lemma hex_roundtrip: "hex_decode (hex_encode bs) = Inr bs"
  by (induction bs) (simp_all add: hex_encode_def from_hex_table byte_nibbles)

lemma hex_encode_prefix: "TrimPrefix (''0x'' @ hex_encode bs) ''0x'' = hex_encode bs"
  by (simp add: TrimPrefix_def)

lemma parse_validators_Inr:
  "parse_validators i hexStrs = Inr vs \<Longrightarrow> length vs = length hexStrs \<and>
     (\<forall>k < length vs. val_index (vs ! k) = of_nat (i + k) \<and>
        hex_decode (TrimPrefix (hexStrs ! k) ''0x'') = Inr (list_of_bytes (val_pubkey (vs ! k))))"
proof (induction hexStrs arbitrary: i vs)
  case (Cons h hs)
  then obtain bs vs' where "hex_decode (TrimPrefix h ''0x'') = Inr bs" "length bs = 52"
    "parse_validators (i + 1) hs = Inr vs'" "vs = \<lparr>val_pubkey = bytes_of bs, val_index = of_nat i\<rparr> # vs'"
    by (auto simp: and_then_eq_Inr_iff split: sum.splits if_splits)
  then show ?case using Cons.IH [of "i + 1" vs'] by (auto simp: nth_Cons' less_Suc_eq_0_disj algebra_simps)
qed simp

lemma parse_validators_printed:
  "parse_validators i (map (\<lambda>pk. ''0x'' @ hex_encode (list_of_bytes pk)) pks) =
     Inr (map (\<lambda>(k, pk). \<lparr>val_pubkey = pk, val_index = of_nat k\<rparr>) (zip [i..<i + length pks] pks))"
proof (induction pks arbitrary: i)
  case (Cons pk pks)
  have "[i..<i + length (pk # pks)] = i # [i + 1..<i + 1 + length pks]"
    by (simp add: upt_conv_Cons del: upt_Suc)
  then show ?case
    using hex_encode_prefix Cons.IH [of "i + 1"] by (simp add: hex_roundtrip del: upt_Suc)
qed simp

subsection \<open>Assignments\<close>

lemma validate_indices_Inr:
  "validate_indices num name indices seen = Inr seen' \<Longrightarrow>
     dom (map_of seen') = dom (map_of seen) \<union> set indices \<and> (\<forall>idx \<in> set indices. idx < num) \<and>
     distinct indices \<and> set indices \<inter> dom (map_of seen) = {}"
proof (induction indices arbitrary: seen)
  case (Cons idx indices)
  then have "validate_indices num name indices (AList.update idx name seen) = Inr seen'" "idx < num" "map_of seen idx = None"
    by (auto split: if_splits option.splits)
  then show ?case using Cons.IH [of "AList.update idx name seen"] by auto
qed simp

lemma validate_indices_ok:
  "\<forall>idx \<in> set indices. idx < num \<Longrightarrow> distinct indices \<Longrightarrow> set indices \<inter> dom (map_of seen) = {} \<Longrightarrow>
   \<exists>seen'. validate_indices num name indices seen = Inr seen'"
proof (induction indices arbitrary: seen)
  case (Cons idx indices)
  then have "map_of seen idx = None" "\<not> num \<le> idx" by (auto simp: dom_def)
  then show ?case using Cons by simp
qed simp

lemma validate_assignments_iff:
  "(\<exists>seen'. validate_assignments num r seen = Inr seen') \<longleftrightarrow>
     (\<forall>idx \<in> set (concat (map va_validators r)). idx < num) \<and> distinct (concat (map va_validators r)) \<and>
     set (concat (map va_validators r)) \<inter> dom (map_of seen) = {}"
proof (induction r arbitrary: seen)
  case (Cons a r)
  show ?case (is "?lhs \<longleftrightarrow> ?rhs")
  proof (cases "validate_indices num (va_node_name a) (va_validators a) seen")
    case (Inl err)
    then have "\<not> ((\<forall>idx \<in> set (va_validators a). idx < num) \<and> distinct (va_validators a) \<and>
        set (va_validators a) \<inter> dom (map_of seen) = {})"
      using validate_indices_ok by (metis Inl_Inr_False)
    then show ?thesis using Inl by auto
  next
    case (Inr seen1)
    then show ?thesis using Cons [of seen1] validate_indices_Inr [OF Inr] by auto
  qed
qed simp

lemma Validate_iff:
  "Validate r num = None \<longleftrightarrow>
     (\<forall>idx \<in> set (concat (map va_validators r)). idx < num) \<and> distinct (concat (map va_validators r))"
proof -
  have "Validate r num = None \<longleftrightarrow> (\<exists>seen'. validate_assignments num r [] = Inr seen')"
    by (auto simp: Validate_def split: sum.split)
  then show ?thesis by (simp add: validate_assignments_iff)
qed

lemma GetValidatorIndices_cases:
  "GetValidatorIndices r name = [] \<or>
   (\<exists>r1 a r2. r = r1 @ a # r2 \<and> va_node_name a = name \<and> GetValidatorIndices r name = va_validators a)"
proof (induction r)
  case (Cons a r)
  then show ?case by (metis GetValidatorIndices.simps(2) append_Cons append_Nil)
qed simp

text \<open>
  C36: accepted validator assignments are disjoint. \<open>Validate\<close> reports no error exactly when every
  index is that of a genesis validator and no index occurs twice; then two nodes of different names never
  run the same validator, so no validator key signs on two nodes.
\<close>

theorem assignments_disjoint:
  assumes "Validate r num = None" and "name \<noteq> name'"
  shows "set (GetValidatorIndices r name) \<inter> set (GetValidatorIndices r name') = {} \<and>
    (\<forall>idx \<in> set (GetValidatorIndices r name). idx < num) \<and> distinct (GetValidatorIndices r name)"
proof -
  have all: "\<forall>idx \<in> set (concat (map va_validators r)). idx < num" "distinct (concat (map va_validators r))"
    using assms(1) by (simp_all add: Validate_iff)
  from GetValidatorIndices_cases [of r name] show ?thesis
  proof (elim disjE exE conjE)
    fix r1 a r2
    assume a: "r = r1 @ a # r2" "va_node_name a = name" "GetValidatorIndices r name = va_validators a"
    have "set (va_validators a) \<inter> set (GetValidatorIndices r name') = {}"
      using GetValidatorIndices_cases [of r name']
    proof (elim disjE exE conjE)
      fix r1' a' r2'
      assume a': "r = r1' @ a' # r2'" "va_node_name a' = name'" "GetValidatorIndices r name' = va_validators a'"
      then have "a' \<in> set (r1 @ r2)" using a assms(2) by (metis Un_iff in_set_conv_decomp set_append set_ConsD)
      then have "set (va_validators a') \<subseteq> set (concat (map va_validators (r1 @ r2)))" by auto
      moreover have "set (va_validators a) \<inter> set (concat (map va_validators (r1 @ r2))) = {}"
        using all(2) a(1) by auto
      ultimately show ?thesis using a'(3) by auto
    qed simp
    then show ?thesis using all a by auto
  qed simp
qed

theorem assignments_disjoint_witness:
  "Validate [\<lparr>va_node_name = ''a'', va_validators = [0, 1]\<rparr>, \<lparr>va_node_name = ''b'', va_validators = [2]\<rparr>] 3 = None \<and>
   set (GetValidatorIndices [\<lparr>va_node_name = ''a'', va_validators = [0, 1]\<rparr>, \<lparr>va_node_name = ''b'', va_validators = [2]\<rparr>] ''a'') \<inter>
   set (GetValidatorIndices [\<lparr>va_node_name = ''a'', va_validators = [0, 1]\<rparr>, \<lparr>va_node_name = ''b'', va_validators = [2]\<rparr>] ''b'') = {}"
proof -
  have ok: "Validate [\<lparr>va_node_name = ''a'', va_validators = [0, 1]\<rparr>, \<lparr>va_node_name = ''b'', va_validators = [2]\<rparr>] 3 = None"
    by (simp add: Validate_iff)
  show ?thesis using assignments_disjoint [OF ok, of "''a''" "''b''"] ok by blast
qed

text \<open>
  The genesis file determines the validator set. A file that lists the keys as the key generator prints
  them, in hexadecimal behind \<open>0x\<close>, is accepted, and validator \<open>k\<close> gets index \<open>k\<close> and the
  \<open>k\<close>-th key, byte for byte.
\<close>

theorem genesis_config_roundtrip:
  assumes "readFile path = Some data" and "yaml data = Some raw"
    and "raw_genesis_validators raw = map (\<lambda>pk. ''0x'' @ hex_encode (list_of_bytes pk)) pks" and "pks \<noteq> []"
  shows "LoadGenesisConfig readFile yaml path =
    Inr \<lparr>gc_genesis_time = raw_genesis_time raw,
         gc_validators = map (\<lambda>(k, pk). \<lparr>val_pubkey = pk, val_index = of_nat k\<rparr>) (zip [0..<length pks] pks)\<rparr>"
  using assms parse_validators_printed [of 0 pks] by (simp add: LoadGenesisConfig_def)

theorem genesis_config_roundtrip_witness:
  "LoadGenesisConfig (\<lambda>_. Some [])
     (\<lambda>_. Some \<lparr>raw_genesis_time = 9, raw_genesis_validators = [''0x'' @ hex_encode (list_of_bytes (bytes_of [7, 200] :: pubkey))]\<rparr>)
     ''config.yaml'' =
   Inr \<lparr>gc_genesis_time = 9, gc_validators = [\<lparr>val_pubkey = bytes_of [7, 200], val_index = 0\<rparr>]\<rparr>"
  using genesis_config_roundtrip [where pks = "[bytes_of [7, 200]]" and path = "''config.yaml''" and readFile = "\<lambda>_. Some []"
      and data = "[]" and yaml = "\<lambda>_. Some \<lparr>raw_genesis_time = 9,
        raw_genesis_validators = [''0x'' @ hex_encode (list_of_bytes (bytes_of [7, 200] :: pubkey))]\<rparr>"]
  by simp

end
