(* ===== verification/Sync.thy ===== *)
theory Sync
  imports Machine Gossip
begin

text \<open>
  How a node answers and uses the network: the callbacks of \<open>node/handler.go\<close> and the synchronisation with a
  peer of \<open>node/sync.go\<close>. A peer is its two protocol ends; \<open>peer_blocks i\<close> is how it answers the
  \<open>i\<close>-th request for blocks, so it may change its mind between requests. \<open>nows i\<close> is what the clock of the
  store shows at the \<open>i\<close>-th block processed.
\<close>

subsection \<open>Handlers\<close>

definition status_of :: "ChainStatus \<Rightarrow> Status" where
  "status_of status =
     \<lparr>status_finalized = \<lparr>cp_root = cs_finalized_root status, cp_slot = cs_finalized_slot status\<rparr>,
      status_head = \<lparr>cp_root = cs_head status, cp_slot = cs_head_slot status\<rparr>\<rparr>"

definition OnStatus :: "Store \<Rightarrow> Status \<Rightarrow> Status" where
  "OnStatus c req = status_of (GetStatus c)"

definition OnBlocksByRoot :: "Store \<Rightarrow> root list \<Rightarrow> SignedBlockWithAttestation list" where
  "OnBlocksByRoot c roots = List.map_filter (Store_GetSignedBlock c) roots"

text \<open>The gossip callbacks, on a store that is \<open>None\<close> once an operation has not ended.\<close>

definition OnBlock :: "env \<Rightarrow> u64 option \<Rightarrow> SignedBlockWithAttestation \<Rightarrow> Store option \<Rightarrow> Store option" where
  "OnBlock e now sb c = Option.bind c (\<lambda>c. map_option snd (Store_ProcessBlock e now sb c))"

definition OnAttestation :: "env \<Rightarrow> u64 option \<Rightarrow> SignedAttestation \<Rightarrow> Store option \<Rightarrow> Store option" where
  "OnAttestation e now sa c = Option.bind c (ProcessAttestation e now sa)"

definition OnAggregatedAttestation :: "env \<Rightarrow> u64 option \<Rightarrow> AggregatedAttestation \<Rightarrow> Store option \<Rightarrow> Store option" where
  "OnAggregatedAttestation e now agg c = Option.bind c (ProcessAggregatedAttestation e now agg)"

subsection \<open>Synchronisation\<close>

record peer =
  peer_status :: "byte list \<Rightarrow> rr_error + byte list"
  peer_blocks :: "nat \<Rightarrow> byte list \<Rightarrow> rr_error + byte list"

definition maxSyncDepth :: nat where "maxSyncDepth = 64"

text \<open>The walk from the peer's head back to a block we have, with \<open>n\<close> iterations left.\<close>

primrec sync_walk ::
    "ssz_lib \<Rightarrow> snappy_lib \<Rightarrow> peer \<Rightarrow> Store \<Rightarrow> nat \<Rightarrow> nat \<Rightarrow> root \<Rightarrow> SignedBlockWithAttestation list \<Rightarrow>
     SignedBlockWithAttestation list option" where
  "sync_walk lib sn pr c 0 i nextRoot pending = Some pending"
| "sync_walk lib sn pr c (Suc n) i nextRoot pending =
     (if Store_GetBlock c nextRoot \<noteq> None then Some pending
      else Option.bind (RequestBlocksByRoot lib sn (peer_blocks pr i) [nextRoot]) (\<lambda>(blocks, err).
        if err \<noteq> None \<or> length blocks = 0 then Some pending
        else
          let sb = blocks ! 0 in
          sync_walk lib sn pr c n (i + 1) (b_parent_root (bwa_block (sb_message sb))) (pending @ [sb])))"

text \<open>The blocks in forward order, the oldest first; the number of accepted ones is counted.\<close>

fun process_pending ::
    "env \<Rightarrow> (nat \<Rightarrow> u64 option) \<Rightarrow> nat \<Rightarrow> SignedBlockWithAttestation list \<Rightarrow> nat \<Rightarrow> Store \<Rightarrow> (nat \<times> Store) option" where
  "process_pending e nows i [] synced c = Some (synced, c)"
| "process_pending e nows i (sb # sbs) synced c =
     Option.bind (Store_ProcessBlock e (nows i) sb c) (\<lambda>(err, c').
     process_pending e nows (i + 1) sbs (if err = None then synced + 1 else synced) c')"

definition syncWithPeer ::
    "ssz_lib \<Rightarrow> snappy_lib \<Rightarrow> env \<Rightarrow> (nat \<Rightarrow> u64 option) \<Rightarrow> peer \<Rightarrow> Store \<Rightarrow> (bool \<times> Store) option" where
  "syncWithPeer lib sn e nows pr c =
     (let status = GetStatus c in
      case RequestStatus sn (peer_status pr) (status_of status) of
        Inl _ \<Rightarrow> Some (False, c)
      | Inr peerStatus \<Rightarrow>
          if cp_slot (status_head peerStatus) \<le> cs_head_slot status then Some (False, c)
          else
            Option.bind (sync_walk lib sn pr c maxSyncDepth 0 (cp_root (status_head peerStatus)) []) (\<lambda>pending.
            Option.bind (process_pending e nows 0 (rev pending) 0 c) (\<lambda>(synced, c').
            Some (synced > 0, c'))))"

definition initialSync ::
    "ssz_lib \<Rightarrow> snappy_lib \<Rightarrow> env \<Rightarrow> (nat \<Rightarrow> u64 option) \<Rightarrow> peer list \<Rightarrow> Store \<Rightarrow> Store option" where
  "initialSync lib sn e nows peers c =
     fold (\<lambda>pr st. Option.bind st (\<lambda>c. map_option snd (syncWithPeer lib sn e nows pr c))) peers (Some c)"

subsection \<open>Any peer is safe\<close>

text \<open>No block that fits its lists hashes to the root below the anchor.\<close>

definition root_free :: "hasher \<Rightarrow> root \<Rightarrow> bool" where
  "root_free hash ap \<longleftrightarrow> (\<forall>b. length (body_attestations (b_body b)) \<le> 4096 \<longrightarrow> block_root hash b \<noteq> ap)"

lemma read_blocks_decoded:
  assumes "ssz_library lib" and "snappy_ok sn" and "read_blocks lib sn s blocks = Some (blocks', err)"
    and "\<forall>sb \<in> set blocks. length (body_attestations (b_body (bwa_block (sb_message sb)))) \<le> 4096"
  shows "\<forall>sb \<in> set blocks'. length (body_attestations (b_body (bwa_block (sb_message sb)))) \<le> 4096"
  using assms(3,4)
proof (induction "length s" arbitrary: s blocks rule: less_induct)
  case less
  show ?case
  proof (cases s)
    case Nil
    then show ?thesis using less by (simp add: read_blocks.simps [of lib sn "[]"] ReadResponseCode_def)
  next
    case (Cons code s1)
    have shorter: "length (snd (ReadSnappyFrame sn s1)) < length s"
      using ReadSnappyFrame_consumes [OF assms(2), of s1] Cons by simp
    obtain r s2 where frame: "ReadSnappyFrame sn s1 = (r, s2)" by fastforce
    have small: "SignedBlockWithAttestation_UnmarshalSSZ lib d = Inr sb \<Longrightarrow>
        length (body_attestations (b_body (bwa_block (sb_message sb)))) \<le> 4096" for d sb
      by (rule ssz_library.decoded_attestations [OF assms(1)])
    have s2: "length s2 < length s" using shorter frame by simp
    note step = read_blocks.simps [of lib sn "code # s1" blocks]
    show ?thesis
    proof (cases "code = ResponseSuccess \<and> (\<exists>d. r = Inr d)")
      case True
      then obtain d where d: "code = ResponseSuccess" "r = Inr d" by blast
      show ?thesis
      proof (cases "SignedBlockWithAttestation_UnmarshalSSZ lib d")
        case (Inl bad)
        then have "read_blocks lib sn s2 blocks = Some (blocks', err)"
          using less.prems(1) unfolding Cons step by (simp add: ReadResponseCode_def frame d)
        then show ?thesis using less.hyps [OF s2] less.prems(2) by blast
      next
        case (Inr sb)
        then have "read_blocks lib sn s2 (blocks @ [sb]) = Some (blocks', err)"
          using less.prems(1) unfolding Cons step by (simp add: ReadResponseCode_def frame d)
        then show ?thesis using less.hyps [OF s2, of "blocks @ [sb]"] less.prems(2) small [OF Inr] by auto
      qed
    next
      case False
      then have "blocks' = blocks"
        using less.prems(1) unfolding Cons step by (cases r) (auto simp: ReadResponseCode_def frame split: if_splits)
      then show ?thesis using less.prems(2) by simp
    qed
  qed
qed

lemma sync_walk_decoded:
  assumes "ssz_library lib" and "snappy_ok sn"
    and "\<forall>sb \<in> set pending. length (body_attestations (b_body (bwa_block (sb_message sb)))) \<le> 4096"
  shows "\<exists>pending'. sync_walk lib sn pr c n i r pending = Some pending' \<and> length pending' \<le> length pending + n \<and>
    (\<forall>sb \<in> set pending'. length (body_attestations (b_body (bwa_block (sb_message sb)))) \<le> 4096)"
  using assms(3)
proof (induction n arbitrary: i r pending)
  case (Suc n)
  obtain blocks err where req: "RequestBlocksByRoot lib sn (peer_blocks pr i) [r] = Some (blocks, err)"
    using read_blocks_total [OF assms(2)] by (fastforce simp: RequestBlocksByRoot_def Let_def split: sum.split)
  then have small: "\<forall>sb \<in> set blocks. length (body_attestations (b_body (bwa_block (sb_message sb)))) \<le> 4096"
    using read_blocks_decoded [OF assms(1,2), of _ "[]"] by (auto simp: RequestBlocksByRoot_def Let_def split: sum.splits)
  show ?case
  proof (cases "Store_GetBlock c r = None \<and> err = None \<and> blocks \<noteq> []")
    case True
    then have "\<forall>sb \<in> set (pending @ [blocks ! 0]). length (body_attestations (b_body (bwa_block (sb_message sb)))) \<le> 4096"
      using Suc.prems small by auto
    from Suc.IH [OF this] True req show ?thesis by (fastforce simp: Let_def)
  next
    case False
    then show ?thesis using Suc.prems req by auto
  qed
qed simp

lemma process_pending_inv:
  assumes "fc_inv (env_hash e) ap c" and "\<forall>sb \<in> set sbs. block_root (env_hash e) (bwa_block (sb_message sb)) \<noteq> ap"
  shows "\<exists>k c'. process_pending e nows i sbs synced c = Some (k, c') \<and> fc_inv (env_hash e) ap c' \<and> fc_grows c c'"
  using assms
proof (induction sbs arbitrary: i synced c)
  case Nil
  then show ?case by (simp add: fc_grows_def)
next
  case (Cons sb sbs)
  then have "block_root (env_hash e) (bwa_block (sb_message sb)) \<noteq> ap" by simp
  with Cons.prems(1) obtain err c1 where "Store_ProcessBlock e (nows i) sb c = Some (err, c1)"
    "fc_inv (env_hash e) ap c1" "fc_grows c c1" by (rule Store_ProcessBlock_inv)
  then show ?case using Cons.IH [of c1] Cons.prems(2) fc_grows_trans by fastforce
qed

lemma syncWithPeer_inv:
  assumes "ssz_library lib" and "snappy_ok sn" and "root_free (env_hash e) ap" and "fc_inv (env_hash e) ap c"
  obtains b c' where "syncWithPeer lib sn e nows pr c = Some (b, c')" and "fc_inv (env_hash e) ap c'" and "fc_grows c c'"
proof (cases "RequestStatus sn (peer_status pr) (status_of (GetStatus c))")
  case (Inl err)
  then show ?thesis using that [of False c] assms(4) by (simp add: syncWithPeer_def Let_def fc_grows_def)
next
  case (Inr ps)
  obtain pending where walk: "sync_walk lib sn pr c maxSyncDepth 0 (cp_root (status_head ps)) [] = Some pending"
    "\<forall>sb \<in> set pending. length (body_attestations (b_body (bwa_block (sb_message sb)))) \<le> 4096"
    using sync_walk_decoded [OF assms(1,2), of "[]"] by fastforce
  then have "\<forall>sb \<in> set (rev pending). block_root (env_hash e) (bwa_block (sb_message sb)) \<noteq> ap"
    using assms(3) by (simp add: root_free_def)
  from process_pending_inv [OF assms(4) this, of nows 0 0] obtain k c' where
    "process_pending e nows 0 (rev pending) 0 c = Some (k, c')" "fc_inv (env_hash e) ap c'" "fc_grows c c'" by blast
  moreover have "fc_grows c c" by (simp add: fc_grows_def)
  ultimately show ?thesis
    using that [of False c] that [of "k > 0" c'] assms(4) Inr walk(1)
    by (cases "cp_slot (status_head ps) \<le> cs_head_slot (GetStatus c)") (simp_all add: syncWithPeer_def Let_def)
qed

subsection \<open>An honest peer\<close>

text \<open>A peer that runs this code on the store \<open>p\<close>.\<close>

definition honest :: "ssz_lib \<Rightarrow> snappy_lib \<Rightarrow> Store \<Rightarrow> peer" where
  "honest lib sn p =
     \<lparr>peer_status = \<lambda>req. Inr (handleStatus sn (Some (OnStatus p)) req),
      peer_blocks = \<lambda>i req. Inr (handleBlocksByRoot lib sn (Some (OnBlocksByRoot p)) req)\<rparr>"

text \<open>
  The blocks \<open>sbs\<close>, the newest first, that lead from the root \<open>r\<close> back to the root \<open>r'\<close>: the peer has them, we
  have none of them.
\<close>

fun chain_gap :: "hasher \<Rightarrow> Store \<Rightarrow> Store \<Rightarrow> root \<Rightarrow> SignedBlockWithAttestation list \<Rightarrow> root \<Rightarrow> bool" where
  "chain_gap hash c p r [] r' \<longleftrightarrow> r = r'"
| "chain_gap hash c p r (sb # sbs) r' \<longleftrightarrow>
     Store_GetBlock c r = None \<and> GetState (fc_storage c) r = None \<and> Store_GetSignedBlock p r = Some sb \<and>
     block_root hash (bwa_block (sb_message sb)) = r \<and> fits_frame sb \<and>
     chain_gap hash c p (b_parent_root (bwa_block (sb_message sb))) sbs r'"

lemma as_received_block [simp]: "bwa_block (sb_message (as_received sb)) = bwa_block (sb_message sb)"
  by (simp add: as_received_def)

lemma honest_block:
  assumes "ssz_library lib" and "snappy_ok sn" and "Store_GetSignedBlock p r = Some sb" and "fits_frame sb"
  shows "RequestBlocksByRoot lib sn (peer_blocks (honest lib sn p) i) [r] = Some ([as_received sb], None)"
proof -
  have "OnBlocksByRoot p [r] = [sb]" using assms(3) by (simp add: OnBlocksByRoot_def List.map_filter_def)
  then show ?thesis
    using readBlocksByRootRequest_frame [OF assms(2), of "[r]"]
      read_blocks_send_blocks [OF assms(1,2), of "[sb]" "[]"] assms(4)
    by (simp add: RequestBlocksByRoot_def handleBlocksByRoot_def honest_def)
qed

lemma sync_walk_honest:
  assumes "ssz_library lib" and "snappy_ok sn" and "chain_gap hash c p r sbs r'"
    and "length sbs = n \<or> length sbs < n \<and> Store_GetBlock c r' \<noteq> None"
  shows "sync_walk lib sn (honest lib sn p) c n i r pending = Some (pending @ map as_received sbs)"
  using assms(3,4)
proof (induction sbs arbitrary: n i r pending)
  case Nil
  then show ?case by (cases n) auto
next
  case (Cons sb sbs)
  then obtain m where n: "n = Suc m" by (cases n) auto
  then show ?case
    using Cons.prems Cons.IH [of "b_parent_root (bwa_block (sb_message sb))" m "i + 1" "pending @ [as_received sb]"]
      honest_block [OF assms(1,2)] by (simp add: Let_def)
qed

lemma syncWithPeer_honest:
  assumes "ssz_library lib" and "snappy_ok sn" and "chain_gap hash c p (fc_head p) sbs r'"
    and "length sbs = 64 \<or> length sbs < 64 \<and> Store_GetBlock c r' \<noteq> None"
    and "cs_head_slot (GetStatus c) < cs_head_slot (GetStatus p)"
  shows "syncWithPeer lib sn e nows (honest lib sn p) c =
    map_option (\<lambda>(synced, c'). (synced > 0, c')) (process_pending e nows 0 (map as_received (rev sbs)) 0 c)"
proof -
  have "RequestStatus sn (peer_status (honest lib sn p)) (status_of (GetStatus c)) = Inr (status_of (GetStatus p))"
    using ReadStatus_WriteStatus [OF assms(2), of _ "[]"]
    by (simp add: RequestStatus_def handleStatus_def ReadResponseCode_def honest_def OnStatus_def)
  moreover have "sync_walk lib sn (honest lib sn p) c maxSyncDepth 0 (fc_head p) [] = Some (map as_received sbs)"
    using sync_walk_honest [OF assms(1,2,3), of maxSyncDepth 0 "[]"] assms(4) by (simp add: maxSyncDepth_def)
  moreover have "status_head (status_of (GetStatus p)) = \<lparr>cp_root = fc_head p, cp_slot = cs_head_slot (GetStatus p)\<rparr>"
    by (simp add: status_of_def GetStatus_def)
  ultimately show ?thesis
    using assms(5) by (cases "process_pending e nows 0 (map as_received (rev sbs)) 0 c")
      (auto simp: syncWithPeer_def Let_def rev_map)
qed

text \<open>Blocks without a known parent state are rejected one after the other.\<close>

lemma process_pending_orphans:
  assumes "fc_inv hash ap c"
    and "\<forall>sb \<in> set sbs. GetBlock (fc_storage c) (block_root (env_hash e) (bwa_block (sb_message sb))) = None \<and>
      GetState (fc_storage c) (b_parent_root (bwa_block (sb_message sb))) = None"
  shows "\<exists>c'. process_pending e nows i sbs synced c = Some (synced, c') \<and> same_chain c c'"
  using assms
proof (induction sbs arbitrary: i c)
  case (Cons sb sbs)
  obtain c1 where c1: "advance_now (nows i) c = Some c1" "fc_inv hash ap c1" "same_chain c c1"
    by (rule advance_now_inv [OF Cons.prems(1)])
  have st: "fc_storage c1 = fc_storage c" using c1(3) by (simp add: same_chain_def)
  have "Store_ProcessBlock e (nows i) sb c =
      Some (Some (ParentStateNotFound (b_parent_root (bwa_block (sb_message sb)))), c1)"
    using Cons.prems(2) c1(1) by (simp add: Store_ProcessBlock_def Let_def st)
  moreover obtain c' where "process_pending e nows (i + 1) sbs synced c1 = Some (synced, c')" "same_chain c1 c'"
    using Cons.IH [OF c1(2)] Cons.prems(2) by (auto simp: st)
  ultimately show ?case using same_chain_trans [OF c1(3)] by auto
qed simp

lemma chain_gap_orphans:
  "chain_gap hash c p r sbs r' \<Longrightarrow> GetState (fc_storage c) r' = None \<Longrightarrow>
   (\<forall>sb \<in> set sbs. GetBlock (fc_storage c) (block_root hash (bwa_block (sb_message sb))) = None \<and>
      GetState (fc_storage c) (b_parent_root (bwa_block (sb_message sb))) = None)"
proof (induction sbs arbitrary: r)
  case (Cons sb sbs)
  moreover have "GetState (fc_storage c) (b_parent_root (bwa_block (sb_message sb))) = None"
    using Cons.prems by (cases sbs) auto
  ultimately show ?case by (auto simp: Store_GetBlock_def)
qed simp


lemma ex_root_free: "root_free ex_hash ZeroHash"
proof -
  have "bytes_of (1 # xs) \<noteq> ZeroHash" for xs
  proof -
    have "list_of_bytes (bytes_of (1 # xs) :: root) ! 0 \<noteq> list_of_bytes ZeroHash ! 0"
      by (simp add: ZeroHash_def list_of_bytes_bytes_of)
    then show ?thesis by metis
  qed
  then show ?thesis
    by (auto simp: root_free_def Block_HashTreeRoot_def Block_HashTreeRootWith_def BlockBody_HashTreeRootWith_def
        ex_hash_def Let_def walks_of_lists(1))
qed



text \<open>
  C20: a gap of at most 64 blocks is fetched. When an honest peer is ahead and the blocks between its head and the
  first block we share number at most 64, \<open>syncWithPeer\<close> hands exactly these blocks to \<open>ProcessBlock\<close>,
  each parent before its children.
\<close>

theorem sync_fetches_gap:
  assumes "ssz_library lib" and "snappy_ok sn" and "chain_gap (env_hash e) c p (fc_head p) sbs r'"
    and "length sbs \<le> 64" and "Store_GetBlock c r' \<noteq> None" and "cs_head_slot (GetStatus c) < cs_head_slot (GetStatus p)"
  shows "syncWithPeer lib sn e nows (honest lib sn p) c =
    map_option (\<lambda>(synced, c'). (synced > 0, c')) (process_pending e nows 0 (map as_received (rev sbs)) 0 c)"
  using assms by (intro syncWithPeer_honest) auto

text \<open>A peer one block ahead of the example store.\<close>

definition ex_ahead :: Store where
  "ex_ahead = ex_store\<lparr>fc_storage := store_block (bytes_of [1, 2, 2]) ex_envelope ex_genesis (fc_storage ex_store),
     fc_head := bytes_of [1, 2, 2]\<rparr>"

lemma ex_ahead_gap:
  "chain_gap (env_hash ex_env) ex_store ex_ahead (fc_head ex_ahead) [ex_envelope] (bytes_of [1, 0, 0])"
  "cs_head_slot (GetStatus ex_store) < cs_head_slot (GetStatus ex_ahead)"
  "Store_GetBlock ex_store (bytes_of [1, 0, 0]) \<noteq> None"
proof -
  have "fits_frame ex_envelope"
    by (simp add: fits_frame_def ex_envelope_def ex_block_def SignedBlockWithAttestation_SizeSSZ_def
        BlockWithAttestation_SizeSSZ_def Block_SizeSSZ_def BlockBody_SizeSSZ_def)
  then show "chain_gap (env_hash ex_env) ex_store ex_ahead (fc_head ex_ahead) [ex_envelope] (bytes_of [1, 0, 0])"
    using ex_envelope_root ex_roots_differ
    by (simp add: ex_envelope_block ex_first_parent ex_ahead_def Store_GetBlock_def Store_GetSignedBlock_def ex_store_storage store_block_def
        GetSignedBlock_def PutSignedBlock_def PutBlock_def PutState_def)
  show "Store_GetBlock ex_store (bytes_of [1, 0, 0]) \<noteq> None"
    by (simp add: Store_GetBlock_def ex_store_storage)
  have "cs_head_slot (GetStatus ex_store) = 0"
    by (simp add: GetStatus_def ex_store_storage ex_anchor_def)
  moreover have "cs_head_slot (GetStatus ex_ahead) = 2"
    by (simp add: GetStatus_def ex_ahead_def store_block_lookup ex_envelope_block ex_block_def)
  ultimately show "cs_head_slot (GetStatus ex_store) < cs_head_slot (GetStatus ex_ahead)" by simp
qed

theorem sync_fetches_gap_witness:
  "syncWithPeer le_lib stored ex_env (\<lambda>_. None) (honest le_lib stored ex_ahead) ex_store =
   map_option (\<lambda>(synced, c'). (synced > 0, c')) (process_pending ex_env (\<lambda>_. None) 0 [as_received ex_envelope] 0 ex_store)"
  using sync_fetches_gap [OF le.ssz_library_axioms stored_ok ex_ahead_gap(1) _ ex_ahead_gap(3,2)] by simp

text \<open>
  A larger gap is never closed. When at least 64 blocks are missing and the parent of the 64th is unknown too, every
  fetched block is rejected for its unknown parent: the synchronisation reports no progress and stores nothing, and
  the next attempt starts again from the peer's head.
\<close>

lemma sync_gap_stuck:
  assumes "ssz_library lib" and "snappy_ok sn" and "fc_inv (env_hash e) ap c"
    and "chain_gap (env_hash e) c p (fc_head p) sbs r'" and "length sbs = 64" and "GetState (fc_storage c) r' = None"
    and "cs_head_slot (GetStatus c) < cs_head_slot (GetStatus p)"
  shows "\<exists>c'. syncWithPeer lib sn e nows (honest lib sn p) c = Some (False, c') \<and> same_chain c c'"
proof -
  have "\<forall>sb \<in> set (map as_received (rev sbs)).
      GetBlock (fc_storage c) (block_root (env_hash e) (bwa_block (sb_message sb))) = None \<and>
      GetState (fc_storage c) (b_parent_root (bwa_block (sb_message sb))) = None"
    using chain_gap_orphans [OF assms(4,6)] by auto
  from process_pending_orphans [OF assms(3) this, of nows 0 0] show ?thesis
    using syncWithPeer_honest [OF assms(1,2,4) _ assms(7)] assms(5) by fastforce
qed

end
