(* ===== verification/Node.thy ===== *)
theory Node
  imports Sync
begin

text \<open>
  The node: its clock (\<open>node/clock.go\<close>), the validator duties (\<open>node/validator.go\<close>), the body of the main loop
  (\<open>node/ticker.go\<close>) and the start from genesis (\<open>node/lifecycle.go\<close>). Time is an argument wherever the code calls
  \<open>time.Now\<close>. Publishing a message cannot change the node (its error is only logged), so the messages handed to the
  publishing functions are collected in \<open>node_published\<close>. \<open>None\<close> is a panic or an operation that does not end; the
  theorems show when there is none.
\<close>

subsection \<open>Clock\<close>

record Clock =
  clk_genesis_time :: u64

definition NewClock :: "u64 \<Rightarrow> Clock" where
  "NewClock genesisTime = \<lparr>clk_genesis_time = genesisTime\<rparr>"

definition IsBeforeGenesis :: "Clock \<Rightarrow> u64 \<Rightarrow> bool" where
  "IsBeforeGenesis c now \<longleftrightarrow> now < clk_genesis_time c"

definition CurrentSlot :: "Clock \<Rightarrow> u64 \<Rightarrow> u64" where
  "CurrentSlot c now =
     (if now < clk_genesis_time c then 0
      else let elapsed = now - clk_genesis_time c in elapsed div SecondsPerSlot)"

definition CurrentInterval :: "Clock \<Rightarrow> u64 \<Rightarrow> u64" where
  "CurrentInterval c now =
     (if now < clk_genesis_time c then 0
      else let elapsed = now - clk_genesis_time c in (elapsed mod SecondsPerSlot) div SecondsPerInterval)"

subsection \<open>Duties\<close>

datatype message =
    BlockMessage SignedBlockWithAttestation
  | AttestationMessage SignedAttestation
  | AggregateMessage AggregatedAttestation

record ValidatorDuties =
  vd_indices :: "u64 list"
  vd_keys :: "(u64 \<times> signer) list"
  vd_aggregate_topic :: bool
  vd_pending :: "SignedAttestation list"

record Node =
  node_fc :: Store
  node_validator :: ValidatorDuties
  node_clock :: Clock
  node_published :: "message list"

fun HasProposal :: "u64 list \<Rightarrow> Store \<Rightarrow> u64 \<Rightarrow> bool option" where
  "HasProposal [] c slot = Some False"
| "HasProposal (idx # indices) c slot =
     (case IsProposer idx slot (NumValidators c) of
        None \<Rightarrow> None
      | Some True \<Rightarrow> Some True
      | Some False \<Rightarrow> HasProposal indices c slot)"

fun propose_loop ::
    "hasher \<Rightarrow> (u64 \<times> signer) list \<Rightarrow> u64 \<Rightarrow> u64 list \<Rightarrow> Store \<times> message list \<Rightarrow> (Store \<times> message list) option" where
  "propose_loop hash keys slot [] st = Some st"
| "propose_loop hash keys slot (idx # indices) (c, published) =
     (case IsProposer idx slot (NumValidators c) of
        None \<Rightarrow> None
      | Some False \<Rightarrow> propose_loop hash keys slot indices (c, published)
      | Some True \<Rightarrow>
          (case map_of keys idx of
             None \<Rightarrow> propose_loop hash keys slot indices (c, published)
           | Some kp \<Rightarrow>
               Option.bind (ProduceBlock hash kp slot idx c) (\<lambda>(r, c').
               case r of
                 Inl _ \<Rightarrow> propose_loop hash keys slot indices (c', published)
               | Inr envelope \<Rightarrow> propose_loop hash keys slot indices (c', published @ [BlockMessage envelope]))))"

definition TryPropose :: "hasher \<Rightarrow> u64 \<Rightarrow> Node \<Rightarrow> Node option" where
  "TryPropose hash slot n =
     (if slot = 0 then Some n
      else
        map_option (\<lambda>(c, published). n\<lparr>node_fc := c, node_published := published\<rparr>)
          (propose_loop hash (vd_keys (node_validator n)) slot (vd_indices (node_validator n))
            (node_fc n, node_published n)))"

text \<open>\<open>nows i\<close> is the time at which the \<open>i\<close>-th own attestation is processed.\<close>

fun attest_loop ::
    "env \<Rightarrow> (nat \<Rightarrow> u64 option) \<Rightarrow> (u64 \<times> signer) list \<Rightarrow> u64 \<Rightarrow> u64 list \<Rightarrow>
     Store \<times> SignedAttestation list \<times> message list \<Rightarrow> (Store \<times> SignedAttestation list \<times> message list) option" where
  "attest_loop e nows keys slot [] st = Some st"
| "attest_loop e nows keys slot (idx # indices) (c, pending, published) =
     (case IsProposer idx slot (NumValidators c) of
        None \<Rightarrow> None
      | Some True \<Rightarrow> attest_loop e nows keys slot indices (c, pending, published)
      | Some False \<Rightarrow>
          (case map_of keys idx of
             None \<Rightarrow> attest_loop e nows keys slot indices (c, pending, published)
           | Some kp \<Rightarrow>
               Option.bind (ProduceAttestation (env_hash e) kp slot idx c) (\<lambda>(r, c1).
               case r of
                 Inl _ \<Rightarrow> attest_loop e nows keys slot indices (c1, pending, published)
               | Inr sa \<Rightarrow>
                   Option.bind (ProcessAttestation e (nows (length pending)) sa c1) (\<lambda>c2.
                   attest_loop e nows keys slot indices
                     (c2, pending @ [sa], published @ [AttestationMessage sa])))))"

definition TryAttest :: "env \<Rightarrow> (nat \<Rightarrow> u64 option) \<Rightarrow> u64 \<Rightarrow> Node \<Rightarrow> Node option" where
  "TryAttest e nows slot n =
     map_option
       (\<lambda>(c, pending, published).
          n\<lparr>node_fc := c, node_validator := (node_validator n)\<lparr>vd_pending := pending\<rparr>, node_published := published\<rparr>)
       (attest_loop e nows (vd_keys (node_validator n)) slot (vd_indices (node_validator n))
         (node_fc n, [], node_published n))"

definition TryAggregate :: "u64 \<Rightarrow> Node \<Rightarrow> Node" where
  "TryAggregate slot n =
     (let v = node_validator n in
      if length (vd_pending v) = 0 then n
      else case AggregateAttestations (vd_pending v) of
             Inl _ \<Rightarrow> n
           | Inr agg \<Rightarrow>
               n\<lparr>node_published := (if vd_aggregate_topic v then node_published n @ [AggregateMessage agg]
                                    else node_published n),
                 node_validator := v\<lparr>vd_pending := []\<rparr>\<rparr>)"

definition OnInterval :: "env \<Rightarrow> (nat \<Rightarrow> u64 option) \<Rightarrow> u64 \<Rightarrow> u64 \<Rightarrow> Node \<Rightarrow> Node option" where
  "OnInterval e nows slot interval n =
     (if interval = 0 then TryPropose (env_hash e) slot n
      else if interval = 1 then TryAttest e nows slot n
      else if interval = 2 then Some (TryAggregate slot n)
      else Some n)"

subsection \<open>The main loop\<close>

text \<open>The loop over the peers stops at the first one that brought a block.\<close>

fun sync_peers ::
    "ssz_lib \<Rightarrow> snappy_lib \<Rightarrow> env \<Rightarrow> (nat \<Rightarrow> u64 option) \<Rightarrow> peer list \<Rightarrow> ChainStatus \<Rightarrow> Store \<Rightarrow> (ChainStatus \<times> Store) option" where
  "sync_peers lib sn e nows [] status c = Some (status, c)"
| "sync_peers lib sn e nows (pid # pids) status c =
     Option.bind (syncWithPeer lib sn e nows pid c) (\<lambda>(ok, c').
     if ok then Some (GetStatus c', c') else sync_peers lib sn e nows pids status c')"

text \<open>
  The body of \<open>Run\<close> for one tick. The code reads the time four times: for \<open>IsBeforeGenesis\<close>, for the slot, for the
  interval and for \<open>AdvanceTime\<close>; these are \<open>t1\<close> to \<open>t4\<close>.
\<close>

definition on_tick ::
    "ssz_lib \<Rightarrow> snappy_lib \<Rightarrow> env \<Rightarrow> (nat \<Rightarrow> u64 option) \<Rightarrow> peer list \<Rightarrow> u64 \<Rightarrow> u64 \<Rightarrow> u64 \<Rightarrow> u64 \<Rightarrow> Node \<Rightarrow> Node option" where
  "on_tick lib sn e nows peers t1 t2 t3 t4 n =
     (if IsBeforeGenesis (node_clock n) t1 then Some n
      else
        let slot = CurrentSlot (node_clock n) t2;
            interval = CurrentInterval (node_clock n) t3
        in
        Option.bind (if interval = 0 then HasProposal (vd_indices (node_validator n)) (node_fc n) slot else Some False)
          (\<lambda>hasProposal.
        Option.bind (advanceTimeLocked t4 hasProposal (node_fc n)) (\<lambda>c.
        let status = GetStatus c in
        Option.bind (if slot > cs_head_slot status + 2 then sync_peers lib sn e nows peers status c else Some (status, c))
          (\<lambda>(status, c).
        if slot \<le> cs_head_slot status + 2 then OnInterval e nows slot interval (n\<lparr>node_fc := c\<rparr>)
        else Some (n\<lparr>node_fc := c\<rparr>)))))"

subsection \<open>Start\<close>

definition initGenesis :: "hasher \<Rightarrow> u64 \<Rightarrow> Validator list \<Rightarrow> Store option" where
  "initGenesis hash genesisTime validators =
     (let genesisState = GenerateGenesis hash genesisTime validators;
          stateRoot = fst (State_HashTreeRoot hash genesisState);
          genesisBlock = \<lparr>b_slot = 0, b_proposer = 0, b_parent_root = ZeroHash, b_state_root = stateRoot,
            b_body = \<lparr>body_attestations = []\<rparr>\<rparr>
      in NewStore hash genesisState genesisBlock New)"

subsection \<open>Duties keep the store\<close>

lemma HasProposal_iff:
  assumes "NumValidators c \<noteq> 0"
  shows "HasProposal indices c slot = Some (slot mod NumValidators c \<in> set indices)"
  using assms by (induction indices) (auto simp: IsProposer_def bool.case_eq_if)

lemma propose_loop_none:
  assumes "NumValidators c \<noteq> 0" and "slot mod NumValidators c \<notin> set indices"
  shows "propose_loop hash keys slot indices (c, published) = Some (c, published)"
  using assms by (induction indices) (auto simp: IsProposer_def bool.case_eq_if)

text \<open>With distinct indices only the slot's proposer is asked, and once.\<close>

lemma propose_loop_cases:
  assumes "NumValidators c \<noteq> 0" and "distinct indices" and "fc_inv hash ap c"
  obtains (skipped) "propose_loop hash keys slot indices (c, published) = Some (c, published)"
  | (failed) kp err c' where "map_of keys (slot mod NumValidators c) = Some kp"
      "ProduceBlock hash kp slot (slot mod NumValidators c) c = Some (Inl err, c')"
      "propose_loop hash keys slot indices (c, published) = Some (c', published)"
  | (made) kp envelope c' where "slot mod NumValidators c \<in> set indices" "map_of keys (slot mod NumValidators c) = Some kp"
      "ProduceBlock hash kp slot (slot mod NumValidators c) c = Some (Inr envelope, c')"
      "propose_loop hash keys slot indices (c, published) = Some (c', published @ [BlockMessage envelope])"
proof (cases "slot mod NumValidators c \<in> set indices")
  case False
  then show ?thesis using propose_loop_none [OF assms(1)] skipped by blast
next
  case True
  let ?v = "slot mod NumValidators c"
  obtain is1 is2 where indices: "indices = is1 @ ?v # is2" "?v \<notin> set is1" "?v \<notin> set is2"
    using True assms(2) by (metis distinct.simps(2) distinct_append split_list_first)
  have first: "propose_loop hash keys slot (is1 @ js) (c, published) = propose_loop hash keys slot js (c, published)" for js
    using indices(2) assms(1) by (induction is1) (auto simp: IsProposer_def bool.case_eq_if)
  have num: "NumValidators c' = NumValidators c" if "same_chain c c'" for c'
    using that by (simp add: NumValidators_def same_chain_def)
  have proposes: "IsProposer ?v slot (NumValidators c) = Some True" using assms(1) by (simp add: IsProposer_def)
  show ?thesis
  proof (cases "map_of keys ?v")
    case None
    then show ?thesis
      using skipped propose_loop_none [OF assms(1) indices(3)] proposes by (simp add: indices(1) first)
  next
    case (Some kp)
    from assms(3) show ?thesis
    proof (cases rule: ProduceBlock_cases [where sign = kp and slot = slot and v = ?v])
      case f: (failed err c1)
      have "propose_loop hash keys slot is2 (c1, published) = Some (c1, published)"
        using num [OF f(3)] assms(1) indices(3) by (intro propose_loop_none) simp_all
      then show ?thesis using failed [OF Some f(1)] f(1) Some proposes by (simp add: indices(1) first)
    next
      case m: (made envelope fs c1)
      let ?c = "c1\<lparr>fc_storage := store_block (block_root hash (bwa_block (sb_message envelope))) envelope fs (fc_storage c1)\<rparr>"
      have "NumValidators ?c = NumValidators c" using num [OF m(3)] by (simp add: NumValidators_def)
      then have "propose_loop hash keys slot is2 (?c, published @ [BlockMessage envelope]) = Some (?c, published @ [BlockMessage envelope])"
        using assms(1) indices(3) by (intro propose_loop_none) simp_all
      then show ?thesis using made [OF True Some m(6)] m(6) Some proposes by (simp add: indices(1) first)
    qed
  qed
qed


lemma ProcessAttestation_total:
  assumes "fc_inv hash ap c"
  obtains c' where "ProcessAttestation e now sa c = Some c'" and "fc_inv hash ap c'" and "same_chain c c'"
proof -
  obtain c1 where "advance_now now c = Some c1" by (rule advance_now_inv [OF assms])
  then have "\<exists>c'. ProcessAttestation e now sa c = Some c'" by (simp add: ProcessAttestation_def)
  then show ?thesis using that ProcessAttestation_inv [OF assms] by blast
qed

text \<open>The votes made in one pass over the indices.\<close>

definition votes_for :: "u64 \<Rightarrow> u64 \<Rightarrow> u64 list \<Rightarrow> SignedAttestation list \<Rightarrow> bool" where
  "votes_for slot num indices votes \<longleftrightarrow>
     distinct (map sa_validator votes) \<and> set (map sa_validator votes) \<subseteq> set indices - {slot mod num} \<and>
     (\<forall>sa \<in> set votes. ad_slot (sa_message sa) = slot)"

lemma attest_loop_spec:
  assumes "fc_inv (env_hash e) ap c" and "NumValidators c \<noteq> 0" and "distinct indices"
  shows "\<exists>c' votes. attest_loop e nows keys slot indices (c, pending, published) =
      Some (c', pending @ votes, published @ map AttestationMessage votes) \<and>
    fc_inv (env_hash e) ap c' \<and> same_chain c c' \<and> votes_for slot (NumValidators c) indices votes"
  using assms
proof (induction indices arbitrary: c pending published)
  case Nil
  then show ?case by (auto simp: votes_for_def)
next
  case (Cons idx indices)
  let ?num = "NumValidators c"
  have rest: "\<exists>c'' votes. attest_loop e nows keys slot indices (c', pend, publ) =
      Some (c'', pend @ votes, publ @ map AttestationMessage votes) \<and> fc_inv (env_hash e) ap c'' \<and> same_chain c c'' \<and>
      votes_for slot ?num indices votes" if "fc_inv (env_hash e) ap c'" "same_chain c c'" for c' pend publ
    using Cons.IH [OF that(1), of pend publ] Cons.prems(2,3) that(2) same_chain_trans
    by (fastforce simp: NumValidators_def same_chain_def)
  have skip: ?case if "attest_loop e nows keys slot (idx # indices) (c, pending, published) =
      attest_loop e nows keys slot indices (c', pending, published)" "fc_inv (env_hash e) ap c'" "same_chain c c'" for c'
    using rest [OF that(2,3), of pending published] that(1) by (force simp: votes_for_def)
  show ?case
  proof (cases "slot mod ?num = idx \<or> map_of keys idx = None")
    case True
    then show ?thesis
      using Cons.prems by (intro skip [of c]) (auto simp: IsProposer_def bool.case_eq_if)
  next
    case False
    then obtain kp where kp: "map_of keys idx = Some kp" "IsProposer idx slot ?num = Some False"
      using Cons.prems(2) by (auto simp: IsProposer_def)
    from Cons.prems(1) show ?thesis
    proof (cases rule: ProduceAttestation_cases [where sign = kp and slot = slot and v = idx])
      case (failed err c1)
      then show ?thesis by (intro skip [of c1]) (simp_all add: kp)
    next
      case (made sa hb t c1)
      obtain c2 where c2: "ProcessAttestation e (nows (length pending)) sa c1 = Some c2" "fc_inv (env_hash e) ap c2"
        "same_chain c1 c2" by (rule ProcessAttestation_total [OF made(2)])
      obtain c3 votes where r: "attest_loop e nows keys slot indices (c2, pending @ [sa], published @ [AttestationMessage sa]) =
          Some (c3, (pending @ [sa]) @ votes, (published @ [AttestationMessage sa]) @ map AttestationMessage votes)"
        "fc_inv (env_hash e) ap c3" "same_chain c c3" "votes_for slot ?num indices votes"
        using rest [OF c2(2) same_chain_trans [OF made(3) c2(3)]] by blast
      have "votes_for slot ?num (idx # indices) (sa # votes)"
        using r(4) Cons.prems(3) False made(6,7) by (auto simp: votes_for_def)
      then show ?thesis
        using r c2(1) made(1) by (intro exI [of _ c3] exI [of _ "sa # votes"]) (simp add: kp)
    qed
  qed
qed

lemma TryAttest_spec:
  assumes "fc_inv (env_hash e) ap (node_fc n)" and "NumValidators (node_fc n) \<noteq> 0" and "distinct (vd_indices (node_validator n))"
  obtains c' votes where "TryAttest e nows slot n = Some (n\<lparr>node_fc := c',
      node_validator := (node_validator n)\<lparr>vd_pending := votes\<rparr>, node_published := node_published n @ map AttestationMessage votes\<rparr>)"
    and "fc_inv (env_hash e) ap c'" and "same_chain (node_fc n) c'"
    and "votes_for slot (NumValidators (node_fc n)) (vd_indices (node_validator n)) votes"
  using attest_loop_spec [OF assms, of nows "vd_keys (node_validator n)" slot "[]" "node_published n"] that
  by (auto simp: TryAttest_def)

text \<open>A block of ours whose root is that of the block below the anchor or of another stored block.\<close>

definition collides :: "hasher \<Rightarrow> root \<Rightarrow> Store \<Rightarrow> Block \<Rightarrow> bool" where
  "collides hash ap c b \<longleftrightarrow> block_root hash b = ap \<or>
     (\<exists>b'. GetBlock (fc_storage c) (block_root hash b) = Some b' \<and> b' \<noteq> b)"

lemma TryPropose_spec:
  assumes "fc_inv hash ap (node_fc n)" and "NumValidators (node_fc n) \<noteq> 0" and "distinct (vd_indices (node_validator n))"
  obtains (none) c' where "TryPropose hash slot n = Some (n\<lparr>node_fc := c'\<rparr>)" "fc_inv hash ap c'" "fc_grows (node_fc n) c'"
  | (made) c' envelope where
      "TryPropose hash slot n = Some (n\<lparr>node_fc := c', node_published := node_published n @ [BlockMessage envelope]\<rparr>)"
      "slot \<noteq> 0" "slot mod NumValidators (node_fc n) \<in> set (vd_indices (node_validator n))"
      "b_slot (bwa_block (sb_message envelope)) = slot"
      "b_proposer (bwa_block (sb_message envelope)) = slot mod NumValidators (node_fc n)"
      "\<exists>att. bwa_proposer_attestation (sb_message envelope) = Some att \<and>
        att_validator att = slot mod NumValidators (node_fc n) \<and> ad_slot (att_data att) = slot"
      "collides hash ap (node_fc n) (bwa_block (sb_message envelope)) \<or> fc_inv hash ap c' \<and> fc_grows (node_fc n) c'"
proof (cases "slot = 0")
  case True
  have "TryPropose hash slot n = Some (n\<lparr>node_fc := node_fc n\<rparr>)" using True by (simp add: TryPropose_def)
  then show ?thesis using none [of "node_fc n"] assms(1) by (simp add: fc_grows_def)
next
  case False
  let ?v = "slot mod NumValidators (node_fc n)"
  have grows: "fc_grows (node_fc n) (node_fc n)" by (simp add: fc_grows_def)
  from assms(2,3,1) show ?thesis
  proof (cases rule: propose_loop_cases [where keys = "vd_keys (node_validator n)" and slot = slot and published = "node_published n"])
    case skipped
    then show ?thesis using none [of "node_fc n"] False assms(1) grows by (simp add: TryPropose_def)
  next
    case (failed kp err c')
    then show ?thesis
      using none [of c'] False ProduceBlock_inv [OF assms(1) failed(2)] by (simp add: TryPropose_def)
  next
    case m: (made kp envelope c')
    let ?b = "bwa_block (sb_message envelope)"
    obtain fs c1 where p: "produced hash kp slot ?v c1 envelope fs"
      using assms(1) by (cases rule: ProduceBlock_cases [where sign = kp and slot = slot and v = ?v]) (use m(3) in auto)
    have "collides hash ap (node_fc n) ?b \<or> fc_inv hash ap c' \<and> fc_grows (node_fc n) c'"
      using ProduceBlock_inv [OF assms(1) m(3)] by (auto simp: collides_def)
    moreover have "TryPropose hash slot n =
        Some (n\<lparr>node_fc := c', node_published := node_published n @ [BlockMessage envelope]\<rparr>)"
      using m(4) False by (simp add: TryPropose_def)
    ultimately show ?thesis
      using made [of envelope c'] False m(1) p by (auto simp: produced_def Let_def)
  qed
qed


subsection \<open>Ticks\<close>

lemma sync_peers_inv:
  assumes "ssz_library lib" and "snappy_ok sn" and "root_free (env_hash e) ap" and "fc_inv (env_hash e) ap c"
  shows "\<exists>status' c'. sync_peers lib sn e nows peers status c = Some (status', c') \<and> fc_inv (env_hash e) ap c' \<and> fc_grows c c'"
  using assms(4)
proof (induction peers arbitrary: c)
  case Nil
  then show ?case by (simp add: fc_grows_def)
next
  case (Cons pid peers)
  obtain ok c1 where c1: "syncWithPeer lib sn e nows pid c = Some (ok, c1)" "fc_inv (env_hash e) ap c1" "fc_grows c c1"
    by (rule syncWithPeer_inv [OF assms(1-3) Cons.prems])
  then show ?case using Cons.IH [OF c1(2)] fc_grows_trans [OF c1(3)] by (cases ok) fastforce+
qed

lemma TryAggregate_frame [simp]: "node_fc (TryAggregate slot n) = node_fc n"
  by (simp add: TryAggregate_def Let_def split: sum.split)

lemma OnInterval_inv:
  assumes "fc_inv (env_hash e) ap (node_fc n)" and "NumValidators (node_fc n) \<noteq> 0" and "distinct (vd_indices (node_validator n))"
  shows "\<exists>n'. OnInterval e nows slot interval n = Some n' \<and>
    (fc_inv (env_hash e) ap (node_fc n') \<and> fc_grows (node_fc n) (node_fc n') \<or>
     (\<exists>envelope. node_published n' = node_published n @ [BlockMessage envelope] \<and>
       collides (env_hash e) ap (node_fc n) (bwa_block (sb_message envelope))))"
proof -
  have grows: "fc_grows (node_fc n) (node_fc n)" by (simp add: fc_grows_def)
  consider "interval = 0" | "interval = 1" | "interval = 2" | "interval \<noteq> 0" "interval \<noteq> 1" "interval \<noteq> 2" by blast
  then show ?thesis
  proof cases
    case 1
    from assms show ?thesis
      by (cases rule: TryPropose_spec [where slot = slot]) (auto simp: OnInterval_def 1)
  next
    case 2
    obtain c' votes where "TryAttest e nows slot n = Some (n\<lparr>node_fc := c',
        node_validator := (node_validator n)\<lparr>vd_pending := votes\<rparr>, node_published := node_published n @ map AttestationMessage votes\<rparr>)"
      "fc_inv (env_hash e) ap c'" "same_chain (node_fc n) c'" by (rule TryAttest_spec [OF assms])
    then show ?thesis using same_chain_grows by (simp add: OnInterval_def 2)
  next
    case 3
    then show ?thesis using assms(1) grows by (simp add: OnInterval_def)
  next
    case 4
    then show ?thesis using assms(1) grows by (simp add: OnInterval_def)
  qed
qed

text \<open>
  Every tick of the main loop ends and keeps the store. From a store that satisfies the invariant, with at least
  one validator and distinct own indices, one iteration of \<open>Run\<close>, with whatever peers it synchronises and at whatever
  times it reads the clock, neither panics nor hangs; afterwards the invariant holds, no checkpoint has moved back and no
  block is lost, unless the node has just produced a block whose root collides with that of another block.
\<close>

theorem tick_keeps_store:
  assumes "ssz_library lib" and "snappy_ok sn" and "root_free (env_hash e) ap" and "fc_inv (env_hash e) ap (node_fc n)"
    and "NumValidators (node_fc n) \<noteq> 0" and "distinct (vd_indices (node_validator n))"
  shows "\<exists>n'. on_tick lib sn e nows peers t1 t2 t3 t4 n = Some n' \<and>
    (fc_inv (env_hash e) ap (node_fc n') \<and> fc_grows (node_fc n) (node_fc n') \<or>
     (\<exists>c envelope. fc_inv (env_hash e) ap c \<and> fc_grows (node_fc n) c \<and>
       node_published n' = node_published n @ [BlockMessage envelope] \<and>
       collides (env_hash e) ap c (bwa_block (sb_message envelope))))"
proof (cases "IsBeforeGenesis (node_clock n) t1")
  case True
  then show ?thesis using assms(4) by (simp add: on_tick_def fc_grows_def)
next
  case False
  define slot where "slot = CurrentSlot (node_clock n) t2"
  define interval where "interval = CurrentInterval (node_clock n) t3"
  obtain hp where hp: "(if interval = 0 then HasProposal (vd_indices (node_validator n)) (node_fc n) slot else Some False) = Some hp"
    using HasProposal_iff [OF assms(5)] by (cases "interval = 0") auto
  obtain c1 where c1: "advanceTimeLocked t4 hp (node_fc n) = Some c1" "fc_inv (env_hash e) ap c1" "same_chain (node_fc n) c1"
    by (rule advanceTimeLocked_inv [OF assms(4)])
  obtain status c2 where c2: "(if slot > cs_head_slot (GetStatus c1) + 2 then sync_peers lib sn e nows peers (GetStatus c1) c1
      else Some (GetStatus c1, c1)) = Some (status, c2)" "fc_inv (env_hash e) ap c2" "fc_grows c1 c2"
  proof (cases "slot > cs_head_slot (GetStatus c1) + 2")
    case True
    then show ?thesis using sync_peers_inv [OF assms(1-3) c1(2)] that by force
  next
    case False
    then show ?thesis using that [of "GetStatus c1" c1] c1(2) by (simp add: fc_grows_def)
  qed
  have grows: "fc_grows (node_fc n) c2" using same_chain_grows [OF c1(3)] c2(3) by (rule fc_grows_trans)
  let ?n = "n\<lparr>node_fc := c2\<rparr>"
  have tick: "on_tick lib sn e nows peers t1 t2 t3 t4 n =
      (if slot \<le> cs_head_slot status + 2 then OnInterval e nows slot interval ?n else Some ?n)"
    using False hp c1(1) c2(1) by (simp add: on_tick_def Let_def slot_def [symmetric] interval_def [symmetric])
  show ?thesis
  proof (cases "slot \<le> cs_head_slot status + 2")
    case True
    have "NumValidators c2 \<noteq> 0" using grows assms(5) by (simp add: fc_grows_def NumValidators_def)
    then obtain n' where "OnInterval e nows slot interval ?n = Some n'"
      "fc_inv (env_hash e) ap (node_fc n') \<and> fc_grows c2 (node_fc n') \<or>
       (\<exists>envelope. node_published n' = node_published n @ [BlockMessage envelope] \<and>
         collides (env_hash e) ap c2 (bwa_block (sb_message envelope)))"
      using OnInterval_inv [of e ap ?n nows slot interval] c2(2) assms(6) by auto
    then show ?thesis using tick True c2(2) grows fc_grows_trans [OF grows] by auto
  next
    case False
    then show ?thesis using tick c2(2) grows by simp
  qed
qed


text \<open>A node with two of the three validators of the example.\<close>

definition ex_node :: Node where
  "ex_node = \<lparr>node_fc = ex_store,
     node_validator = \<lparr>vd_indices = [1, 2], vd_keys = [(1, ex_sign), (2, ex_sign)], vd_aggregate_topic = False, vd_pending = []\<rparr>,
     node_clock = NewClock 1000, node_published = []\<rparr>"

lemma ex_node_ok:
  "fc_inv (env_hash ex_env) ZeroHash (node_fc ex_node)" "NumValidators (node_fc ex_node) \<noteq> 0"
  "distinct (vd_indices (node_validator ex_node))" "root_free (env_hash ex_env) ZeroHash"
  using ex_store_inv ex_root_free by (simp_all add: ex_node_def ex_env_def NumValidators_def ex_store_fields)

theorem tick_keeps_store_witness:
  "\<exists>n'. on_tick le_lib stored ex_env (\<lambda>_. None) [] 1008 1008 1008 1008 ex_node = Some n'"
  using tick_keeps_store [OF le.ssz_library_axioms stored_ok ex_node_ok(4,1-3)] by blast



text \<open>
  The clock of the node and the time of the store agree. After \<open>AdvanceTime\<close> at a time not before genesis, and
  not before the store's own, the store's interval count is the slot that the clock shows times the number of intervals
  of a slot, plus the interval that the clock shows.
\<close>

theorem clock_matches_store:
  assumes "fc_inv hash ap c" and "fc_genesis_time c = clk_genesis_time clock" and "clk_genesis_time clock \<le> now"
    and "fc_time c \<le> now - clk_genesis_time clock"
  shows "\<exists>c'. advanceTimeLocked now hasProposal c = Some c' \<and>
    fc_time c' = CurrentSlot clock now * IntervalsPerSlot + CurrentInterval clock now"
proof -
  let ?elapsed = "now - clk_genesis_time clock"
  obtain c' where c': "advanceTimeLocked now hasProposal c = Some c'" "fc_time c' = time_at c now"
    by (rule advanceTimeLocked_inv [OF assms(1)])
  have one: "SecondsPerInterval = 1" by code_simp
  have "\<not> now < clk_genesis_time clock" using assms(3) by (simp add: not_less)
  then have "CurrentSlot clock now * IntervalsPerSlot + CurrentInterval clock now = ?elapsed div 4 * 4 + ?elapsed mod 4"
    by (simp add: CurrentSlot_def CurrentInterval_def one SecondsPerSlot_def IntervalsPerSlot_def)
  also have "\<dots> = ?elapsed" by (rule div_mult_mod_eq)
  also have "\<dots> = time_at c now"
    using assms(2-4) by (cases "now = clk_genesis_time clock") (auto simp: time_at_def one max_def)
  finally show ?thesis using c' by simp
qed

theorem clock_matches_store_witness:
  "\<exists>c'. advanceTimeLocked 1007 False ex_store = Some c' \<and>
     fc_time c' = CurrentSlot (NewClock 1000) 1007 * IntervalsPerSlot + CurrentInterval (NewClock 1000) 1007"
proof -
  have "fc_genesis_time ex_store = clk_genesis_time (NewClock 1000)" "clk_genesis_time (NewClock 1000) \<le> 1007"
    "fc_time ex_store \<le> 1007 - clk_genesis_time (NewClock 1000)"
    by (simp_all add: NewClock_def ex_store_fields)
  from clock_matches_store [OF ex_store_inv this] show ?thesis by blast
qed

text \<open>
  The two readings of the time that give the slot and the interval of a tick can fall into different slots: then the duty
  of the first interval is done again for the slot that has just ended.
\<close>

lemma clock_reads_tear:
  "CurrentSlot (NewClock 1000) 1007 = 1" "CurrentInterval (NewClock 1000) 1007 = 3"
  "CurrentSlot (NewClock 1000) 1008 = 2" "CurrentInterval (NewClock 1000) 1008 = 0"
  by code_simp+

text \<open>
  A node starts well and stays so. \<open>initGenesis\<close> never panics: it returns a store at time zero with the genesis
  block as its head and one vote counted per configured validator; the store is an initial state of the state machine of
  the store, so every sequence of its operations keeps the invariant.
\<close>

theorem node_start:
  assumes "block_root (env_hash e) \<lparr>b_slot = 0, b_proposer = 0, b_parent_root = ZeroHash,
      b_state_root = fst (State_HashTreeRoot (env_hash e) (GenerateGenesis (env_hash e) genesisTime validators)),
      b_body = \<lparr>body_attestations = []\<rparr>\<rparr> \<noteq> ZeroHash" (is "block_root _ ?b \<noteq> _")
  shows "\<exists>c. initGenesis (env_hash e) genesisTime validators = Some c \<and> fc_time c = 0 \<and> fc_genesis_time c = genesisTime \<and>
    NumValidators c = of_nat (length validators) \<and> GetBlock (fc_storage c) (fc_head c) = Some ?b \<and>
    (\<forall>c'. (fc_step e ZeroHash)\<^sup>*\<^sup>* c c' \<longrightarrow> fc_inv (env_hash e) ZeroHash c' \<and> fc_grows c c')"
proof -
  let ?s = "GenerateGenesis (env_hash e) genesisTime validators"
  obtain c where c: "NewStore (env_hash e) ?s ?b New = Some c" by (simp add: NewStore_def Let_def)
  have slot: "st_slot ?s = b_slot ?b" by (simp add: GenerateGenesis_def Let_def)
  have init: "fc_init (env_hash e) ZeroHash c"
    unfolding fc_init_def using c slot assms by (intro exI [of _ ?s] exI [of _ ?b]) simp
  have inv: "fc_inv (env_hash e) ZeroHash c" using NewStore_inv [OF c slot] assms by simp
  have "fc_time c = 0" "fc_genesis_time c = genesisTime" "NumValidators c = of_nat (length validators)"
    "fc_head c = block_root (env_hash e) ?b"
    using c by (auto simp: NewStore_def Let_def NumValidators_def GenerateGenesis_def)
  moreover have "GetBlock (fc_storage c) (block_root (env_hash e) ?b) = Some ?b"
    by (simp add: NewStore_fields(1) [OF c] store_block_lookup)
  moreover have "fc_inv (env_hash e) ZeroHash c' \<and> fc_grows c c'" if "(fc_step e ZeroHash)\<^sup>*\<^sup>* c c'" for c'
    using fork_choice.inv_reachable [OF init that] fork_choice.le_run [OF that inv] by blast
  ultimately show ?thesis using c by (auto simp: initGenesis_def Let_def)
qed

theorem node_start_witness:
  "\<exists>c. initGenesis (env_hash ex_env) 1000 (st_validators ex_genesis) = Some c \<and> fc_genesis_time c = 1000"
  by (rule exE [OF node_start [of ex_env 1000 "st_validators ex_genesis"]])
    (use ex_root_free in \<open>auto simp: root_free_def ex_env_def\<close>)

end
