(* ===== verification/Paths.thy ===== *)
theory Paths
  imports Prelude
begin

text \<open>
  What the file names of the program are built with: decimal numbers (\<open>%d\<close> of package \<open>fmt\<close>) and
  \<open>filepath.Join\<close> with the lexical clean-up of \<open>filepath.Clean\<close> on a system whose separator is the slash.
  The lemmas show that the names built for different numbers in one directory differ.
\<close>

subsection \<open>Decimal numbers\<close>

definition digit :: "nat \<Rightarrow> char" where
  "digit d = char_of (48 + d)"

fun decimal :: "nat \<Rightarrow> string" where
  "decimal n = (if n < 10 then [digit n] else decimal (n div 10) @ [digit (n mod 10)])"

declare decimal.simps [simp del]

text \<open>Reading a number back, to show that no two numbers print alike.\<close>

definition number :: "string \<Rightarrow> nat" where
  "number s = foldl (\<lambda>v c. 10 * v + (of_char c - 48)) 0 s"

lemma of_char_digit: "d < 10 \<Longrightarrow> (of_char (digit d) :: nat) = 48 + d"
  by (simp add: digit_def)

lemma number_decimal [simp]: "number (decimal n) = n"
proof (induction n rule: decimal.induct)
  case (1 n)
  then show ?case
    by (cases "n < 10") (simp_all add: decimal.simps [of n] number_def of_char_digit)
qed

lemma decimal_inject [simp]: "decimal m = decimal n \<longleftrightarrow> m = n"
  by (metis number_decimal)

lemma decimal_digits: "c \<in> set (decimal n) \<Longrightarrow> \<exists>d < 10. c = digit d"
proof (induction n rule: decimal.induct)
  case (1 n)
  then show ?case
    by (cases "n < 10") (auto simp: decimal.simps [of n] intro: exI [of _ "n mod 10"])
qed

lemma decimal_no_slash: "CHR ''/'' \<notin> set (decimal n)"
proof
  assume "CHR ''/'' \<in> set (decimal n)"
  then obtain d where "d < 10" "CHR ''/'' = digit d" using decimal_digits by blast
  then have "(of_char (CHR ''/'') :: nat) = 48 + d" by (simp only: of_char_digit)
  then show False by simp
qed

subsection \<open>Paths\<close>

text \<open>The parts of a path between its slashes.\<close>

fun path_parts :: "string \<Rightarrow> string list" where
  "path_parts [] = [[]]"
| "path_parts (c # cs) =
     (if c = CHR ''/'' then [] # path_parts cs
      else case path_parts cs of [] \<Rightarrow> [[c]] | p # ps \<Rightarrow> (c # p) # ps)"

text \<open>\<open>out\<close> is the cleaned path so far, last part first.\<close>

definition clean_part :: "bool \<Rightarrow> string list \<Rightarrow> string \<Rightarrow> string list" where
  "clean_part rooted out p =
     (if p = '''' \<or> p = ''.'' then out
      else if p = ''..'' then
        (case out of
           [] \<Rightarrow> (if rooted then [] else [p])
         | q # qs \<Rightarrow> (if q = ''..'' then p # out else qs))
      else p # out)"

fun slash_join :: "string list \<Rightarrow> string" where
  "slash_join [] = ''''"
| "slash_join [p] = p"
| "slash_join (p # q # ps) = p @ ''/'' @ slash_join (q # ps)"

definition Clean :: "string \<Rightarrow> string" where
  "Clean path =
     (if path = '''' then ''.''
      else
        let rooted = (hd path = CHR ''/'');
            s = slash_join (rev (foldl (clean_part rooted) [] (path_parts path)))
        in if rooted then ''/'' @ s else if s = '''' then ''.'' else s)"

definition Join :: "string \<Rightarrow> string \<Rightarrow> string" where
  "Join dir name =
     (if dir \<noteq> '''' then Clean (dir @ ''/'' @ name) else if name \<noteq> '''' then Clean name else '''')"

definition plain :: "string \<Rightarrow> bool" where
  "plain name \<longleftrightarrow> CHR ''/'' \<notin> set name \<and> name \<notin> {'''', ''.'', ''..''}"

lemma path_parts_plain: "CHR ''/'' \<notin> set name \<Longrightarrow> path_parts name = [name]"
  by (induction name) auto

lemma path_parts_not_Nil [simp]: "path_parts s \<noteq> []"
  by (cases s) (auto split: list.split)

lemma path_parts_append:
  "CHR ''/'' \<notin> set name \<Longrightarrow> path_parts (dir @ ''/'' @ name) = path_parts dir @ [name]"
proof (induction dir)
  case (Cons c dir)
  then show ?case by (auto split: list.split)
qed (simp add: path_parts_plain)

lemma slash_join_snoc: "slash_join (ps @ [p]) = (if ps = [] then p else slash_join ps @ ''/'' @ p)"
  by (induction ps rule: slash_join.induct) auto

text \<open>Joining a directory with a plain name appends the name to the cleaned directory.\<close>

lemma Join_plain:
  "\<exists>prefix. \<forall>name. plain name \<longrightarrow> Join dir name = prefix @ name"
proof (cases "dir = ''''")
  case True
  have "Join dir name = [] @ name" if "plain name" for name
    using that True
    by (cases name) (auto simp: plain_def Join_def Clean_def path_parts_plain clean_part_def Let_def)
  then show ?thesis by blast
next
  case False
  define rooted where "rooted = (hd dir = CHR ''/'')"
  define ps where "ps = rev (foldl (clean_part rooted) [] (path_parts dir))"
  have "Join dir name = ((if rooted then ''/'' else '''') @ (if ps = [] then '''' else slash_join ps @ ''/'')) @ name"
    if "plain name" for name
  proof -
    have h: "hd (dir @ ''/'' @ name) = hd dir" using False by simp
    have "foldl (clean_part rooted) [] (path_parts (dir @ ''/'' @ name)) = name # foldl (clean_part rooted) [] (path_parts dir)"
      using that path_parts_append [of name dir] by (simp add: plain_def clean_part_def)
    then have "slash_join (rev (foldl (clean_part rooted) [] (path_parts (dir @ ''/'' @ name)))) =
        (if ps = [] then name else slash_join ps @ ''/'' @ name)"
      by (simp add: ps_def slash_join_snoc)
    then show ?thesis
      using False that unfolding Join_def Clean_def Let_def h rooted_def [symmetric] by (auto simp: plain_def)
  qed
  then show ?thesis by blast
qed

lemma Join_inject: "plain a \<Longrightarrow> plain b \<Longrightarrow> Join dir a = Join dir b \<longleftrightarrow> a = b"
  using Join_plain [of dir] by auto

end
