(* ===== verification/Keystore.thy ===== *)
theory Keystore
  imports Leansig ConfigFiles Paths
begin

text \<open>
  Key files: \<open>xmss/leansig/keystore.go\<close>, \<open>loadValidatorKeys\<close> of \<open>node/lifecycle.go\<close> and the key generator
  \<open>cmd/keygen/main.go\<close>. The file system is a map from paths to contents; \<open>writable\<close> says where
  \<open>os.WriteFile\<close> succeeds. The last theorem joins the three with the genesis file: what the generator writes and
  prints, the nodes load.
\<close>

type_synonym files = "string \<Rightarrow> byte list option"

datatype keystore_error =
    SerializePublicFailed leansig_error
  | SerializeSecretFailed leansig_error
  | WriteFailed string
  | ReadFailed string
  | RestoreFailed leansig_error
  | LoadFailed u64 keystore_error

definition SaveKeypair ::
    "'kp leansig_ffi \<Rightarrow> (string \<Rightarrow> bool) \<Rightarrow> 'kp Keypair \<Rightarrow> string \<Rightarrow> string \<Rightarrow> files \<Rightarrow> keystore_error option \<times> files" where
  "SaveKeypair ffi writable kp pkPath skPath fs =
     (case PublicKeyBytes ffi kp of
        Inl err \<Rightarrow> (Some (SerializePublicFailed err), fs)
      | Inr pkBytes \<Rightarrow>
     (case SecretKeyBytes ffi kp of
        Inl err \<Rightarrow> (Some (SerializeSecretFailed err), fs)
      | Inr skBytes \<Rightarrow>
          if \<not> writable pkPath then (Some (WriteFailed pkPath), fs)
          else
            let fs1 = fs(pkPath \<mapsto> pkBytes) in
            if \<not> writable skPath then (Some (WriteFailed skPath), fs1)
            else (None, fs1(skPath \<mapsto> skBytes))))"

definition LoadKeypair :: "'kp leansig_ffi \<Rightarrow> files \<Rightarrow> string \<Rightarrow> string \<Rightarrow> keystore_error + 'kp Keypair" where
  "LoadKeypair ffi fs pkPath skPath =
     (case fs pkPath of
        None \<Rightarrow> Inl (ReadFailed pkPath)
      | Some pkBytes \<Rightarrow>
     (case fs skPath of
        None \<Rightarrow> Inl (ReadFailed skPath)
      | Some skBytes \<Rightarrow>
     (case RestoreKeypair ffi pkBytes skBytes of Inl err \<Rightarrow> Inl (RestoreFailed err) | Inr kp \<Rightarrow> Inr kp)))"

text \<open>The names of the key files of a validator, \<open>validator_%d.pk\<close> and \<open>validator_%d.sk\<close>.\<close>

definition key_name :: "nat \<Rightarrow> string \<Rightarrow> string" where
  "key_name i ext = ''validator_'' @ decimal i @ ext"

definition pk_path :: "string \<Rightarrow> nat \<Rightarrow> string" where
  "pk_path dir i = Join dir (key_name i ''.pk'')"

definition sk_path :: "string \<Rightarrow> nat \<Rightarrow> string" where
  "sk_path dir i = Join dir (key_name i ''.sk'')"

fun load_keys ::
    "'kp leansig_ffi \<Rightarrow> files \<Rightarrow> string \<Rightarrow> u64 list \<Rightarrow> (u64 \<times> 'kp Keypair) list \<Rightarrow>
     keystore_error + (u64 \<times> 'kp Keypair) list" where
  "load_keys ffi fs dir [] keys = Inr keys"
| "load_keys ffi fs dir (idx # ids) keys =
     (case LoadKeypair ffi fs (pk_path dir (unat idx)) (sk_path dir (unat idx)) of
        Inl err \<Rightarrow> Inl (LoadFailed idx err)
      | Inr kp \<Rightarrow> load_keys ffi fs dir ids (AList.update idx kp keys))"

text \<open>\<open>dir\<close> is the configured directory; without one no key is loaded.\<close>

definition loadValidatorKeys ::
    "'kp leansig_ffi \<Rightarrow> files \<Rightarrow> string \<Rightarrow> u64 list \<Rightarrow> keystore_error + (u64 \<times> 'kp Keypair) list" where
  "loadValidatorKeys ffi fs dir ids = (if dir = '''' then Inr [] else load_keys ffi fs dir ids [])"

subsection \<open>The key generator\<close>

datatype keygen_error =
    CreateDirFailed
  | GenerateFailed nat leansig_error
  | SaveFailed nat keystore_error
  | PublicBytesFailed nat leansig_error

text \<open>
  The loop of \<open>main\<close> over the indices from \<open>i\<close>, \<open>n\<close> of them: the error with which the program exits, if any, the
  hexadecimal public keys collected, and the files.
\<close>

fun keygen_loop ::
    "'kp leansig_ffi \<Rightarrow> (string \<Rightarrow> bool) \<Rightarrow> string \<Rightarrow> nat \<Rightarrow> nat \<Rightarrow> string list \<Rightarrow> files \<Rightarrow>
     keygen_error option \<times> string list \<times> files" where
  "keygen_loop ffi writable outDir i 0 pubkeys fs = (None, pubkeys, fs)"
| "keygen_loop ffi writable outDir i (Suc n) pubkeys fs =
     (let seed = of_nat i in
      case GenerateKeypair ffi seed 0 256 of
        Inl err \<Rightarrow> (Some (GenerateFailed i err), pubkeys, fs)
      | Inr kp \<Rightarrow>
          (case SaveKeypair ffi writable kp (pk_path outDir i) (sk_path outDir i) fs of
             (Some err, fs1) \<Rightarrow> (Some (SaveFailed i err), pubkeys, fs1)
           | (None, fs1) \<Rightarrow>
               (case PublicKeyBytes ffi kp of
                  Inl err \<Rightarrow> (Some (PublicBytesFailed i err), pubkeys, fs1)
                | Inr pkBytes \<Rightarrow> keygen_loop ffi writable outDir (i + 1) n (pubkeys @ [hex_encode pkBytes]) fs1)))"

text \<open>
  \<open>mkdir\<close> says whether \<open>os.MkdirAll\<close> succeeds; the list is what \<open>-print-yaml\<close> prints for the genesis file.
\<close>

definition keygen ::
    "'kp leansig_ffi \<Rightarrow> (string \<Rightarrow> bool) \<Rightarrow> (string \<Rightarrow> bool) \<Rightarrow> int \<Rightarrow> string \<Rightarrow> bool \<Rightarrow> files \<Rightarrow>
     keygen_error option \<times> string list \<times> files" where
  "keygen ffi mkdir writable count outDir printYAML fs =
     (if \<not> mkdir outDir then (Some CreateDirFailed, [], fs)
      else
        case keygen_loop ffi writable outDir 0 (nat count) [] fs of
          (Some err, pubkeys, fs1) \<Rightarrow> (Some err, [], fs1)
        | (None, pubkeys, fs1) \<Rightarrow>
            (None, if printYAML then map (\<lambda>pk. ''0x'' @ pk) pubkeys else [], fs1))"

subsection \<open>Loading\<close>

lemma load_keys_Inr:
  "load_keys ffi fs dir ids keys = Inr keys' \<Longrightarrow>
     (\<forall>idx. idx \<in> set ids \<longrightarrow> (\<exists>kp. map_of keys' idx = Some kp \<and>
        LoadKeypair ffi fs (pk_path dir (unat idx)) (sk_path dir (unat idx)) = Inr kp)) \<and>
     (\<forall>idx. idx \<notin> set ids \<longrightarrow> map_of keys' idx = map_of keys idx)"
proof (induction ids arbitrary: keys)
  case (Cons i ids)
  then obtain kp where kp: "LoadKeypair ffi fs (pk_path dir (unat i)) (sk_path dir (unat i)) = Inr kp"
    "load_keys ffi fs dir ids (AList.update i kp keys) = Inr keys'"
    by (auto split: sum.splits)
  from Cons.IH [OF kp(2)] kp(1) show ?case by (cases "i \<in> set ids") auto
qed simp

lemma load_keys_total:
  "\<forall>idx \<in> set ids. \<exists>kp. LoadKeypair ffi fs (pk_path dir (unat idx)) (sk_path dir (unat idx)) = Inr kp \<Longrightarrow>
   \<exists>keys'. load_keys ffi fs dir ids keys = Inr keys'"
  by (induction ids arbitrary: keys) auto

text \<open>Either every configured validator has the key of its files, or loading fails; there is no partial key set.\<close>

lemma loadValidatorKeys_complete:
  assumes "loadValidatorKeys ffi fs dir ids = Inr keys" and "dir \<noteq> ''''" and "idx \<in> set ids"
  shows "\<exists>kp. map_of keys idx = Some kp \<and> LoadKeypair ffi fs (pk_path dir (unat idx)) (sk_path dir (unat idx)) = Inr kp"
  using assms load_keys_Inr by (fastforce simp: loadValidatorKeys_def)

subsection \<open>What the generator writes is loaded\<close>

lemma key_name_plain: "plain (key_name i ''.pk'')" "plain (key_name i ''.sk'')"
  using decimal_no_slash [of i] by (auto simp: plain_def key_name_def)

lemma key_name_distinct:
  "key_name i ''.pk'' \<noteq> key_name j ''.sk''" "key_name i ext = key_name j ext \<longleftrightarrow> i = j"
proof -
  have "rev (key_name i ''.pk'') \<noteq> rev (key_name j ''.sk'')" by (simp add: key_name_def)
  then show "key_name i ''.pk'' \<noteq> key_name j ''.sk''" by metis
  show "key_name i ext = key_name j ext \<longleftrightarrow> i = j" by (simp add: key_name_def)
qed

lemma key_paths_distinct [simp]:
  "pk_path dir i \<noteq> sk_path dir j" "sk_path dir j \<noteq> pk_path dir i"
  "pk_path dir i = pk_path dir j \<longleftrightarrow> i = j" "sk_path dir i = sk_path dir j \<longleftrightarrow> i = j"
  by (simp_all add: pk_path_def sk_path_def Join_inject key_name_plain key_name_distinct key_name_distinct(1) [symmetric])

text \<open>
  What is relied on of the XMSS library: the bytes of a key pair are not empty, and restoring from them yields the
  same key pair.
\<close>

definition ffi_serializes :: "'kp leansig_ffi \<Rightarrow> bool" where
  "ffi_serializes ffi \<longleftrightarrow>
     (\<forall>kp pk sk. c_pubkey_serialize ffi kp = (ResultOK, pk) \<longrightarrow> c_seckey_serialize ffi kp = (ResultOK, sk) \<longrightarrow>
        pk \<noteq> [] \<and> sk \<noteq> [] \<and> c_keypair_restore ffi pk sk = (ResultOK, kp))"

definition key_pair_of :: "'kp leansig_ffi \<Rightarrow> nat \<Rightarrow> 'kp Keypair \<Rightarrow> byte list \<Rightarrow> bool" where
  "key_pair_of ffi i kp pk \<longleftrightarrow> GenerateKeypair ffi (of_nat i) 0 256 = Inr kp \<and> PublicKeyBytes ffi kp = Inr pk"

lemma restore_serialized:
  assumes "ffi_serializes ffi" and "PublicKeyBytes ffi kp = Inr pk" and "SecretKeyBytes ffi kp = Inr sk"
  shows "RestoreKeypair ffi pk sk = Inr kp"
proof -
  obtain ptr where ptr: "kp_ptr kp = Some ptr" using assms(2) by (cases "kp_ptr kp") (simp_all add: PublicKeyBytes_def)
  then have "c_pubkey_serialize ffi ptr = (ResultOK, pk)" "c_seckey_serialize ffi ptr = (ResultOK, sk)"
    using assms(2,3) by (auto simp: PublicKeyBytes_def SecretKeyBytes_def checked_def split: prod.splits if_splits)
  then have "pk \<noteq> []" "sk \<noteq> []" "c_keypair_restore ffi pk sk = (ResultOK, ptr)"
    using assms(1) by (auto simp: ffi_serializes_def)
  then show ?thesis using ptr by (cases kp) (simp add: RestoreKeypair_def checked_def)
qed

lemma SaveKeypair_None:
  assumes "SaveKeypair ffi writable kp pkPath skPath fs = (None, fs')"
  obtains pk sk where "PublicKeyBytes ffi kp = Inr pk" and "SecretKeyBytes ffi kp = Inr sk"
    and "fs' = fs(pkPath \<mapsto> pk, skPath \<mapsto> sk)"
  using assms by (auto simp: SaveKeypair_def Let_def split: sum.splits if_splits)

text \<open>The files of the earlier indices are left alone by the rest of the loop.\<close>

lemma keygen_loop_keeps:
  assumes "keygen_loop ffi writable dir i n pubkeys fs = (None, pubkeys', fs')"
    and "\<forall>j. j \<ge> i \<longrightarrow> path \<noteq> pk_path dir j \<and> path \<noteq> sk_path dir j"
  shows "fs' path = fs path"
  using assms
proof (induction n arbitrary: i pubkeys fs)
  case (Suc n)
  then obtain kp fs1 pk where step: "SaveKeypair ffi writable kp (pk_path dir i) (sk_path dir i) fs = (None, fs1)"
    "keygen_loop ffi writable dir (i + 1) n (pubkeys @ [hex_encode pk]) fs1 = (None, pubkeys', fs')"
    by (auto simp: Let_def split: sum.splits prod.splits option.splits)
  from step(1) have "fs1 path = fs path" using Suc.prems(2) by (elim SaveKeypair_None) auto
  then show ?case using Suc.IH [OF step(2)] Suc.prems(2) by simp
qed simp

lemma keygen_loop_files:
  assumes "ffi_serializes ffi" and "keygen_loop ffi writable dir i n pubkeys fs = (None, pubkeys', fs')"
  shows "\<exists>kps pks. length kps = n \<and> length pks = n \<and> pubkeys' = pubkeys @ map hex_encode pks \<and>
    (\<forall>k < n. key_pair_of ffi (i + k) (kps ! k) (pks ! k) \<and>
       LoadKeypair ffi fs' (pk_path dir (i + k)) (sk_path dir (i + k)) = Inr (kps ! k))"
  using assms(2)
proof (induction n arbitrary: i pubkeys fs)
  case (Suc n)
  then obtain kp fs1 pk where step: "GenerateKeypair ffi (of_nat i) 0 256 = Inr kp"
    "SaveKeypair ffi writable kp (pk_path dir i) (sk_path dir i) fs = (None, fs1)" "PublicKeyBytes ffi kp = Inr pk"
    "keygen_loop ffi writable dir (i + 1) n (pubkeys @ [hex_encode pk]) fs1 = (None, pubkeys', fs')"
    by (auto simp: Let_def split: sum.splits prod.splits option.splits)
  from Suc.IH [OF step(4)] obtain kps pks where ih: "length kps = n" "length pks = n"
    "pubkeys' = (pubkeys @ [hex_encode pk]) @ map hex_encode pks"
    "\<forall>k < n. key_pair_of ffi (i + 1 + k) (kps ! k) (pks ! k) \<and>
       LoadKeypair ffi fs' (pk_path dir (i + 1 + k)) (sk_path dir (i + 1 + k)) = Inr (kps ! k)" by blast
  obtain sk where sk: "SecretKeyBytes ffi kp = Inr sk" "fs1 = fs(pk_path dir i \<mapsto> pk, sk_path dir i \<mapsto> sk)"
    using step(2,3) by (auto elim: SaveKeypair_None)
  have "fs' (pk_path dir i) = Some pk" "fs' (sk_path dir i) = Some sk"
    using sk(2) by (subst keygen_loop_keeps [OF step(4)]; auto)+
  then have "LoadKeypair ffi fs' (pk_path dir i) (sk_path dir i) = Inr kp"
    using restore_serialized [OF assms(1) step(3) sk(1)] by (simp add: LoadKeypair_def)
  then have "\<forall>k < Suc n. key_pair_of ffi (i + k) ((kp # kps) ! k) ((pk # pks) ! k) \<and>
       LoadKeypair ffi fs' (pk_path dir (i + k)) (sk_path dir (i + k)) = Inr ((kp # kps) ! k)"
    using ih(4) step(1,3) by (auto simp: less_Suc_eq_0_disj key_pair_of_def ac_simps)
  then show ?case using ih(1-3) by (intro exI [of _ "kp # kps"] exI [of _ "pk # pks"]) simp
qed simp

lemma keygen_files:
  assumes "ffi_serializes ffi" and "keygen ffi mkdir writable count dir True fs = (None, lines, fs')"
  obtains kps pks where "length kps = nat count" and "length pks = nat count"
    and "lines = map (\<lambda>pk. ''0x'' @ hex_encode pk) pks"
    and "\<And>k. k < nat count \<Longrightarrow> PublicKeyBytes ffi (kps ! k) = Inr (pks ! k) \<and>
       LoadKeypair ffi fs' (pk_path dir k) (sk_path dir k) = Inr (kps ! k)"
proof -
  obtain pubkeys where loop: "keygen_loop ffi writable dir 0 (nat count) [] fs = (None, pubkeys, fs')"
    and lines: "lines = map (\<lambda>pk. ''0x'' @ pk) pubkeys"
    using assms(2) by (auto simp: keygen_def split: if_splits prod.splits option.splits)
  from keygen_loop_files [OF assms(1) loop] show ?thesis
    using that lines by (auto simp: key_pair_of_def)
qed

lemma genesis_of_lines:
  assumes "readFile path = Some data" and "yaml data = Some raw"
    and "raw_genesis_validators raw = map (\<lambda>pk. ''0x'' @ hex_encode pk) pks" and "pks \<noteq> []"
    and "\<And>pk. pk \<in> set pks \<Longrightarrow> length pk = 52"
  shows "\<exists>g. LoadGenesisConfig readFile yaml path = Inr g \<and> length (gc_validators g) = length pks \<and>
    (\<forall>k < length pks. list_of_bytes (val_pubkey (gc_validators g ! k)) = pks ! k)"
proof -
  have pks: "pks = map list_of_bytes (map (bytes_of :: byte list \<Rightarrow> pubkey) pks)"
    using assms(5) by (simp add: map_idI)
  then have raw: "raw_genesis_validators raw =
      map (\<lambda>pk. ''0x'' @ hex_encode (list_of_bytes pk)) (map (bytes_of :: byte list \<Rightarrow> pubkey) pks)"
    using assms(3,5) by simp
  show ?thesis
    using assms(1,2,4,5) parse_validators_printed [of 0 "map bytes_of pks"]
    by (auto simp: LoadGenesisConfig_def raw)
qed

text \<open>
  C37: the keys of a devnet fit together. After the key generator has run, a node finds in its key directory a key
  pair for each of its validators, and when the printed list is the validator list of the genesis file, that file is
  accepted and the public key it gives validator \<open>idx\<close> is the one of the key pair with which the node signs for
  \<open>idx\<close>.
\<close>

theorem generated_keys_fit_genesis:
  assumes "ffi_serializes ffi" and "\<And>kp pk. PublicKeyBytes ffi kp = Inr pk \<Longrightarrow> length pk = 52"
    and "keygen ffi mkdir writable count dir True fs = (None, lines, fs')" and "dir \<noteq> ''''" and "0 < count"
    and "\<forall>idx \<in> set ids. int (unat idx) < count"
    and "readFile path = Some data" and "yaml data = Some raw" and "raw_genesis_validators raw = lines"
  shows "\<exists>keys g. loadValidatorKeys ffi fs' dir ids = Inr keys \<and> LoadGenesisConfig readFile yaml path = Inr g \<and>
    length (gc_validators g) = nat count \<and>
    (\<forall>idx \<in> set ids. \<exists>kp. map_of keys idx = Some kp \<and>
       PublicKeyBytes ffi kp = Inr (list_of_bytes (val_pubkey (gc_validators g ! unat idx))))"
proof -
  obtain kps pks where k: "length kps = nat count" "length pks = nat count"
      "lines = map (\<lambda>pk. ''0x'' @ hex_encode pk) pks"
      "\<And>k. k < nat count \<Longrightarrow> PublicKeyBytes ffi (kps ! k) = Inr (pks ! k) \<and>
         LoadKeypair ffi fs' (pk_path dir k) (sk_path dir k) = Inr (kps ! k)"
    using keygen_files [OF assms(1,3)] by blast
  have "length pk = 52" if "pk \<in> set pks" for pk
    using that k(1,2,4) assms(2) by (metis in_set_conv_nth)
  then obtain g where g: "LoadGenesisConfig readFile yaml path = Inr g" "length (gc_validators g) = length pks"
      "\<forall>k < length pks. list_of_bytes (val_pubkey (gc_validators g ! k)) = pks ! k"
    using genesis_of_lines [of readFile path data yaml raw pks] assms(5,7-9) k(2,3) by fastforce
  have range: "unat idx < nat count" if "idx \<in> set ids" for idx
    using assms(6) that by (simp only: zless_nat_eq_int_zless)
  obtain keys where keys: "load_keys ffi fs' dir ids [] = Inr keys"
    using load_keys_total k(4) range by meson
  have "\<exists>kp. map_of keys idx = Some kp \<and>
      PublicKeyBytes ffi kp = Inr (list_of_bytes (val_pubkey (gc_validators g ! unat idx)))" if "idx \<in> set ids" for idx
    using load_keys_Inr [OF keys] k(4) [OF range [OF that]] g(3) range [OF that] k(2) that by fastforce
  then show ?thesis using keys g(1,2) k(2) assms(4) by (simp add: loadValidatorKeys_def)
qed

text \<open>A library whose keys are single bytes, as an instance of the assumptions.\<close>

definition ex_ffi :: "byte leansig_ffi" where
  "ex_ffi =
     \<lparr>c_keypair_generate = (\<lambda>seed _ _. (0, ucast seed)), c_keypair_restore = (\<lambda>pk sk. (0, hd sk)),
      c_pubkey_serialize = (\<lambda>kp. (0, replicate 52 kp)), c_seckey_serialize = (\<lambda>kp. (0, [kp])),
      c_activation_start = (\<lambda>_. 0), c_activation_end = (\<lambda>_. 256), c_prepared_start = (\<lambda>_. 0), c_prepared_end = (\<lambda>_. 256),
      c_advance_preparation = (\<lambda>kp. (0, kp)), c_sign = (\<lambda>_ _ _. (0, [])), c_verify = (\<lambda>_ _ _ _. 0),
      c_verify_with_keypair = (\<lambda>_ _ _ _. 0)\<rparr>"

definition ex_run :: "keygen_error option \<times> string list \<times> files" where
  "ex_run = keygen ex_ffi (\<lambda>_. True) (\<lambda>_. True) 2 ''keys'' True Map.empty"

lemma ex_ffi_laws: "ffi_serializes ex_ffi" "PublicKeyBytes ex_ffi kp = Inr pk \<Longrightarrow> length pk = 52"
  by (auto simp: ffi_serializes_def ex_ffi_def ResultOK_def PublicKeyBytes_def checked_def split: option.splits)

lemma ex_run_ok: "fst ex_run = None"
  by (simp add: ex_run_def keygen_def numeral_2_eq_2 GenerateKeypair_def SaveKeypair_def PublicKeyBytes_def SecretKeyBytes_def
      checked_def ResultOK_def ex_ffi_def Let_def)

theorem generated_keys_fit_genesis_witness:
  "fst ex_run = None \<and>
   (\<exists>keys g. loadValidatorKeys ex_ffi (snd (snd ex_run)) ''keys'' [1] = Inr keys \<and>
      LoadGenesisConfig (\<lambda>_. Some []) (\<lambda>_. Some \<lparr>raw_genesis_time = 9, raw_genesis_validators = fst (snd ex_run)\<rparr>) ''config.yaml'' =
        Inr g \<and> length (gc_validators g) = 2 \<and>
      (\<exists>kp. map_of keys 1 = Some kp \<and> PublicKeyBytes ex_ffi kp = Inr (list_of_bytes (val_pubkey (gc_validators g ! 1)))))"
proof -
  have run: "keygen ex_ffi (\<lambda>_. True) (\<lambda>_. True) 2 ''keys'' True Map.empty = (None, fst (snd ex_run), snd (snd ex_run))"
    using ex_run_ok unfolding ex_run_def by (metis prod.collapse)
  show ?thesis
    using generated_keys_fit_genesis [OF ex_ffi_laws run, where ids = "[1]" and path = "''config.yaml''" and data = "[]"
        and readFile = "\<lambda>_. Some []" and yaml = "\<lambda>_. Some \<lparr>raw_genesis_time = 9, raw_genesis_validators = fst (snd ex_run)\<rparr>"]
      ex_run_ok
    by simp
qed

end
