(* ===== verification/NodeKeys.thy ===== *)
theory NodeKeys
  imports Keystore
begin

text \<open>
  The identity of a node on the network and the nodes it contacts first: the two loaders of the node key, one for
  the libp2p host (\<open>network/host.go\<close>) and one for discovery (\<open>network/p2p/enr.go\<close>), the script that prepares
  key files (\<open>scripts/gen_node_keys\<close>), and the parsing and dialling of boot nodes. The cryptographic, node record and
  address libraries are the records \<open>key_lib\<close> and \<open>addr_lib\<close>, whose functions return \<open>None\<close> for an error.
\<close>

subsection \<open>The node key\<close>

text \<open>\<open>'k\<close> are the keys of libp2p, \<open>'e\<close> those of go-ethereum; the ECDSA files are given by their contents.\<close>

record ('k, 'e) key_lib =
  UnmarshalPrivateKey :: "byte list \<Rightarrow> 'k option"
  MarshalPrivateKey :: "'k \<Rightarrow> byte list option"
  Key_Raw :: "'k \<Rightarrow> byte list option"
  ToECDSA :: "byte list \<Rightarrow> 'e option"
  LoadECDSA :: "byte list \<Rightarrow> 'e option"
  SaveECDSA :: "'e \<Rightarrow> byte list"

datatype node_key_error =
    GenerateKeyFailed
  | MarshalKeyFailed
  | SaveKeyFailed
  | UnmarshalKeyFailed
  | ReadKeyFailed
  | ECDSAFailed
  | RawKeyFailed
  | InvalidKeyFormat
  | PeerIDFailed

text \<open>
  \<open>readable\<close> and \<open>writable\<close> say where \<open>os.ReadFile\<close> and \<open>os.WriteFile\<close> have the permission, \<open>generated\<close> is
  what the generator of random keys returns. The result comes with the files afterwards.
\<close>

definition loadOrGenerateKey ::
    "('k, 'e) key_lib \<Rightarrow> (string \<Rightarrow> bool) \<Rightarrow> (string \<Rightarrow> bool) \<Rightarrow> 'k option \<Rightarrow> string \<Rightarrow> files \<Rightarrow> (node_key_error + 'k) \<times> files" where
  "loadOrGenerateKey kl readable writable generated path fs =
     (if path \<noteq> '''' then
        (case (if readable path then fs path else None) of
           Some data \<Rightarrow> (case UnmarshalPrivateKey kl data of None \<Rightarrow> Inl UnmarshalKeyFailed | Some k \<Rightarrow> Inr k, fs)
         | None \<Rightarrow>
             (case generated of
                None \<Rightarrow> (Inl GenerateKeyFailed, fs)
              | Some priv \<Rightarrow>
                  (case MarshalPrivateKey kl priv of
                     None \<Rightarrow> (Inl MarshalKeyFailed, fs)
                   | Some raw \<Rightarrow>
                       if \<not> writable path then (Inl SaveKeyFailed, fs) else (Inr priv, fs(path \<mapsto> raw)))))
      else (case generated of None \<Rightarrow> Inl GenerateKeyFailed | Some priv \<Rightarrow> Inr priv, fs))"

definition loadOrGenerateNodeKey ::
    "('k, 'e) key_lib \<Rightarrow> (string \<Rightarrow> bool) \<Rightarrow> (string \<Rightarrow> bool) \<Rightarrow> 'e option \<Rightarrow> string \<Rightarrow> files \<Rightarrow> (node_key_error + 'e) \<times> files" where
  "loadOrGenerateNodeKey kl readable writable generated path fs =
     (case fs path of
        None \<Rightarrow>
          (case generated of
             None \<Rightarrow> (Inl GenerateKeyFailed, fs)
           | Some key \<Rightarrow>
               if \<not> writable path then (Inl SaveKeyFailed, fs) else (Inr key, fs(path \<mapsto> SaveECDSA kl key)))
      | Some data \<Rightarrow>
          (if \<not> readable path then Inl ReadKeyFailed
           else case LoadECDSA kl data of
             Some key \<Rightarrow> Inr key
           | None \<Rightarrow>
               if length data = 32 then (case ToECDSA kl data of None \<Rightarrow> Inl ECDSAFailed | Some key \<Rightarrow> Inr key)
               else
                 (case UnmarshalPrivateKey kl data of
                    None \<Rightarrow> Inl InvalidKeyFormat
                  | Some sk \<Rightarrow>
                      (case Key_Raw kl sk of
                         None \<Rightarrow> Inl RawKeyFailed
                       | Some raw \<Rightarrow> (case ToECDSA kl raw of None \<Rightarrow> Inl ECDSAFailed | Some key \<Rightarrow> Inr key))), fs))"

definition node_file :: "nat \<Rightarrow> string" where
  "node_file i = ''node'' @ decimal i @ ''.key''"

text \<open>
  The loop of the script that prepares three key files. \<open>generated i\<close> is the \<open>i\<close>-th random key, \<open>peerID\<close> the
  function \<open>peer.IDFromPrivateKey\<close>; an error is a panic, which ends the script. The identifiers are those printed.
\<close>

fun gen_loop ::
    "('k, 'e) key_lib \<Rightarrow> (string \<Rightarrow> bool) \<Rightarrow> (string \<Rightarrow> bool) \<Rightarrow> ('k \<Rightarrow> 'i option) \<Rightarrow> (nat \<Rightarrow> 'k option) \<Rightarrow> nat list \<Rightarrow> 'i list \<Rightarrow> files \<Rightarrow>
     (node_key_error + 'i list) \<times> files" where
  "gen_loop kl readable writable peerID generated [] printed fs = (Inr printed, fs)"
| "gen_loop kl readable writable peerID generated (i # idxs) printed fs =
     (let filename = node_file i in
      case fs filename of
        Some data \<Rightarrow>
          if \<not> readable filename then (Inl ReadKeyFailed, fs)
          else
            (case UnmarshalPrivateKey kl data of
               None \<Rightarrow> (Inl UnmarshalKeyFailed, fs)
             | Some priv \<Rightarrow>
                 (case peerID priv of
                    None \<Rightarrow> (Inl PeerIDFailed, fs)
                  | Some pid \<Rightarrow> gen_loop kl readable writable peerID generated idxs (printed @ [pid]) fs))
      | None \<Rightarrow>
          (case generated i of
             None \<Rightarrow> (Inl GenerateKeyFailed, fs)
           | Some priv \<Rightarrow>
               (case MarshalPrivateKey kl priv of
                  None \<Rightarrow> (Inl MarshalKeyFailed, fs)
                | Some data \<Rightarrow>
                    if \<not> writable filename then (Inl SaveKeyFailed, fs)
                    else
                      (case peerID priv of
                         None \<Rightarrow> (Inl PeerIDFailed, fs(filename \<mapsto> data))
                       | Some pid \<Rightarrow>
                           gen_loop kl readable writable peerID generated idxs (printed @ [pid]) (fs(filename \<mapsto> data))))))"

definition gen_node_keys ::
    "('k, 'e) key_lib \<Rightarrow> (string \<Rightarrow> bool) \<Rightarrow> (string \<Rightarrow> bool) \<Rightarrow> ('k \<Rightarrow> 'i option) \<Rightarrow> (nat \<Rightarrow> 'k option) \<Rightarrow> files \<Rightarrow>
     (node_key_error + 'i list) \<times> files" where
  "gen_node_keys kl readable writable peerID generated fs = gen_loop kl readable writable peerID generated [0..<3] [] fs"

subsection \<open>Boot nodes\<close>

text \<open>\<open>'n\<close> are node records, \<open>'p\<close> and \<open>'q\<close> the public keys of the two libraries, \<open>'a\<close> multiaddresses; the address of a record is its text.\<close>

record ('n, 'p, 'q, 'i, 'a) addr_lib =
  enode_Parse :: "string \<Rightarrow> 'n option"
  Node_IP :: "'n \<Rightarrow> string option"
  Node_QUIC :: "'n \<Rightarrow> 16 word option"
  Node_Pubkey :: "'n \<Rightarrow> 'p option"
  CompressPubkey :: "'p \<Rightarrow> byte list"
  UnmarshalSecp256k1PublicKey :: "byte list \<Rightarrow> 'q option"
  IDFromPublicKey :: "'q \<Rightarrow> 'i option"
  NewMultiaddr :: "string \<Rightarrow> 'a option"
  AddrInfoFromP2pAddr :: "'a \<Rightarrow> ('i \<times> 'a list) option"

datatype bootnode_error =
    ParseENRFailed
  | NoIP
  | NoQuicPort
  | NoPublicKey
  | ConvertPubkeyFailed
  | DerivePeerIDFailed
  | BuildMultiaddrFailed
  | NotAnAddress

definition quic_multiaddr :: "string \<Rightarrow> 16 word \<Rightarrow> string" where
  "quic_multiaddr ip port = ''/ip4/'' @ ip @ ''/udp/'' @ decimal (unat port) @ ''/quic-v1''"

definition ENRToAddrInfo :: "('n, 'p, 'q, 'i, 'a) addr_lib \<Rightarrow> string \<Rightarrow> bootnode_error + 'i \<times> 'a list" where
  "ENRToAddrInfo al enrStr =
     (case enode_Parse al enrStr of None \<Rightarrow> Inl ParseENRFailed | Some node \<Rightarrow>
     (case Node_IP al node of None \<Rightarrow> Inl NoIP | Some ip \<Rightarrow>
     (case Node_QUIC al node of None \<Rightarrow> Inl NoQuicPort | Some quicPort \<Rightarrow>
     (case Node_Pubkey al node of None \<Rightarrow> Inl NoPublicKey | Some pubkey \<Rightarrow>
     (case UnmarshalSecp256k1PublicKey al (CompressPubkey al pubkey) of None \<Rightarrow> Inl ConvertPubkeyFailed | Some libp2pKey \<Rightarrow>
     (case IDFromPublicKey al libp2pKey of None \<Rightarrow> Inl DerivePeerIDFailed | Some pid \<Rightarrow>
     (case NewMultiaddr al (quic_multiaddr ip quicPort) of None \<Rightarrow> Inl BuildMultiaddrFailed | Some addr \<Rightarrow>
        Inr (pid, [addr]))))))))"

definition parseBootnode :: "('n, 'p, 'q, 'i, 'a) addr_lib \<Rightarrow> string \<Rightarrow> bootnode_error + 'i \<times> 'a list" where
  "parseBootnode al addr =
     (if take 4 addr = ''enr:'' then ENRToAddrInfo al addr
      else case NewMultiaddr al addr of
             None \<Rightarrow> Inl NotAnAddress
           | Some ma \<Rightarrow> (case AddrInfoFromP2pAddr al ma of None \<Rightarrow> Inl NotAnAddress | Some pi \<Rightarrow> Inr pi))"

text \<open>The peers that are dialled, in order; whether a dial succeeds changes nothing but the log.\<close>

fun ConnectBootnodes :: "('n, 'p, 'q, 'i, 'a) addr_lib \<Rightarrow> 'i \<Rightarrow> string list \<Rightarrow> ('i \<times> 'a list) list" where
  "ConnectBootnodes al self [] = []"
| "ConnectBootnodes al self (addr # addrs) =
     (case parseBootnode al addr of
        Inl _ \<Rightarrow> ConnectBootnodes al self addrs
      | Inr pi \<Rightarrow>
          if fst pi = self then ConnectBootnodes al self addrs
          else pi # ConnectBootnodes al self addrs)"

text \<open>The node records that discovery starts from.\<close>

fun discovery_boots :: "('n, 'p, 'q, 'i, 'a) addr_lib \<Rightarrow> string list \<Rightarrow> 'n list" where
  "discovery_boots al [] = []"
| "discovery_boots al (url # urls) =
     (if url = '''' then discovery_boots al urls
      else case enode_Parse al url of
             None \<Rightarrow> discovery_boots al urls
           | Some node \<Rightarrow> node # discovery_boots al urls)"

subsection \<open>One identity for both services\<close>

text \<open>
  What is relied on of the libraries: a key survives marshalling, and marshalled keys, which start with the protobuf
  tag and carry at least four bytes besides the key, are neither hexadecimal nor 32 bytes long.
\<close>

definition key_lib_ok :: "('k, 'e) key_lib \<Rightarrow> bool" where
  "key_lib_ok kl \<longleftrightarrow>
     (\<forall>k data. MarshalPrivateKey kl k = Some data \<longrightarrow>
        UnmarshalPrivateKey kl data = Some k \<and> length data \<noteq> 32 \<and> LoadECDSA kl data = None)"

definition ecdsa_of :: "('k, 'e) key_lib \<Rightarrow> 'k \<Rightarrow> 'e option" where
  "ecdsa_of kl k = Option.bind (Key_Raw kl k) (ToECDSA kl)"

text \<open>A key file as the program and the script write them.\<close>

definition key_file :: "('k, 'e) key_lib \<Rightarrow> 'k \<Rightarrow> byte list \<Rightarrow> bool" where
  "key_file kl k data \<longleftrightarrow> MarshalPrivateKey kl k = Some data"

lemma loadOrGenerateKey_file:
  assumes "key_lib_ok kl" and "path \<noteq> ''''" and "readable path" and "fs path = Some data" and "key_file kl k data"
  shows "loadOrGenerateKey kl readable writable generated path fs = (Inr k, fs)"
  using assms by (simp add: loadOrGenerateKey_def key_lib_ok_def key_file_def)

lemma loadOrGenerateNodeKey_file:
  assumes "key_lib_ok kl" and "readable path" and "fs path = Some data" and "key_file kl k data"
    and "ecdsa_of kl k = Some key"
  shows "loadOrGenerateNodeKey kl readable writable generated path fs = (Inr key, fs)"
  using assms by (auto simp: loadOrGenerateNodeKey_def key_lib_ok_def key_file_def ecdsa_of_def bind_eq_Some_conv)

lemma loadOrGenerateKey_leaves_file:
  assumes "loadOrGenerateKey kl readable writable generated path fs = (Inr k, fs')" and "path \<noteq> ''''" and "readable path"
    and "key_lib_ok kl" and "\<forall>data. fs path = Some data \<longrightarrow> (\<exists>k. key_file kl k data)"
  shows "\<exists>data. fs' path = Some data \<and> key_file kl k data"
  using assms by (auto simp: loadOrGenerateKey_def key_file_def key_lib_ok_def split: option.splits if_splits)

text \<open>The script keeps every key file it finds, and prints the identifiers of the keys that the files then hold.\<close>

lemma gen_loop_files:
  assumes "key_lib_ok kl" and "gen_loop kl readable writable peerID generated idxs printed fs = (Inr printed', fs')"
    and "\<forall>i \<in> set idxs. \<forall>data. fs (node_file i) = Some data \<longrightarrow> (\<exists>k. key_file kl k data)"
  shows "\<exists>pids. printed' = printed @ pids \<and> length pids = length idxs \<and>
    (\<forall>path. (\<exists>data. fs path = Some data) \<longrightarrow> fs' path = fs path) \<and>
    (\<forall>j < length idxs. \<exists>k data. fs' (node_file (idxs ! j)) = Some data \<and> key_file kl k data \<and> peerID k = Some (pids ! j))"
  using assms(2,3)
proof (induction idxs arbitrary: printed fs)
  case (Cons i idxs)
  let ?f = "node_file i"
  obtain priv pid data fs1 where step: "gen_loop kl readable writable peerID generated idxs (printed @ [pid]) fs1 = (Inr printed', fs')"
    "fs1 = fs(?f \<mapsto> data)" "key_file kl priv data" "fs ?f = None \<or> fs ?f = Some data" "peerID priv = Some pid"
  proof (cases "fs ?f")
    case None
    then show ?thesis
      using Cons.prems(1) that by (auto simp: Let_def key_file_def split: option.splits if_splits)
  next
    case (Some data)
    then obtain k where k: "key_file kl k data" using Cons.prems(2) by auto
    then have u: "UnmarshalPrivateKey kl data = Some k" using assms(1) by (simp add: key_lib_ok_def key_file_def)
    then obtain pid where "peerID k = Some pid"
      "gen_loop kl readable writable peerID generated idxs (printed @ [pid]) fs = (Inr printed', fs')"
      using Some Cons.prems(1) by (auto simp: Let_def split: if_splits option.splits)
    moreover have "fs = fs(?f \<mapsto> data)" using Some by auto
    ultimately show ?thesis using Some k that [of pid fs data k] by simp
  qed
  have "\<forall>i \<in> set idxs. \<forall>data. fs1 (node_file i) = Some data \<longrightarrow> (\<exists>k. key_file kl k data)"
    using Cons.prems(2) step(2,3) by auto
  from Cons.IH [OF step(1) this] obtain pids where pids: "printed' = (printed @ [pid]) @ pids" "length pids = length idxs"
    "\<forall>path. (\<exists>data. fs1 path = Some data) \<longrightarrow> fs' path = fs1 path"
    "\<forall>j < length idxs. \<exists>k data. fs' (node_file (idxs ! j)) = Some data \<and> key_file kl k data \<and> peerID k = Some (pids ! j)"
    by blast
  have f: "fs' ?f = Some data" using pids(3) step(2) by simp
  have keep: "\<forall>path. (\<exists>data. fs path = Some data) \<longrightarrow> fs' path = fs path"
    using pids(3) step(2,4) by (auto simp: fun_upd_def split: if_splits)
  have "\<forall>j < length (i # idxs). \<exists>k data. fs' (node_file ((i # idxs) ! j)) = Some data \<and> key_file kl k data \<and>
      peerID k = Some ((pid # pids) ! j)"
    using pids(4) f step(3,5) by (auto simp: less_Suc_eq_0_disj)
  then show ?case using pids(1,2) keep by (intro exI [of _ "pid # pids"]) simp
qed simp

text \<open>
  C40: the libp2p host and discovery run under one identity, also after a restart. When the key file does not exist or
  holds a marshalled key, whatever key the host obtains is, converted, the key that discovery then reads, and the host
  obtains the same key at the next start; the second loader and the restart change no file.
\<close>

theorem node_identity_shared:
  assumes "key_lib_ok kl" and "path \<noteq> ''''" and "readable path"
    and "\<forall>data. fs path = Some data \<longrightarrow> (\<exists>k. key_file kl k data)"
    and "loadOrGenerateKey kl readable writable generated path fs = (Inr k, fs')" and "ecdsa_of kl k = Some key"
  shows "loadOrGenerateNodeKey kl readable writable generated' path fs' = (Inr key, fs') \<and>
    loadOrGenerateKey kl readable writable generated'' path fs' = (Inr k, fs')"
proof -
  obtain data where "fs' path = Some data" "key_file kl k data"
    using loadOrGenerateKey_leaves_file [OF assms(5,2) assms(3,1,4)] by blast
  then show ?thesis
    using loadOrGenerateKey_file [of kl path readable fs' data k] loadOrGenerateNodeKey_file [of kl readable path fs' data k key]
      assms(1-3,6) by blast
qed

text \<open>A library with single bytes as keys.\<close>

definition ex_keys :: "(byte, byte) key_lib" where
  "ex_keys = \<lparr>UnmarshalPrivateKey = (\<lambda>data. if take 2 data = [8, 2] \<and> length data = 3 then Some (data ! 2) else None),
     MarshalPrivateKey = (\<lambda>k. Some [8, 2, k]), Key_Raw = (\<lambda>k. Some [k]), ToECDSA = (\<lambda>raw. Some (hd raw)),
     LoadECDSA = (\<lambda>_. None), SaveECDSA = (\<lambda>key. [key])\<rparr>"

lemma ex_keys_ok: "key_lib_ok ex_keys"
  by (simp add: key_lib_ok_def ex_keys_def)

theorem node_identity_shared_witness:
  "\<exists>fs'. loadOrGenerateKey ex_keys (\<lambda>_. True) (\<lambda>_. True) (Some 7) ''node0.key'' Map.empty = (Inr 7, fs') \<and>
     loadOrGenerateNodeKey ex_keys (\<lambda>_. True) (\<lambda>_. True) (Some 9) ''node0.key'' fs' = (Inr 7, fs')"
proof -
  let ?fs = "[''node0.key'' \<mapsto> [8, 2, 7 :: byte]]"
  have "loadOrGenerateKey ex_keys (\<lambda>_. True) (\<lambda>_. True) (Some 7) ''node0.key'' Map.empty = (Inr 7, ?fs)"
    by (simp add: loadOrGenerateKey_def ex_keys_def)
  moreover have "ecdsa_of ex_keys 7 = Some 7" by (simp add: ecdsa_of_def ex_keys_def)
  ultimately show ?thesis
    using node_identity_shared [OF ex_keys_ok, where path = "''node0.key''" and readable = "\<lambda>_. True" and writable = "\<lambda>_. True"
        and generated = "Some 7" and fs = Map.empty and k = 7 and fs' = ?fs and key = 7 and generated' = "Some 9"]
    by simp
qed

text \<open>
  Without a path the host uses a key that is not kept, but discovery insists on a file: there is none at the empty path
  and none can be written.
\<close>

lemma discovery_needs_key_path:
  assumes "fs '''' = None" and "\<not> writable ''''"
  shows "\<exists>err. loadOrGenerateNodeKey kl readable writable generated '''' fs = (Inl err, fs)"
  using assms by (simp add: loadOrGenerateNodeKey_def split: option.split)

text \<open>The formats that only discovery reads, hexadecimal and raw, are of no use: the host has refused the file before.\<close>

lemma raw_key_refused:
  assumes "fs path = Some data" and "readable path" and "path \<noteq> ''''" and "UnmarshalPrivateKey kl data = None"
  shows "loadOrGenerateKey kl readable writable generated path fs = (Inl UnmarshalKeyFailed, fs)"
  using assms by (simp add: loadOrGenerateKey_def)

subsection \<open>Boot nodes that are dialled\<close>

lemma ConnectBootnodes_filter:
  "ConnectBootnodes al self addrs =
     filter (\<lambda>pi. fst pi \<noteq> self)
       (List.map_filter (\<lambda>addr. case parseBootnode al addr of Inl _ \<Rightarrow> None | Inr pi \<Rightarrow> Some pi) addrs)"
  by (induction addrs) (auto simp: List.map_filter_def split: sum.split)

lemma discovery_boots_filter:
  "discovery_boots al urls = List.map_filter (enode_Parse al) (filter (\<lambda>url. url \<noteq> '''') urls)"
  by (induction urls) (auto simp: List.map_filter_def split: option.split)

end
