(* ===== verification/Startup.thy ===== *)
theory Startup
  imports Node NodeKeys
begin

text \<open>
  From the command line to the running node: \<open>cmd/gean/main.go\<close>, \<open>New\<close> of \<open>node/lifecycle.go\<close> with what it sets
  up (\<open>network/host.go\<close>, \<open>network/gossipsub/gossip.go\<close>, \<open>network/p2p\<close>), \<open>Run\<close> of \<open>node/ticker.go\<close> and
  \<open>Close\<close> of \<open>node/node.go\<close>. The record \<open>platform\<close> holds what the operating system and the libraries answer; the
  record \<open>world\<close> the files and the resources that are open. Logging is left out.
\<close>

subsection \<open>The outside\<close>

text \<open>The options of \<open>NewGossipSub\<close>; durations in milliseconds, the gossip factor in hundredths.\<close>

record GossipSubParams =
  gs_D :: nat
  gs_Dlo :: nat
  gs_Dhi :: nat
  gs_Dlazy :: nat
  gs_HeartbeatInterval :: nat
  gs_FanoutTTL :: nat
  gs_HistoryLength :: nat
  gs_HistoryGossip :: nat
  gs_GossipFactor :: nat
  gs_PruneBackoff :: nat
  gs_UnsubscribeBackoff :: nat
  gs_Connectors :: nat
  gs_MaxPendingConnections :: nat
  gs_ConnectionTimeout :: nat
  gs_DirectConnectTicks :: nat
  gs_DirectConnectInitialDelay :: nat
  gs_OpportunisticGraftTicks :: nat
  gs_OpportunisticGraftPeers :: nat
  gs_GraftFloodThreshold :: nat
  gs_MaxIHaveLength :: nat
  gs_MaxIHaveMessages :: nat
  gs_IWantFollowupTime :: nat

datatype signature_policy = StrictNoSign

record gossip_options =
  go_policy :: signature_policy
  go_params :: GossipSubParams
  go_seen_ttl :: nat
  go_message_id :: "(byte list \<Rightarrow> byte list) \<Rightarrow> snappy_lib \<Rightarrow> byte list \<Rightarrow> byte list \<Rightarrow> byte list"

definition gossip_params :: GossipSubParams where
  "gossip_params =
     \<lparr>gs_D = 8, gs_Dlo = 6, gs_Dhi = 12, gs_Dlazy = 6, gs_HeartbeatInterval = 700, gs_FanoutTTL = 60 * 1000,
      gs_HistoryLength = 6, gs_HistoryGossip = 3, gs_GossipFactor = 25, gs_PruneBackoff = 60 * 1000,
      gs_UnsubscribeBackoff = 10 * 1000, gs_Connectors = 8, gs_MaxPendingConnections = 128,
      gs_ConnectionTimeout = 30 * 1000, gs_DirectConnectTicks = 300, gs_DirectConnectInitialDelay = 1000,
      gs_OpportunisticGraftTicks = 60, gs_OpportunisticGraftPeers = 2, gs_GraftFloodThreshold = 10 * 1000,
      gs_MaxIHaveLength = 5000, gs_MaxIHaveMessages = 10, gs_IWantFollowupTime = 3 * 1000\<rparr>"

text \<open>The function calls the library with these options; whether it succeeds is the library's answer.\<close>

definition NewGossipSub :: "(gossip_options \<Rightarrow> bool) \<Rightarrow> bool" where
  [simp]: "NewGossipSub pubsub_NewGossipSub =
     pubsub_NewGossipSub
       \<lparr>go_policy = StrictNoSign, go_params = gossip_params, go_seen_ttl = 24 * 1000, go_message_id = ComputeMessageID\<rparr>"

text \<open>
  The degrees of the mesh are ordered, the advertised part of the history lies in the history, and a message is remembered as
  seen for longer than it stays in the history of any peer, and for six slots.
\<close>

lemma gossip_params_consistent:
  "gs_Dlo gossip_params \<le> gs_D gossip_params" "gs_D gossip_params \<le> gs_Dhi gossip_params"
  "gs_HistoryGossip gossip_params \<le> gs_HistoryLength gossip_params"
  "NewGossipSub (\<lambda>opts. gs_HistoryLength (go_params opts) * gs_HeartbeatInterval (go_params opts) < go_seen_ttl opts \<and>
     go_seen_ttl opts = 6 * (1000 * unat SecondsPerSlot))"
  by (simp_all add: gossip_params_def SecondsPerSlot_def)

record ('k, 'e, 'n, 'p, 'q, 'i, 'a, 'kp) platform =
  pf_keys :: "('k, 'e) key_lib"
  pf_addrs :: "('n, 'p, 'q, 'i, 'a) addr_lib"
  pf_ffi :: "'kp leansig_ffi"
  pf_readable :: "string \<Rightarrow> bool"
  pf_writable :: "string \<Rightarrow> bool"
  pf_host_key :: "'k option"
  pf_node_key :: "'e option"
  pf_peer_id :: "'k \<Rightarrow> 'i"
  pf_libp2p_New :: "'k \<Rightarrow> 'a \<Rightarrow> bool"
  pf_NewGossipSub :: "gossip_options \<Rightarrow> bool"
  pf_Join :: "string \<Rightarrow> bool"
  pf_Subscribe :: "string \<Rightarrow> bool"
  pf_MkdirAll :: "string \<Rightarrow> bool"
  pf_OpenDB :: "string \<Rightarrow> bool"
  pf_ResolveUDPAddr :: "string \<Rightarrow> bool"
  pf_ListenUDP :: "string \<Rightarrow> bool"
  pf_ListenV5 :: "'e \<Rightarrow> 'n list \<Rightarrow> bool"

datatype resource = HostResource | NodeDB | UDPConn

record world =
  w_files :: files
  w_open :: "resource list"

definition acquire :: "resource \<Rightarrow> world \<Rightarrow> world" where
  "acquire r w = w\<lparr>w_open := r # w_open w\<rparr>"

definition release :: "resource \<Rightarrow> world \<Rightarrow> world" where
  "release r w = w\<lparr>w_open := remove1 r (w_open w)\<rparr>"

datatype startup_error =
    LoadHostKeyFailed node_key_error
  | ParseListenAddrFailed
  | NewHostFailed
  | GossipSubFailed
  | JoinBlockTopicFailed
  | JoinAttestationTopicFailed
  | CreateDBDirFailed
  | LoadNodeKeyFailed node_key_error
  | OpenDBFailed
  | LoadValidatorKeysFailed keystore_error
  | SubscribeTopicsFailed

record NodeConfig =
  cfg_genesis :: u64
  cfg_validators :: "Validator list"
  cfg_listen_addr :: string
  cfg_node_key_path :: string
  cfg_bootnodes :: "string list"
  cfg_discovery_port :: int
  cfg_data_dir :: string
  cfg_validator_ids :: "u64 list"
  cfg_validator_keys_dir :: string
  cfg_metrics_port :: int
  cfg_devnet_id :: string

subsection \<open>Host and topics\<close>

text \<open>The host stands for its identity key.\<close>

definition NewHost ::
    "('k, 'e, 'n, 'p, 'q, 'i, 'a, 'kp) platform \<Rightarrow> string \<Rightarrow> string \<Rightarrow> world \<Rightarrow> (startup_error + 'k) \<times> world" where
  "NewHost pf listenAddr nodeKeyPath w =
     (case loadOrGenerateKey (pf_keys pf) (pf_readable pf) (pf_writable pf) (pf_host_key pf) nodeKeyPath (w_files w) of
        (Inl err, fs) \<Rightarrow> (Inl (LoadHostKeyFailed err), w\<lparr>w_files := fs\<rparr>)
      | (Inr privKey, fs) \<Rightarrow>
          let w1 = w\<lparr>w_files := fs\<rparr> in
          (case NewMultiaddr (pf_addrs pf) listenAddr of
             None \<Rightarrow> (Inl ParseListenAddrFailed, w1)
           | Some addr \<Rightarrow>
               if \<not> pf_libp2p_New pf privKey addr then (Inl NewHostFailed, w1)
               else
                 let w2 = acquire HostResource w1 in
                 if \<not> NewGossipSub (pf_NewGossipSub pf) then (Inl GossipSubFailed, release HostResource w2)
                 else (Inr privKey, w2)))"

record Topics =
  topic_block :: string
  topic_attestation :: string
  topic_aggregate :: "string option"

definition topic_name :: "string \<Rightarrow> string \<Rightarrow> string" where
  "topic_name devnetID kind = ''/leanconsensus/'' @ devnetID @ ''/'' @ kind @ ''/ssz_snappy''"

definition JoinTopics :: "(string \<Rightarrow> bool) \<Rightarrow> string \<Rightarrow> startup_error + Topics" where
  "JoinTopics join devnetID =
     (let blockTopic = topic_name devnetID ''block''; attTopic = topic_name devnetID ''attestation'' in
      if \<not> join blockTopic then Inl JoinBlockTopicFailed
      else if \<not> join attTopic then Inl JoinAttestationTopicFailed
      else Inr \<lparr>topic_block = blockTopic, topic_attestation = attTopic, topic_aggregate = None\<rparr>)"

definition initP2P ::
    "('k, 'e, 'n, 'p, 'q, 'i, 'a, 'kp) platform \<Rightarrow> NodeConfig \<Rightarrow> world \<Rightarrow> (startup_error + 'k \<times> Topics) \<times> world" where
  "initP2P pf cfg w =
     (case NewHost pf (cfg_listen_addr cfg) (cfg_node_key_path cfg) w of
        (Inl err, w1) \<Rightarrow> (Inl err, w1)
      | (Inr host, w1) \<Rightarrow>
          let devnetID = (if cfg_devnet_id cfg = '''' then ''devnet0'' else cfg_devnet_id cfg) in
          (case JoinTopics (pf_Join pf) devnetID of
             Inl err \<Rightarrow> (Inl err, release HostResource w1)
           | Inr topics \<Rightarrow> (Inr (host, topics), w1)))"

subsection \<open>Discovery\<close>

text \<open>The entries of the local node record that are set; a QUIC port is never among them.\<close>

record enr_entries =
  enr_ip :: string
  enr_udp :: "16 word"
  enr_tcp :: "16 word option"
  enr_quic :: "16 word option"

record 'e LocalNodeManager =
  mgr_key :: 'e
  mgr_enr :: enr_entries

definition NewLocalNodeManager ::
    "('k, 'e, 'n, 'p, 'q, 'i, 'a, 'kp) platform \<Rightarrow> string \<Rightarrow> string \<Rightarrow> string \<Rightarrow> int \<Rightarrow> int \<Rightarrow> world \<Rightarrow>
     (startup_error + 'e LocalNodeManager) \<times> world" where
  "NewLocalNodeManager pf dbPath nodeKeyPath ip udpPort tcpPort w =
     (case loadOrGenerateNodeKey (pf_keys pf) (pf_readable pf) (pf_writable pf) (pf_node_key pf) nodeKeyPath (w_files w) of
        (Inl err, fs) \<Rightarrow> (Inl (LoadNodeKeyFailed err), w\<lparr>w_files := fs\<rparr>)
      | (Inr privKey, fs) \<Rightarrow>
          let w1 = w\<lparr>w_files := fs\<rparr> in
          if \<not> pf_OpenDB pf dbPath then (Inl OpenDBFailed, w1)
          else
            (Inr \<lparr>mgr_key = privKey,
                  mgr_enr = \<lparr>enr_ip = ip, enr_udp = word_of_int udpPort,
                    enr_tcp = (if tcpPort \<noteq> 0 then Some (word_of_int tcpPort) else None), enr_quic = None\<rparr>\<rparr>,
             acquire NodeDB w1))"

definition int_text :: "int \<Rightarrow> string" where
  "int_text i = (if i < 0 then ''-'' @ decimal (nat (- i)) else decimal (nat i))"

record 'n DiscoveryService =
  disc_port :: int
  disc_boots :: "'n list"

datatype discovery_error = ResolveUDPFailed | ListenUDPFailed | StartDiscv5Failed

text \<open>A service owns the connection; when the start of the protocol fails, the connection stays open.\<close>

definition NewDiscoveryService ::
    "('k, 'e, 'n, 'p, 'q, 'i, 'a, 'kp) platform \<Rightarrow> 'e LocalNodeManager \<Rightarrow> int \<Rightarrow> string list \<Rightarrow> world \<Rightarrow>
     (discovery_error + 'n DiscoveryService) \<times> world" where
  "NewDiscoveryService pf manager port bootnodes w =
     (let boots = discovery_boots (pf_addrs pf) bootnodes;
          addr = ''0.0.0.0:'' @ int_text port
      in
      if \<not> pf_ResolveUDPAddr pf addr then (Inl ResolveUDPFailed, w)
      else if \<not> pf_ListenUDP pf addr then (Inl ListenUDPFailed, w)
      else
        let w1 = acquire UDPConn w in
        if \<not> pf_ListenV5 pf (mgr_key manager) boots then (Inl StartDiscv5Failed, w1)
        else (Inr \<lparr>disc_port = port, disc_boots = boots\<rparr>, w1))"

definition DiscoveryService_Close :: "world \<Rightarrow> world" where
  [simp]: "DiscoveryService_Close w = release UDPConn w"

definition LocalNodeManager_Close :: "world \<Rightarrow> world" where
  [simp]: "LocalNodeManager_Close w = release NodeDB w"

text \<open>
  A random lookup takes at most 16 nodes from the library's iterator, here a function from the iterator's state to a node and
  the next state, and closes it.
\<close>

primrec lookup_loop :: "nat \<Rightarrow> ('s \<Rightarrow> ('n \<times> 's) option) \<Rightarrow> 's \<Rightarrow> 'n list" where
  "lookup_loop 0 step iter = []"
| "lookup_loop (Suc i) step iter = (case step iter of None \<Rightarrow> [] | Some (node, iter') \<Rightarrow> node # lookup_loop i step iter')"

definition LookupRandom :: "('s \<Rightarrow> ('n \<times> 's) option) \<Rightarrow> 's \<Rightarrow> 'n list" where
  "LookupRandom step iter = lookup_loop 16 step iter"

lemma lookup_loop_list:
  "lookup_loop i (\<lambda>ns. case ns of [] \<Rightarrow> None | n # ns' \<Rightarrow> Some (n, ns')) nodes = take i nodes"
  by (induction i arbitrary: nodes) (auto split: list.split)

text \<open>Of an iterator over finitely many nodes the lookup returns the first 16.\<close>

lemma LookupRandom_list:
  "LookupRandom (\<lambda>ns. case ns of [] \<Rightarrow> None | n # ns' \<Rightarrow> Some (n, ns')) nodes = take 16 nodes"
  by (simp only: LookupRandom_def lookup_loop_list)

definition initDiscovery ::
    "('k, 'e, 'n, 'p, 'q, 'i, 'a, 'kp) platform \<Rightarrow> NodeConfig \<Rightarrow> world \<Rightarrow>
     (startup_error + 'e LocalNodeManager \<times> 'n DiscoveryService option) \<times> world" where
  "initDiscovery pf cfg w =
     (let discPort = (if cfg_discovery_port cfg = 0 then 9000 else cfg_discovery_port cfg);
          p2pDBPath = Join (cfg_data_dir cfg) ''p2p''
      in
      if \<not> pf_MkdirAll pf p2pDBPath then (Inl CreateDBDirFailed, w)
      else
        case NewLocalNodeManager pf p2pDBPath (cfg_node_key_path cfg) ''0.0.0.0'' discPort 0 w of
          (Inl err, w1) \<Rightarrow> (Inl err, w1)
        | (Inr p2pManager, w1) \<Rightarrow>
            (case NewDiscoveryService pf p2pManager discPort (cfg_bootnodes cfg) w1 of
               (Inl _, w2) \<Rightarrow> (Inr (p2pManager, None), w2)
             | (Inr p2pDiscovery, w2) \<Rightarrow> (Inr (p2pManager, Some p2pDiscovery), w2)))"

subsection \<open>The node\<close>

text \<open>A key pair as a \<open>Signer\<close>; errors are texts there.\<close>

definition leansig_error_text :: "leansig_error \<Rightarrow> string" where
  "leansig_error_text err =
     (case err of
        KeypairNil \<Rightarrow> ''keypair is nil''
      | EmptyPublicKey \<Rightarrow> ''public key bytes are empty''
      | EmptySecretKey \<Rightarrow> ''secret key bytes are empty''
      | EmptyPubkeyOrSignature \<Rightarrow> ''empty pubkey or signature bytes''
      | EmptySignature \<Rightarrow> ''empty signature bytes''
      | VerificationFailed \<Rightarrow> ''signature verification failed''
      | FailedWithCode name code \<Rightarrow> name @ '' failed with code '' @ int_text code)"

definition signer_of :: "'kp leansig_ffi \<Rightarrow> 'kp Keypair \<Rightarrow> signer" where
  "signer_of ffi kp = (\<lambda>epoch message.
     case Sign ffi kp epoch message of Inl err \<Rightarrow> Inl (leansig_error_text err) | Inr sig \<Rightarrow> Inr sig)"

definition SubscribeTopics :: "(string \<Rightarrow> bool) \<Rightarrow> Topics \<Rightarrow> bool" where
  "SubscribeTopics subscribe topics \<longleftrightarrow>
     subscribe (topic_block topics) \<and> subscribe (topic_attestation topics) \<and>
     (case topic_aggregate topics of None \<Rightarrow> True | Some topic \<Rightarrow> subscribe topic)"

text \<open>
  The stream handlers of \<open>RegisterReqResp\<close>, by protocol, and those that \<open>registerHandlers\<close> installs for the store
  of the node.
\<close>

definition StatusProtocol :: string where
  "StatusProtocol = ''/leanconsensus/req/status/1/ssz_snappy''"

definition BlocksByRootProtocol :: string where
  "BlocksByRootProtocol = ''/leanconsensus/req/lean_blocks_by_root/1/ssz_snappy''"

definition BlocksByRootProtocolLegacy :: string where
  "BlocksByRootProtocolLegacy = ''/leanconsensus/req/blocks_by_root/1/ssz_snappy''"

definition RegisterReqResp ::
    "ssz_lib \<Rightarrow> snappy_lib \<Rightarrow> (Status \<Rightarrow> Status) option \<Rightarrow> (root list \<Rightarrow> SignedBlockWithAttestation list) option \<Rightarrow>
     string \<Rightarrow> (byte list \<Rightarrow> byte list) option" where
  "RegisterReqResp lib sn onStatus onBlocksByRoot =
     (let bbr = handleBlocksByRoot lib sn onBlocksByRoot in
      [StatusProtocol \<mapsto> handleStatus sn onStatus, BlocksByRootProtocol \<mapsto> bbr, BlocksByRootProtocolLegacy \<mapsto> bbr])"

definition node_streams :: "ssz_lib \<Rightarrow> snappy_lib \<Rightarrow> Store \<Rightarrow> string \<Rightarrow> (byte list \<Rightarrow> byte list) option" where
  "node_streams lib sn c = RegisterReqResp lib sn (Some (OnStatus c)) (Some (OnBlocksByRoot c))"

text \<open>
  The struct \<open>Node\<close> with its services. \<open>nd_cancel\<close> says whether the field \<open>cancel\<close> has been set; \<open>nd_dialled\<close> are
  the boot nodes that were dialled.
\<close>

record ('k, 'e, 'n, 'i, 'a) booted =
  nd_node :: Node
  nd_host :: 'k
  nd_topics :: Topics
  nd_manager :: "'e LocalNodeManager"
  nd_discovery :: "'n DiscoveryService option"
  nd_dialled :: "('i \<times> 'a list) list"
  nd_cancel :: bool

text \<open>The clean-up of the error paths of \<open>New\<close> and of \<open>Close\<close>.\<close>

definition close_services :: "'n DiscoveryService option \<Rightarrow> world \<Rightarrow> world" where
  "close_services discovery w =
     release HostResource (LocalNodeManager_Close (if discovery \<noteq> None then DiscoveryService_Close w else w))"

definition new_duties ::
    "'kp leansig_ffi \<Rightarrow> NodeConfig \<Rightarrow> Topics \<Rightarrow> (u64 \<times> 'kp Keypair) list \<Rightarrow> ValidatorDuties" where
  "new_duties ffi cfg topics validatorKeys =
     \<lparr>vd_indices = cfg_validator_ids cfg, vd_keys = map (\<lambda>(idx, kp). (idx, signer_of ffi kp)) validatorKeys,
      vd_aggregate_topic = (topic_aggregate topics \<noteq> None), vd_pending = []\<rparr>"

definition New_node ::
    "('k, 'e, 'n, 'p, 'q, 'i, 'a, 'kp) platform \<Rightarrow> hasher \<Rightarrow> NodeConfig \<Rightarrow> world \<Rightarrow>
     ((startup_error + ('k, 'e, 'n, 'i, 'a) booted) \<times> world) option" where
  "New_node pf hash cfg w =
     map_option (\<lambda>fc.
       case initP2P pf cfg w of
         (Inl err, w1) \<Rightarrow> (Inl err, w1)
       | (Inr (host, topics), w1) \<Rightarrow>
       (case initDiscovery pf cfg w1 of
         (Inl err, w2) \<Rightarrow> (Inl err, release HostResource w2)
       | (Inr (p2pManager, p2pDiscovery), w2) \<Rightarrow>
       (case loadValidatorKeys (pf_ffi pf) (w_files w2) (cfg_validator_keys_dir cfg) (cfg_validator_ids cfg) of
         Inl err \<Rightarrow> (Inl (LoadValidatorKeysFailed err), close_services p2pDiscovery w2)
       | Inr validatorKeys \<Rightarrow>
           let n = \<lparr>node_fc = fc, node_validator = new_duties (pf_ffi pf) cfg topics validatorKeys,
                    node_clock = NewClock (cfg_genesis cfg), node_published = []\<rparr>
           in
           if \<not> SubscribeTopics (pf_Subscribe pf) topics then (Inl SubscribeTopicsFailed, close_services p2pDiscovery w2)
           else
             (Inr \<lparr>nd_node = n, nd_host = host, nd_topics = topics, nd_manager = p2pManager, nd_discovery = p2pDiscovery,
                   nd_dialled = (if length (cfg_bootnodes cfg) > 0
                     then ConnectBootnodes (pf_addrs pf) (pf_peer_id pf host) (cfg_bootnodes cfg) else []),
                   nd_cancel = False\<rparr>, w2))))
       (initGenesis hash (cfg_genesis cfg) (cfg_validators cfg))"

text \<open>\<open>Close\<close> calls the function in \<open>cancel\<close> first; \<open>None\<close> is the panic of a call of \<open>nil\<close>.\<close>

definition Node_Close :: "('k, 'e, 'n, 'i, 'a) booted \<Rightarrow> world \<Rightarrow> world option" where
  "Node_Close b w = (if \<not> nd_cancel b then None else Some (close_services (nd_discovery b) w))"

subsection \<open>Running\<close>

text \<open>
  What happens to a running node: a tick of the main loop, with the times it reads, or a message on one of the two
  subscribed topics, with the time at which it is processed.
\<close>

datatype event =
    Tick "nat \<Rightarrow> u64 option" "peer list" u64 u64 u64 u64
  | GossipBlock "u64 option" "byte list"
  | GossipVote "u64 option" "byte list"

fun handle_event :: "ssz_lib \<Rightarrow> snappy_lib \<Rightarrow> env \<Rightarrow> event \<Rightarrow> Node \<Rightarrow> Node option" where
  "handle_event lib sn e (Tick nows peers t1 t2 t3 t4) n = on_tick lib sn e nows peers t1 t2 t3 t4 n"
| "handle_event lib sn e (GossipBlock now msg) n =
     map_option (\<lambda>c. n\<lparr>node_fc := c\<rparr>) (readBlockMessages lib sn (Some (OnBlock e now)) [msg] (Some (node_fc n)))"
| "handle_event lib sn e (GossipVote now msg) n =
     map_option (\<lambda>c. n\<lparr>node_fc := c\<rparr>) (readAttestationMessages lib sn (Some (OnAttestation e now)) [msg] (Some (node_fc n)))"

fun run_events :: "ssz_lib \<Rightarrow> snappy_lib \<Rightarrow> env \<Rightarrow> event list \<Rightarrow> Node \<Rightarrow> Node option" where
  "run_events lib sn e [] n = Some n"
| "run_events lib sn e (ev # evs) n = Option.bind (handle_event lib sn e ev n) (run_events lib sn e evs)"

text \<open>The initial synchronisation, then the events up to the shutdown.\<close>

definition Run ::
    "ssz_lib \<Rightarrow> snappy_lib \<Rightarrow> env \<Rightarrow> (nat \<Rightarrow> u64 option) \<Rightarrow> peer list \<Rightarrow> event list \<Rightarrow> Node \<Rightarrow> Node option" where
  "Run lib sn e nows peers events n =
     Option.bind (initialSync lib sn e nows peers (node_fc n)) (\<lambda>c. run_events lib sn e events (n\<lparr>node_fc := c\<rparr>))"

subsection \<open>The command line\<close>

record flags =
  fl_genesis :: string
  fl_bootnodes :: string
  fl_validators :: string
  fl_node_id :: string
  fl_node_key :: string
  fl_validator_keys :: string
  fl_listen_addr :: string
  fl_metrics_port :: int
  fl_discovery_port :: int
  fl_data_dir :: string
  fl_devnet_id :: string

record parsers =
  ps_readFile :: "string \<Rightarrow> byte list option"
  ps_genesis :: "byte list \<Rightarrow> rawGenesisConfig option"
  ps_entries :: "byte list \<Rightarrow> string list option"
  ps_strings :: "byte list \<Rightarrow> string list option"
  ps_map :: "byte list \<Rightarrow> (string \<times> u64 list) list option"
  ps_registry :: "byte list \<Rightarrow> ValidatorRegistry option"

datatype exit_reason =
    GenesisFlagRequired
  | GenesisFailed config_error
  | BootnodesFailed config_error
  | ValidatorsFailed config_error
  | InvalidAssignments validate_error
  | InitializeFailed startup_error

text \<open>The part of \<open>main\<close> up to the call of \<open>New\<close>; an error is the exit with code 1.\<close>

definition load_bootnodes :: "parsers \<Rightarrow> flags \<Rightarrow> exit_reason + string list" where
  "load_bootnodes ps fl =
     (if fl_bootnodes fl \<noteq> '''' then
        (case LoadBootnodes (ps_readFile ps) (ps_entries ps) (ps_strings ps) (fl_bootnodes fl) of
           Inl err \<Rightarrow> Inl (BootnodesFailed err) | Inr bootnodes \<Rightarrow> Inr bootnodes)
      else Inr [])"

definition load_assignment :: "parsers \<Rightarrow> flags \<Rightarrow> GenesisConfig \<Rightarrow> exit_reason + u64 list" where
  "load_assignment ps fl genCfg =
     (if fl_validators fl \<noteq> '''' \<and> fl_node_id fl \<noteq> '''' then
        (case LoadValidators (ps_readFile ps) (ps_map ps) (ps_registry ps) (fl_validators fl) of
           Inl err \<Rightarrow> Inl (ValidatorsFailed err)
         | Inr reg \<Rightarrow>
             (case Validate reg (of_nat (length (gc_validators genCfg))) of
                Some err \<Rightarrow> Inl (InvalidAssignments err)
              | None \<Rightarrow> Inr (GetValidatorIndices reg (fl_node_id fl))))
      else Inr [])"

definition node_config :: "parsers \<Rightarrow> flags \<Rightarrow> exit_reason + NodeConfig" where
  "node_config ps fl =
     (if fl_genesis fl = '''' then Inl GenesisFlagRequired
      else
        case LoadGenesisConfig (ps_readFile ps) (ps_genesis ps) (fl_genesis fl) of
          Inl err \<Rightarrow> Inl (GenesisFailed err)
        | Inr genCfg \<Rightarrow>
            and_then (load_bootnodes ps fl) (\<lambda>bootnodes.
            and_then (load_assignment ps fl genCfg) (\<lambda>validatorIDs.
            Inr \<lparr>cfg_genesis = gc_genesis_time genCfg, cfg_validators = gc_validators genCfg,
                 cfg_listen_addr = fl_listen_addr fl, cfg_node_key_path = fl_node_key fl, cfg_bootnodes = bootnodes,
                 cfg_discovery_port = fl_discovery_port fl, cfg_data_dir = fl_data_dir fl, cfg_validator_ids = validatorIDs,
                 cfg_validator_keys_dir = fl_validator_keys fl, cfg_metrics_port = fl_metrics_port fl,
                 cfg_devnet_id = fl_devnet_id fl\<rparr>)))"

subsection \<open>What a start leaves behind\<close>

lemma release_simps [simp]:
  "w_files (acquire r w) = w_files w" "w_files (release r w) = w_files w"
  "w_open (acquire r w) = r # w_open w" "w_open (release r w) = remove1 r (w_open w)"
  by (simp_all add: acquire_def release_def)

lemma loadOrGenerateKey_frame:
  "loadOrGenerateKey kl readable writable generated path fs = (r, fs') \<Longrightarrow> path' \<noteq> path \<Longrightarrow> fs' path' = fs path'"
  by (auto simp: loadOrGenerateKey_def split: option.splits if_splits)

lemma loadOrGenerateNodeKey_frame:
  "loadOrGenerateNodeKey kl readable writable generated path fs = (r, fs') \<Longrightarrow> path' \<noteq> path \<Longrightarrow> fs' path' = fs path'"
  by (auto simp: loadOrGenerateNodeKey_def split: option.splits if_splits)

text \<open>What a step of the start does to the open resources and to the files other than the node key.\<close>

definition step_effect :: "string \<Rightarrow> resource list \<Rightarrow> world \<Rightarrow> world \<Rightarrow> bool" where
  "step_effect key opened w w' \<longleftrightarrow>
     w_open w' = opened @ w_open w \<and> (\<forall>path. path \<noteq> key \<longrightarrow> w_files w' path = w_files w path)"

lemma step_effect_refl: "step_effect key [] w w"
  by (simp add: step_effect_def)

lemma initP2P_effect:
  assumes "initP2P pf cfg w = (r, w')"
  shows "step_effect (cfg_node_key_path cfg) (case r of Inl _ \<Rightarrow> [] | Inr _ \<Rightarrow> [HostResource]) w w' \<and>
    (\<forall>host topics. r = Inr (host, topics) \<longrightarrow> topic_aggregate topics = None)"
  using assms
  by (auto simp: initP2P_def NewHost_def JoinTopics_def step_effect_def Let_def loadOrGenerateKey_frame
      split: prod.splits sum.splits option.splits if_splits)

lemma initDiscovery_effect:
  assumes "initDiscovery pf cfg w = (r, w')"
  shows "case r of
      Inl _ \<Rightarrow> step_effect (cfg_node_key_path cfg) [] w w'
    | Inr (manager, Some _) \<Rightarrow> step_effect (cfg_node_key_path cfg) [UDPConn, NodeDB] w w'
    | Inr (manager, None) \<Rightarrow> step_effect (cfg_node_key_path cfg) [NodeDB] w w' \<or>
        step_effect (cfg_node_key_path cfg) [UDPConn, NodeDB] w w' \<and>
          \<not> pf_ListenV5 pf (mgr_key manager) (discovery_boots (pf_addrs pf) (cfg_bootnodes cfg))"
  using assms
  by (auto simp: initDiscovery_def NewLocalNodeManager_def NewDiscoveryService_def step_effect_def Let_def
      loadOrGenerateNodeKey_frame split: prod.splits sum.splits option.splits if_splits)

lemma close_services_effect:
  "w_open w = (if discovery \<noteq> None then [UDPConn] else conns) @ [NodeDB, HostResource] \<Longrightarrow>
   set conns \<subseteq> {UDPConn} \<Longrightarrow> w_open (close_services discovery w) = (if discovery \<noteq> None then [] else conns)"
  by (auto simp: close_services_def remove1_append)

lemma close_services_files [simp]: "w_files (close_services discovery w) = w_files w"
  by (simp add: close_services_def)

text \<open>The state after host and discovery have been set up: \<open>conns\<close> is a connection that nobody owns.\<close>

lemma network_effect:
  assumes "initP2P pf cfg w = (Inr (host, topics), w1)" and "initDiscovery pf cfg w1 = (Inr (manager, discovery), w2)"
    and "w_open w = []"
  obtains conns where "w_open w2 = (if discovery \<noteq> None then [UDPConn] else conns) @ [NodeDB, HostResource]"
    and "conns = [] \<or> conns = [UDPConn] \<and> \<not> pf_ListenV5 pf (mgr_key manager) (discovery_boots (pf_addrs pf) (cfg_bootnodes cfg))"
    and "\<And>path. path \<noteq> cfg_node_key_path cfg \<Longrightarrow> w_files w2 path = w_files w path"
proof -
  have 1: "w_open w1 = [HostResource]" "\<forall>path. path \<noteq> cfg_node_key_path cfg \<longrightarrow> w_files w1 path = w_files w path"
    using initP2P_effect [OF assms(1)] assms(3) by (auto simp: step_effect_def)
  from initDiscovery_effect [OF assms(2)] show ?thesis
    using that [of "[]"] that [of "[UDPConn]"] 1 by (cases discovery) (auto simp: step_effect_def)
qed

text \<open>How a node that has started was put together.\<close>

lemma New_node_Inr:
  assumes "New_node pf hash cfg w = Some (Inr b, w')"
  obtains fc host topics w1 manager discovery keys where
    "initGenesis hash (cfg_genesis cfg) (cfg_validators cfg) = Some fc" and "initP2P pf cfg w = (Inr (host, topics), w1)"
    and "initDiscovery pf cfg w1 = (Inr (manager, discovery), w')"
    and "loadValidatorKeys (pf_ffi pf) (w_files w') (cfg_validator_keys_dir cfg) (cfg_validator_ids cfg) = Inr keys"
    and "nd_node b = \<lparr>node_fc = fc, node_validator = new_duties (pf_ffi pf) cfg topics keys,
      node_clock = NewClock (cfg_genesis cfg), node_published = []\<rparr>"
    and "nd_host b = host" and "nd_manager b = manager" and "\<not> nd_cancel b"
proof -
  obtain r1 w1 where 1: "initP2P pf cfg w = (r1, w1)" by fastforce
  obtain r2 w2 where 2: "initDiscovery pf cfg w1 = (r2, w2)" by fastforce
  obtain host topics where r1: "r1 = Inr (host, topics)" using assms 1 by (cases r1) (auto simp: New_node_def)
  obtain manager discovery where r2: "r2 = Inr (manager, discovery)"
    using assms 1 2 r1 by (cases r2) (auto simp: New_node_def)
  obtain keys where keys: "loadValidatorKeys (pf_ffi pf) (w_files w2) (cfg_validator_keys_dir cfg) (cfg_validator_ids cfg) = Inr keys"
    using assms 1 2 r1 r2
    by (cases "loadValidatorKeys (pf_ffi pf) (w_files w2) (cfg_validator_keys_dir cfg) (cfg_validator_ids cfg)")
      (auto simp: New_node_def)
  show ?thesis using assms 1 2 r1 r2 keys that by (auto simp: New_node_def Let_def split: if_splits)
qed


subsection \<open>A running node\<close>

definition node_ok :: "env \<Rightarrow> root \<Rightarrow> Node \<Rightarrow> bool" where
  "node_ok e ap n \<longleftrightarrow> fc_inv (env_hash e) ap (node_fc n) \<and> NumValidators (node_fc n) \<noteq> 0 \<and>
     distinct (vd_indices (node_validator n))"

text \<open>The node has just published a block of its own whose root is that of another block, or the root below the anchor.\<close>

definition published_collision :: "env \<Rightarrow> root \<Rightarrow> Node \<Rightarrow> bool" where
  "published_collision e ap n \<longleftrightarrow>
     (\<exists>published envelope c. node_published n = published @ [BlockMessage envelope] \<and>
        collides (env_hash e) ap c (bwa_block (sb_message envelope)))"

lemma OnInterval_indices:
  "OnInterval e nows slot interval n = Some n' \<Longrightarrow> vd_indices (node_validator n') = vd_indices (node_validator n)"
  by (auto simp: OnInterval_def TryPropose_def TryAttest_def TryAggregate_def Let_def split: if_splits sum.splits)

lemma on_tick_indices:
  "on_tick lib sn e nows peers t1 t2 t3 t4 n = Some n' \<Longrightarrow> vd_indices (node_validator n') = vd_indices (node_validator n)"
  by (auto simp: on_tick_def Let_def bind_eq_Some_conv dest!: OnInterval_indices split: if_splits)

lemma fc_grows_validators: "fc_grows c c' \<Longrightarrow> NumValidators c' = NumValidators c"
  by (simp add: fc_grows_def NumValidators_def)

lemma gossip_block_inv:
  assumes "ssz_library lib" and "root_free (env_hash e) ap" and "fc_inv (env_hash e) ap c"
  shows "\<exists>c'. readBlockMessages lib sn (Some (OnBlock e now)) [msg] (Some c) = Some c' \<and>
    fc_inv (env_hash e) ap c' \<and> fc_grows c c'"
proof (cases "\<exists>decoded sb. snappy_Decode sn msg = Some decoded \<and> SignedBlockWithAttestation_UnmarshalSSZ lib decoded = Inr sb")
  case True
  then obtain decoded sb where sb: "snappy_Decode sn msg = Some decoded" "SignedBlockWithAttestation_UnmarshalSSZ lib decoded = Inr sb"
    by blast
  then have "block_root (env_hash e) (bwa_block (sb_message sb)) \<noteq> ap"
    using ssz_library.decoded_attestations [OF assms(1)] assms(2) by (auto simp: root_free_def)
  then obtain err c' where "Store_ProcessBlock e now sb c = Some (err, c')" "fc_inv (env_hash e) ap c'" "fc_grows c c'"
    using Store_ProcessBlock_inv [OF assms(3)] by blast
  then show ?thesis using sb by (auto simp: readBlockMessages_def receive_def OnBlock_def)
next
  case False
  then show ?thesis
    using assms(3) by (auto simp: readBlockMessages_def receive_def fc_grows_def split: option.split sum.split)
qed

lemma gossip_vote_inv:
  assumes "fc_inv (env_hash e) ap c"
  shows "\<exists>c'. readAttestationMessages lib sn (Some (OnAttestation e now)) [msg] (Some c) = Some c' \<and>
    fc_inv (env_hash e) ap c' \<and> fc_grows c c'"
proof -
  obtain c1 where c1: "advance_now now c = Some c1" by (rule advance_now_inv [OF assms])
  have "\<exists>c'. ProcessAttestation e now sa c = Some c' \<and> fc_inv (env_hash e) ap c' \<and> fc_grows c c'" for sa
    using ProcessAttestation_inv [OF assms, of e now sa] same_chain_grows c1 by (auto simp: ProcessAttestation_def)
  then show ?thesis
    using assms by (auto simp: readAttestationMessages_def receive_def OnAttestation_def fc_grows_def split: option.split sum.split)
qed

lemma handle_event_ok:
  assumes "ssz_library lib" and "snappy_ok sn" and "root_free (env_hash e) ap" and "node_ok e ap n"
  shows "\<exists>n'. handle_event lib sn e ev n = Some n' \<and>
    (node_ok e ap n' \<and> fc_grows (node_fc n) (node_fc n') \<or> published_collision e ap n')"
proof (cases ev)
  case (Tick nows peers t1 t2 t3 t4)
  obtain n' where n': "on_tick lib sn e nows peers t1 t2 t3 t4 n = Some n'"
    "fc_inv (env_hash e) ap (node_fc n') \<and> fc_grows (node_fc n) (node_fc n') \<or>
     (\<exists>c envelope. fc_inv (env_hash e) ap c \<and> fc_grows (node_fc n) c \<and>
       node_published n' = node_published n @ [BlockMessage envelope] \<and>
       collides (env_hash e) ap c (bwa_block (sb_message envelope)))"
    using tick_keeps_store [OF assms(1-3)] assms(4) unfolding node_ok_def by blast
  then show ?thesis
    using assms(4) on_tick_indices [OF n'(1)] Tick
    by (auto simp: node_ok_def published_collision_def fc_grows_validators)
next
  case (GossipBlock now msg)
  then show ?thesis
    using gossip_block_inv [OF assms(1,3)] assms(4) fc_grows_validators by (fastforce simp: node_ok_def)
next
  case (GossipVote now msg)
  then show ?thesis
    using gossip_vote_inv assms(4) fc_grows_validators by (fastforce simp: node_ok_def)
qed

lemma initialSync_inv:
  assumes "ssz_library lib" and "snappy_ok sn" and "root_free (env_hash e) ap" and "fc_inv (env_hash e) ap c"
  shows "\<exists>c'. initialSync lib sn e nows peers c = Some c' \<and> fc_inv (env_hash e) ap c' \<and> fc_grows c c'"
  using assms(4)
proof (induction peers arbitrary: c)
  case Nil
  then show ?case by (simp add: initialSync_def fc_grows_def)
next
  case (Cons pr peers)
  obtain b c1 where c1: "syncWithPeer lib sn e nows pr c = Some (b, c1)" "fc_inv (env_hash e) ap c1" "fc_grows c c1"
    by (rule syncWithPeer_inv [OF assms(1-3) Cons.prems])
  from Cons.IH [OF c1(2)] show ?case using c1 fc_grows_trans by (auto simp: initialSync_def)
qed

lemma run_events_ok:
  assumes "ssz_library lib" and "snappy_ok sn" and "root_free (env_hash e) ap" and "node_ok e ap n"
  shows "(\<exists>n'. run_events lib sn e evs n = Some n' \<and> node_ok e ap n' \<and> fc_grows (node_fc n) (node_fc n')) \<or>
    (\<exists>pre rest n'. evs = pre @ rest \<and> run_events lib sn e pre n = Some n' \<and> published_collision e ap n')"
  using assms(4)
proof (induction evs arbitrary: n)
  case Nil
  then show ?case by (simp add: fc_grows_def)
next
  case (Cons ev evs)
  obtain n1 where n1: "handle_event lib sn e ev n = Some n1"
    and or: "node_ok e ap n1 \<and> fc_grows (node_fc n) (node_fc n1) \<or> published_collision e ap n1"
    using handle_event_ok [OF assms(1-3) Cons.prems] by blast
  from or show ?case
  proof
    assume ok: "node_ok e ap n1 \<and> fc_grows (node_fc n) (node_fc n1)"
    from Cons.IH [OF conjunct1 [OF ok]] show ?thesis
    proof (elim disjE exE conjE)
      fix n' assume "run_events lib sn e evs n1 = Some n'" "node_ok e ap n'" "fc_grows (node_fc n1) (node_fc n')"
      then show ?thesis using ok n1 fc_grows_trans by auto
    next
      fix pre rest n' assume "evs = pre @ rest" "run_events lib sn e pre n1 = Some n'" "published_collision e ap n'"
      then have "ev # evs = (ev # pre) @ rest \<and> run_events lib sn e (ev # pre) n = Some n' \<and> published_collision e ap n'"
        using n1 by simp
      then show ?thesis by blast
    qed
  next
    assume "published_collision e ap n1"
    then have "ev # evs = [ev] @ evs \<and> run_events lib sn e [ev] n = Some n1 \<and> published_collision e ap n1" using n1 by simp
    then show ?thesis by blast
  qed
qed

subsection \<open>From the command line to a run\<close>

lemma node_config_ok:
  assumes "node_config ps fl = Inr cfg"
  shows "cfg_validators cfg \<noteq> []" and "distinct (cfg_validator_ids cfg)"
    and "\<forall>idx \<in> set (cfg_validator_ids cfg). idx < of_nat (length (cfg_validators cfg))"
proof -
  obtain genCfg where gen: "LoadGenesisConfig (ps_readFile ps) (ps_genesis ps) (fl_genesis fl) = Inr genCfg"
    and ids: "load_assignment ps fl genCfg = Inr (cfg_validator_ids cfg)" and val: "cfg_validators cfg = gc_validators genCfg"
    using assms by (auto simp: node_config_def and_then_eq_Inr_iff split: if_splits sum.splits)
  show "cfg_validators cfg \<noteq> []"
    using gen val parse_validators_Inr
    by (fastforce simp: LoadGenesisConfig_def and_then_eq_Inr_iff split: option.splits if_splits)
  have "distinct (cfg_validator_ids cfg) \<and> (\<forall>idx \<in> set (cfg_validator_ids cfg). idx < of_nat (length (gc_validators genCfg)))"
  proof (cases "fl_validators fl \<noteq> '''' \<and> fl_node_id fl \<noteq> ''''")
    case True
    then obtain reg where "Validate reg (of_nat (length (gc_validators genCfg))) = None"
      "cfg_validator_ids cfg = GetValidatorIndices reg (fl_node_id fl)"
      using ids by (auto simp: load_assignment_def split: sum.splits option.splits)
    then show ?thesis using GetValidatorIndices_cases [of reg "fl_node_id fl"] by (auto simp: Validate_iff)
  next
    case False
    then show ?thesis using ids by (auto simp: load_assignment_def)
  qed
  then show "distinct (cfg_validator_ids cfg)"
    "\<forall>idx \<in> set (cfg_validator_ids cfg). idx < of_nat (length (cfg_validators cfg))" using val by simp_all
qed

lemma New_node_ok:
  assumes "root_free (env_hash e) ZeroHash" and "node_config ps fl = Inr cfg" and "length (cfg_validators cfg) < 2 ^ 64"
    and "New_node pf (env_hash e) cfg w = Some (Inr b, w')"
  shows "node_ok e ZeroHash (nd_node b)"
proof -
  let ?b = "\<lparr>b_slot = 0, b_proposer = 0, b_parent_root = ZeroHash,
      b_state_root = fst (State_HashTreeRoot (env_hash e)
        (GenerateGenesis (env_hash e) (cfg_genesis cfg) (cfg_validators cfg))), b_body = \<lparr>body_attestations = []\<rparr>\<rparr>"
  have "block_root (env_hash e) ?b \<noteq> ZeroHash" using assms(1) by (simp add: root_free_def)
  from node_start [OF this] obtain c where
    c: "initGenesis (env_hash e) (cfg_genesis cfg) (cfg_validators cfg) = Some c"
      "NumValidators c = of_nat (length (cfg_validators cfg))" "fc_inv (env_hash e) ZeroHash c" by blast
  have "(of_nat (length (cfg_validators cfg)) :: u64) \<noteq> 0"
    using node_config_ok(1) [OF assms(2)] assms(3) by (auto simp: word_of_nat_eq_0_iff dest: dvd_imp_le)
  moreover have "node_fc (nd_node b) = c" "vd_indices (node_validator (nd_node b)) = cfg_validator_ids cfg"
    using assms(4) c(1) by (elim New_node_Inr, simp add: new_duties_def)+
  ultimately show ?thesis using c node_config_ok(2) [OF assms(2)] by (simp add: node_ok_def)
qed


text \<open>A platform on which everything succeeds, and a command line with a file that lists one key.\<close>

definition ex_platform :: "(byte, byte, unit, unit, unit, byte, string, byte) platform" where
  "ex_platform =
     \<lparr>pf_keys = ex_keys,
      pf_addrs = \<lparr>enode_Parse = (\<lambda>_. None), Node_IP = (\<lambda>_. None), Node_QUIC = (\<lambda>_. None), Node_Pubkey = (\<lambda>_. None),
        CompressPubkey = (\<lambda>_. []), UnmarshalSecp256k1PublicKey = (\<lambda>_. None), IDFromPublicKey = (\<lambda>_. None),
        NewMultiaddr = Some, AddrInfoFromP2pAddr = (\<lambda>_. None)\<rparr>,
      pf_ffi = ex_ffi, pf_readable = (\<lambda>_. True), pf_writable = (\<lambda>_. True), pf_host_key = Some 7, pf_node_key = Some 9,
      pf_peer_id = id, pf_libp2p_New = (\<lambda>_ _. True), pf_NewGossipSub = (\<lambda>_. True), pf_Join = (\<lambda>_. True), pf_Subscribe = (\<lambda>_. True),
      pf_MkdirAll = (\<lambda>_. True), pf_OpenDB = (\<lambda>_. True), pf_ResolveUDPAddr = (\<lambda>_. True), pf_ListenUDP = (\<lambda>_. True),
      pf_ListenV5 = (\<lambda>_ _. True)\<rparr>"

definition ex_flags :: flags where
  "ex_flags = \<lparr>fl_genesis = ''config.yaml'', fl_bootnodes = '''', fl_validators = '''', fl_node_id = '''', fl_node_key = ''node0.key'',
     fl_validator_keys = '''', fl_listen_addr = ''/ip4/0.0.0.0/udp/9000/quic-v1'', fl_metrics_port = 0, fl_discovery_port = 9000,
     fl_data_dir = ''data'', fl_devnet_id = ''devnet0''\<rparr>"

definition ex_parsers :: parsers where
  "ex_parsers = \<lparr>ps_readFile = (\<lambda>_. Some []),
     ps_genesis = (\<lambda>_. Some \<lparr>raw_genesis_time = 1000,
       raw_genesis_validators = [''0x'' @ hex_encode (list_of_bytes (bytes_of [7] :: pubkey))]\<rparr>),
     ps_entries = (\<lambda>_. None), ps_strings = (\<lambda>_. None), ps_map = (\<lambda>_. None), ps_registry = (\<lambda>_. None)\<rparr>"

definition ex_world :: world where
  "ex_world = \<lparr>w_files = Map.empty, w_open = []\<rparr>"

lemma ex_node_config:
  "\<exists>cfg. node_config ex_parsers ex_flags = Inr cfg \<and> length (cfg_validators cfg) = 1 \<and> cfg_validator_ids cfg = [] \<and>
     cfg_bootnodes cfg = [] \<and> cfg_node_key_path cfg = ''node0.key'' \<and> cfg_validator_keys_dir cfg = ''''"
  using parse_validators_printed [of 0 "[bytes_of [7]]"]
  by (simp add: node_config_def ex_parsers_def ex_flags_def LoadGenesisConfig_def load_bootnodes_def load_assignment_def)

lemma ex_start:
  assumes "cfg_node_key_path cfg = ''node0.key''" and "cfg_validator_keys_dir cfg = ''''"
  shows "\<exists>b w'. New_node ex_platform ex_hash cfg ex_world = Some (Inr b, w')"
    and "\<exists>w'. New_node (ex_platform\<lparr>pf_Subscribe := \<lambda>_. False\<rparr>) ex_hash cfg ex_world = Some (Inl SubscribeTopicsFailed, w')"
proof -
  have "(block_root ex_hash \<lparr>b_slot = 0, b_proposer = 0, b_parent_root = ZeroHash,
      b_state_root = fst (State_HashTreeRoot ex_hash (GenerateGenesis ex_hash (cfg_genesis cfg) (cfg_validators cfg))),
      b_body = \<lparr>body_attestations = []\<rparr>\<rparr>) \<noteq> ZeroHash"
    using ex_root_free by (simp add: root_free_def)
  then obtain c where "initGenesis ex_hash (cfg_genesis cfg) (cfg_validators cfg) = Some c"
    using node_start [of ex_env "cfg_genesis cfg" "cfg_validators cfg"] by (auto simp: ex_env_def)
  then show "\<exists>b w'. New_node ex_platform ex_hash cfg ex_world = Some (Inr b, w')"
    and "\<exists>w'. New_node (ex_platform\<lparr>pf_Subscribe := \<lambda>_. False\<rparr>) ex_hash cfg ex_world = Some (Inl SubscribeTopicsFailed, w')"
    using assms by (simp_all add: New_node_def initP2P_def NewHost_def JoinTopics_def initDiscovery_def NewLocalNodeManager_def
        NewDiscoveryService_def loadOrGenerateKey_def loadOrGenerateNodeKey_def SubscribeTopics_def loadValidatorKeys_def
        ex_platform_def ex_world_def ex_keys_def acquire_def Let_def)
qed




text \<open>
  The peer that the synchronisation theorems call honest is what a node with that store registers, under the protocols
  for which its counterpart opens streams.
\<close>

lemma honest_registered:
  "node_streams lib sn p StatusProtocol = Some f \<Longrightarrow> peer_status (honest lib sn p) req = Inr (f req)"
  "protocol \<in> {BlocksByRootProtocol, BlocksByRootProtocolLegacy} \<Longrightarrow> node_streams lib sn p protocol = Some g \<Longrightarrow>
   peer_blocks (honest lib sn p) i req = Inr (g req)"
  by (auto simp: node_streams_def RegisterReqResp_def honest_def Let_def StatusProtocol_def BlocksByRootProtocol_def
      BlocksByRootProtocolLegacy_def split: if_splits)

subsection \<open>Starts that cannot succeed\<close>

text \<open>
  The flag for the node key is optional, and the host has a branch for its absence, but discovery then fails: without
  the flag no node starts.
\<close>

lemma no_start_without_node_key:
  assumes "cfg_node_key_path cfg = ''''" and "w_files w '''' = None" and "\<not> pf_writable pf ''''"
  shows "New_node pf hash cfg w \<noteq> Some (Inr b, w')"
proof
  assume "New_node pf hash cfg w = Some (Inr b, w')"
  then obtain host topics w1 md w2 where "initP2P pf cfg w = (Inr (host, topics), w1)" "initDiscovery pf cfg w1 = (Inr md, w2)"
    by (elim New_node_Inr)
  moreover from this(1) have "w_files w1 '''' = None"
    using assms(1,2) by (auto simp: initP2P_def NewHost_def JoinTopics_def loadOrGenerateKey_def Let_def
        split: prod.splits sum.splits option.splits if_splits)
  ultimately show False
    using discovery_needs_key_path [of "w_files w1" "pf_writable pf" "pf_keys pf" "pf_readable pf" "pf_node_key pf"] assms
    by (auto simp: initDiscovery_def NewLocalNodeManager_def Let_def split: prod.splits sum.splits if_splits)
qed

text \<open>\<open>New\<close> never sets \<open>cancel\<close>, which \<open>Close\<close> calls.\<close>

lemma Close_panics:
  assumes "New_node pf hash cfg w = Some (Inr b, w')"
  shows "Node_Close b w'' = None"
  using assms by (elim New_node_Inr) (simp add: Node_Close_def)

text \<open>
  The node record that a node publishes has no QUIC port, and \<open>ENRToAddrInfo\<close> refuses such a record: a node cannot be
  reached through its own record.
\<close>

lemma own_record_refused:
  assumes "initDiscovery pf cfg w = (Inr (manager, discovery), w')" and "enode_Parse al url = Some node"
    and "Node_QUIC al node = enr_quic (mgr_enr manager)"
  shows "\<exists>err. ENRToAddrInfo al url = Inl err"
proof -
  have "enr_quic (mgr_enr manager) = None"
    using assms(1) by (auto simp: initDiscovery_def NewLocalNodeManager_def Let_def split: prod.splits sum.splits if_splits)
  then show ?thesis using assms(2,3) by (simp add: ENRToAddrInfo_def split: option.split)
qed

end
