(* ===== verification/Logging.thy ===== *)
theory Logging
  imports ConfigFiles Paths
begin

text \<open>
  Package \<open>observability/logging\<close>: the global logger, the handler that formats lines, and the helpers for hashes and
  durations. A record handed to the handler by \<open>log/slog\<close> is its formatted time, level, message and attributes; an
  attribute value is its text. Writing to the standard output cannot be observed by the program: the handler yields
  the line, \<open>None\<close> when it suppresses it.
\<close>

subsection \<open>Handler\<close>

definition LevelDebug :: int where "LevelDebug = - 4"
definition LevelInfo :: int where "LevelInfo = 0"
definition LevelWarn :: int where "LevelWarn = 4"
definition LevelError :: int where "LevelError = 8"

record attr =
  at_key :: string
  at_value :: string

record prettyHandler =
  ph_level :: int
  ph_attrs :: "attr list"
  ph_group :: string

definition colour :: "string \<Rightarrow> string" where
  "colour code = CHR 0x1B # ''['' @ code @ ''m''"

definition col_reset :: string where "col_reset = colour ''0''"
definition col_dim :: string where "col_dim = colour ''2''"
definition col_red :: string where "col_red = colour ''31''"
definition col_yellow :: string where "col_yellow = colour ''33''"
definition col_cyan :: string where "col_cyan = colour ''36''"
definition col_green :: string where "col_green = colour ''32''"

definition Enabled :: "prettyHandler \<Rightarrow> int \<Rightarrow> bool" where
  "Enabled h level \<longleftrightarrow> level \<ge> ph_level h"

definition level_tag :: "int \<Rightarrow> string \<times> string" where
  "level_tag level =
     (if level \<ge> LevelError then (''ERR'', col_red)
      else if level \<ge> LevelWarn then (''WRN'', col_yellow)
      else if level \<ge> LevelInfo then (''INF'', col_green)
      else (''DBG'', col_dim))"

definition attr_text :: "attr \<Rightarrow> string" where
  "attr_text a = ''  '' @ col_dim @ at_key a @ ''='' @ at_value a @ col_reset"

text \<open>The loop that takes the component out of the attributes; the last one counts.\<close>

fun split_comp :: "attr list \<Rightarrow> string \<times> attr list \<Rightarrow> string \<times> attr list" where
  "split_comp [] st = st"
| "split_comp (a # as) (component, filteredAttrs) =
     (if at_key a = ''comp'' then split_comp as (at_value a, filteredAttrs)
      else split_comp as (component, filteredAttrs @ [a]))"

definition Handle :: "prettyHandler \<Rightarrow> string \<Rightarrow> int \<Rightarrow> string \<Rightarrow> attr list \<Rightarrow> string option" where
  "Handle h timestamp level message attrs =
     (let hasComp = list_ex (\<lambda>a. at_key a = ''comp'') (ph_attrs h) in
      if \<not> hasComp \<and> level < LevelError then None
      else
        let (levelStr, levelColor) = level_tag level;
            (component, filteredAttrs) = split_comp (ph_attrs h) ('''', []);
            compTag = (if component \<noteq> '''' then '' '' @ col_cyan @ ''['' @ component @ '']'' @ col_reset else '''');
            attrStr = concat (map attr_text filteredAttrs) @ concat (map attr_text attrs)
        in Some (col_dim @ timestamp @ col_reset @ '' '' @ levelColor @ levelStr @ col_reset @ compTag @ '' '' @ message @
                 attrStr @ [CHR 0x0A]))"

definition WithAttrs :: "prettyHandler \<Rightarrow> attr list \<Rightarrow> prettyHandler" where
  "WithAttrs h attrs = h\<lparr>ph_attrs := ph_attrs h @ attrs\<rparr>"

definition WithGroup :: "prettyHandler \<Rightarrow> string \<Rightarrow> prettyHandler" where
  "WithGroup h name = h\<lparr>ph_group := name\<rparr>"

text \<open>What a logger with this handler prints for one call.\<close>

definition log_line :: "prettyHandler \<Rightarrow> string \<Rightarrow> int \<Rightarrow> string \<Rightarrow> attr list \<Rightarrow> string option" where
  "log_line h timestamp level message attrs = (if Enabled h level then Handle h timestamp level message attrs else None)"

subsection \<open>The global logger\<close>

text \<open>
  \<open>defaultLogger\<close> is set by \<open>Init\<close>, under \<open>sync.Once\<close>: it is \<open>None\<close> exactly as long as the function has not run.
\<close>

definition Init :: "int \<Rightarrow> prettyHandler option \<Rightarrow> prettyHandler option" where
  "Init level logger =
     (case logger of
        None \<Rightarrow> Some \<lparr>ph_level = level, ph_attrs = [], ph_group = ''''\<rparr>
      | Some h \<Rightarrow> Some h)"

definition NewComponentLogger :: "string \<Rightarrow> prettyHandler option \<Rightarrow> prettyHandler \<times> prettyHandler option" where
  "NewComponentLogger name logger =
     (let logger1 = (case logger of None \<Rightarrow> Init LevelInfo None | Some h \<Rightarrow> Some h)
      in (WithAttrs (the logger1) [\<lparr>at_key = ''comp'', at_value = name\<rparr>], logger1))"

definition ShortHash :: "root \<Rightarrow> string" where
  "ShortHash h = hex_encode (take 4 (list_of_bytes h))"

text \<open>\<open>d\<close> is the elapsed time in nanoseconds; the micro sign is two bytes.\<close>

definition TimeSince :: "nat \<Rightarrow> string" where
  "TimeSince d =
     (if d < 1000000 then decimal (d div 1000) @ [CHR 0xC2, CHR 0xB5] @ ''s''
      else decimal (d div 1000000) @ ''ms'')"

definition parseLevel :: "string \<Rightarrow> int" where
  "parseLevel s =
     (if s = ''debug'' then LevelDebug else if s = ''warn'' then LevelWarn else if s = ''error'' then LevelError
      else LevelInfo)"

subsection \<open>What is printed\<close>

lemma split_comp_result:
  "split_comp as (component, filtered) =
     (last (component # map at_value (filter (\<lambda>a. at_key a = ''comp'') as)), filtered @ filter (\<lambda>a. at_key a \<noteq> ''comp'') as)"
  by (induction as arbitrary: component filtered) auto

text \<open>
  A component's logger prints every record at or above the level of the global logger, under the component's name, and
  libraries that log without a component are silent below errors.
\<close>

lemma component_line:
  assumes "NewComponentLogger component (Some h) = (l, st)" and "component \<noteq> ''''" and "ph_attrs h = []"
  shows "log_line l timestamp level message [] =
    (if level \<ge> ph_level h
     then Some (col_dim @ timestamp @ col_reset @ '' '' @ snd (level_tag level) @ fst (level_tag level) @ col_reset @
       '' '' @ col_cyan @ ''['' @ component @ '']'' @ col_reset @ '' '' @ message @ [CHR 0x0A])
     else None)"
  using assms by (auto simp: NewComponentLogger_def WithAttrs_def log_line_def Enabled_def Handle_def Let_def split: prod.split)

lemma library_line:
  assumes "ph_attrs h = []" and "level < LevelError"
  shows "log_line h timestamp level message attrs = None"
  using assms by (simp add: log_line_def Handle_def)

text \<open>
  The level given on the command line has no effect: two packages create their loggers when the program is initialised,
  before \<open>main\<close>, and the first of them fixes the level.
\<close>

lemma log_level_ignored:
  assumes "snd (NewComponentLogger component None) = logger"
  shows "Init (parseLevel level) logger = logger" and "map_option ph_level logger = Some LevelInfo"
  using assms by (auto simp: NewComponentLogger_def Init_def Let_def)

lemma length_hex_encode: "length (hex_encode bs) = 2 * length bs"
  by (induction bs) (simp_all add: hex_encode_def)

lemma ShortHash_prefix: "length (ShortHash h) = 8" "hex_decode (ShortHash h) = Inr (take 4 (list_of_bytes h))"
  by (simp_all add: ShortHash_def length_hex_encode hex_roundtrip)

end
