(* ===== verification/Fixtures.thy ===== *)
theory Fixtures
  imports ConfigFiles Bitlist
begin

text \<open>
  The consensus test fixtures, \<open>spectests/fixture_types.go\<close> and \<open>spectests/converters.go\<close>: the data that the
  conformance tests read and its conversion to the types of the program. Decoding of JSON itself is done by
  \<open>encoding/json\<close>; the hexadecimal strings, which have decoders of their own, are modelled from the decoded string on.
  The theorem at the end says that no state is out of reach of the fixtures.
\<close>

subsection \<open>Hexadecimal values\<close>

datatype hex_value_error =
    NotAString
  | InvalidHex hex_error
  | WrongLength nat

text \<open>\<open>s\<close> is the decoded JSON string, \<open>None\<close> if the value is not one.\<close>

definition HexRoot_UnmarshalJSON :: "string option \<Rightarrow> hex_value_error + root" where
  "HexRoot_UnmarshalJSON s =
     (case s of
        None \<Rightarrow> Inl NotAString
      | Some s \<Rightarrow>
          (case hex_decode (TrimPrefix s ''0x'') of
             Inl err \<Rightarrow> Inl (InvalidHex err)
           | Inr b \<Rightarrow> if length b \<noteq> 32 then Inl (WrongLength (length b)) else Inr (bytes_of b)))"

definition HexPubkey_UnmarshalJSON :: "string option \<Rightarrow> hex_value_error + pubkey" where
  "HexPubkey_UnmarshalJSON s =
     (case s of
        None \<Rightarrow> Inl NotAString
      | Some s \<Rightarrow>
          (case hex_decode (TrimPrefix s ''0x'') of
             Inl err \<Rightarrow> Inl (InvalidHex err)
           | Inr b \<Rightarrow> if length b \<noteq> 52 then Inl (WrongLength (length b)) else Inr (bytes_of b)))"

subsection \<open>Fixture types\<close>

record 'a Container =
  con_data :: "'a list"

record FixtureConfig =
  fx_genesis_time :: u64

record FixtureCheckpoint =
  fx_root :: root
  fx_cp_slot :: u64

record FixtureBlockHeader =
  fx_bh_slot :: u64
  fx_bh_proposer :: u64
  fx_bh_parent_root :: root
  fx_bh_state_root :: root
  fx_bh_body_root :: root

record FixtureValidator =
  fx_pubkey :: pubkey
  fx_index :: u64

record FixtureState =
  fx_config :: FixtureConfig
  fx_slot :: u64
  fx_latest_block_header :: FixtureBlockHeader
  fx_latest_justified :: FixtureCheckpoint
  fx_latest_finalized :: FixtureCheckpoint
  fx_historical_block_hashes :: "root Container"
  fx_justified_slots :: "u64 Container"
  fx_validators :: "FixtureValidator Container"
  fx_justifications_roots :: "root Container"
  fx_justifications_validators :: "bool Container"

record FixtureAttestationData =
  fx_ad_slot :: u64
  fx_head :: FixtureCheckpoint
  fx_target :: FixtureCheckpoint
  fx_source :: FixtureCheckpoint

record FixtureAttestation =
  fx_validator_id :: u64
  fx_data :: FixtureAttestationData

record FixtureSignedAttestation =
  fx_sa_validator_id :: u64
  fx_sa_data :: FixtureAttestationData

record FixtureBlockBody =
  fx_attestations :: "FixtureAttestation Container"

record FixtureBlock =
  fx_b_slot :: u64
  fx_b_proposer :: u64
  fx_b_parent_root :: root
  fx_b_state_root :: root
  fx_body :: FixtureBlockBody

subsection \<open>Conversion\<close>

definition buildBitlist :: "u64 list \<Rightarrow> byte list" where
  "buildBitlist bits = foldl (\<lambda>bl b. AppendBit bl (b \<noteq> 0)) [0x01] bits"

definition buildBoolBitlist :: "bool list \<Rightarrow> byte list" where
  "buildBoolBitlist bits = foldl AppendBit [0x01] bits"

text \<open>The conversion of a checkpoint, which the code writes out at each place.\<close>

definition convert_checkpoint :: "FixtureCheckpoint \<Rightarrow> Checkpoint" where
  "convert_checkpoint f = \<lparr>cp_root = fx_root f, cp_slot = fx_cp_slot f\<rparr>"

definition convertState :: "FixtureState \<Rightarrow> State" where
  "convertState fs =
     (let config = \<lparr>cfg_genesis_time = fx_genesis_time (fx_config fs)\<rparr>;
          h = fx_latest_block_header fs;
          header = \<lparr>bh_slot = fx_bh_slot h, bh_proposer = fx_bh_proposer h, bh_parent_root = fx_bh_parent_root h,
            bh_state_root = fx_bh_state_root h, bh_body_root = fx_bh_body_root h\<rparr>
      in \<lparr>st_config = config, st_slot = fx_slot fs, st_latest_block_header = header,
          st_latest_justified = convert_checkpoint (fx_latest_justified fs),
          st_latest_finalized = convert_checkpoint (fx_latest_finalized fs),
          st_historical_block_hashes = con_data (fx_historical_block_hashes fs),
          st_justified_slots = buildBitlist (con_data (fx_justified_slots fs)),
          st_validators = map (\<lambda>v. \<lparr>val_pubkey = fx_pubkey v, val_index = fx_index v\<rparr>) (con_data (fx_validators fs)),
          st_justifications_roots = con_data (fx_justifications_roots fs),
          st_justifications_validators = buildBoolBitlist (con_data (fx_justifications_validators fs))\<rparr>)"

definition convert_data :: "FixtureAttestationData \<Rightarrow> AttestationData" where
  "convert_data d =
     \<lparr>ad_slot = fx_ad_slot d, ad_head = convert_checkpoint (fx_head d), ad_target = convert_checkpoint (fx_target d),
      ad_source = convert_checkpoint (fx_source d)\<rparr>"

definition convertAttestation :: "FixtureAttestation \<Rightarrow> Attestation" where
  "convertAttestation fa = \<lparr>att_validator = fx_validator_id fa, att_data = convert_data (fx_data fa)\<rparr>"

definition convertBlock :: "FixtureBlock \<Rightarrow> Block" where
  "convertBlock fb =
     \<lparr>b_slot = fx_b_slot fb, b_proposer = fx_b_proposer fb, b_parent_root = fx_b_parent_root fb,
      b_state_root = fx_b_state_root fb,
      b_body = \<lparr>body_attestations = map convertAttestation (con_data (fx_attestations (fx_body fb)))\<rparr>\<rparr>"

text \<open>The signature is left at its zero value.\<close>

definition convertSignedAttestation :: "FixtureSignedAttestation \<Rightarrow> SignedAttestation" where
  "convertSignedAttestation fa =
     \<lparr>sa_validator = fx_sa_validator_id fa, sa_message = convert_data (fx_sa_data fa), sa_signature = bytes_of []\<rparr>"

definition makeZeroSignatures :: "nat \<Rightarrow> signature list" where
  "makeZeroSignatures count = replicate count (bytes_of [])"

subsection \<open>Bitlists\<close>

lemma bitlist_unique:
  assumes "bitlist_wf a" and "bitlist_wf b" and "bits_of a = bits_of b"
  shows "a = b"
proof -
  have len: "BitlistLen a = BitlistLen b" using assms(3) by (metis length_bits_of)
  have "bit_at a i = bit_at b i" for i
  proof (cases "i < BitlistLen a")
    case True
    then show ?thesis using assms(3) len by (metis nth_bits_of)
  next
    case False
    then show ?thesis using BitlistLen_sentinel(1,2) [OF assms(1)] BitlistLen_sentinel(1,2) [OF assms(2)] len
      by (metis le_antisym not_less)
  qed
  then have at: "bit_at a (8 * k + j) = bit_at b (8 * k + j)" for k j .
  have bits: "bit (a ! k) j = bit (b ! k) j" if "k < length a" "j < 8" for k j
    using at [of k j] that bitlist_len_div [OF assms(1)] bitlist_len_div [OF assms(2)] len by (simp add: bit_at_def)
  show ?thesis
  proof (rule nth_equalityI)
    show "length a = length b" using bitlist_len_div assms(1,2) len by metis
    show "a ! k = b ! k" if "k < length a" for k by (rule bit_word_eqI) (use bits that in simp)
  qed
qed

lemma empty_bitlist: "bitlist_wf [0x01]" "bits_of [0x01] = []"
  by (simp_all add: bitlist_wf_def bits_of_def BitlistLen_def msb_loop.simps)

lemma append_bits:
  "bitlist_wf bl \<Longrightarrow> bitlist_wf (foldl AppendBit bl bits) \<and> bits_of (foldl AppendBit bl bits) = bits_of bl @ bits"
  by (induction bits arbitrary: bl) (simp_all add: AppendBit_data)

lemma buildBoolBitlist_bits: "bitlist_wf (buildBoolBitlist bits)" "bits_of (buildBoolBitlist bits) = bits"
  using append_bits [OF empty_bitlist(1)] by (simp_all add: buildBoolBitlist_def empty_bitlist)

lemma buildBoolBitlist_bits_of: "bitlist_wf bl \<Longrightarrow> buildBoolBitlist (bits_of bl) = bl"
  using buildBoolBitlist_bits by (intro bitlist_unique)

lemma buildBitlist_bool: "buildBitlist bits = buildBoolBitlist (map (\<lambda>b. b \<noteq> 0) bits)"
  by (simp add: buildBitlist_def buildBoolBitlist_def foldl_map)

subsection \<open>Every state has a fixture\<close>

definition fixture_checkpoint :: "Checkpoint \<Rightarrow> FixtureCheckpoint" where
  "fixture_checkpoint c = \<lparr>fx_root = cp_root c, fx_cp_slot = cp_slot c\<rparr>"

definition fixture_of :: "State \<Rightarrow> FixtureState" where
  "fixture_of s =
     (let h = st_latest_block_header s in
      \<lparr>fx_config = \<lparr>fx_genesis_time = cfg_genesis_time (st_config s)\<rparr>, fx_slot = st_slot s,
       fx_latest_block_header = \<lparr>fx_bh_slot = bh_slot h, fx_bh_proposer = bh_proposer h, fx_bh_parent_root = bh_parent_root h,
         fx_bh_state_root = bh_state_root h, fx_bh_body_root = bh_body_root h\<rparr>,
       fx_latest_justified = fixture_checkpoint (st_latest_justified s),
       fx_latest_finalized = fixture_checkpoint (st_latest_finalized s),
       fx_historical_block_hashes = \<lparr>con_data = st_historical_block_hashes s\<rparr>,
       fx_justified_slots = \<lparr>con_data = map of_bool (bits_of (st_justified_slots s))\<rparr>,
       fx_validators = \<lparr>con_data = map (\<lambda>v. \<lparr>fx_pubkey = val_pubkey v, fx_index = val_index v\<rparr>) (st_validators s)\<rparr>,
       fx_justifications_roots = \<lparr>con_data = st_justifications_roots s\<rparr>,
       fx_justifications_validators = \<lparr>con_data = bits_of (st_justifications_validators s)\<rparr>\<rparr>)"

lemma converted_parts:
  "convert_checkpoint (fixture_checkpoint c) = c"
  "\<lparr>val_pubkey = val_pubkey v, val_index = val_index v\<rparr> = (v :: Validator)"
  "\<lparr>cfg_genesis_time = cfg_genesis_time config\<rparr> = (config :: Config)"
  "\<lparr>bh_slot = bh_slot h, bh_proposer = bh_proposer h, bh_parent_root = bh_parent_root h,
    bh_state_root = bh_state_root h, bh_body_root = bh_body_root h\<rparr> = (h :: BlockHeader)"
  by (simp_all add: convert_checkpoint_def fixture_checkpoint_def)

theorem convertState_onto:
  assumes "bitlist_wf (st_justified_slots s)" and "bitlist_wf (st_justifications_validators s)"
  shows "convertState (fixture_of s) = s"
proof -
  have "buildBitlist (map of_bool (bits_of (st_justified_slots s))) = st_justified_slots s"
    using assms(1) by (simp add: buildBitlist_bool buildBoolBitlist_bits_of comp_def)
  then show ?thesis
    using assms(2)
    by (intro State.equality)
      (simp_all add: convertState_def fixture_of_def converted_parts Let_def buildBoolBitlist_bits_of comp_def)
qed

text \<open>Roots and keys are read back from the notation with the prefix.\<close>

lemma hex_values:
  "HexRoot_UnmarshalJSON (Some (''0x'' @ hex_encode (list_of_bytes r))) = Inr r"
  "HexPubkey_UnmarshalJSON (Some (''0x'' @ hex_encode (list_of_bytes pk))) = Inr pk"
  by (simp_all only: HexRoot_UnmarshalJSON_def HexPubkey_UnmarshalJSON_def hex_encode_prefix hex_roundtrip option.case sum.case)
    simp_all

end
