(* ===== verification/Spec2Isabelle.thy ===== *)
theory Spec2Isabelle
  imports Prelude Types Bitlist Justifiable HashWalk ProcessAttestations Systems Transition Storage Ghost
    Leansig ForkChoice Produce Aggregation Machine Agreement Finality Accountability Metrics LittleEndian Encoding StateEncoding ReqResp Gossip
    ConfigFiles Sync Node Paths Keystore NodeKeys Startup Logging Fixtures
begin

text \<open>
  A verification of gean, a Go client of the lean consensus chain (3SF-mini finality, LMD GHOST fork choice, XMSS
  signatures). File names below are relative to \<open>src/\<close>.

  \<^bold>\<open>The program.\<close> A node is configured by flags and files (\<open>cmd/gean\<close>, \<open>config\<close>, keys from \<open>cmd/keygen\<close>), opens
  its network services and its store (\<open>node/lifecycle.go\<close>, \<open>network/host.go\<close>, \<open>network/p2p\<close>), keeps a store of
  blocks, states and votes (\<open>chain/forkchoice\<close> over \<open>storage\<close>), and lets a pure state transition
  (\<open>chain/statetransition\<close>) decide which blocks are valid and which slots become justified and final. Blocks and votes
  arrive by gossip (\<open>network/gossipsub\<close>) or are fetched from peers (\<open>network/reqresp\<close>, \<open>node/sync.go\<close>), in the
  encoding of \<open>types/*_encoding.go\<close>. A loop with four intervals per slot (\<open>node/ticker.go\<close>) advances the store's
  time, synchronises, and performs the duties of the node's own validators (\<open>node/validator.go\<close>), which produce and
  sign blocks and votes (\<open>chain/forkchoice/produce.go\<close>, \<open>xmss/leansig\<close>).

  \<^bold>\<open>Theories, in the order of the layers.\<close>

  \<^item> \<open>Prelude\<close>: machine integers, byte arrays \<open>'n bytes\<close> with their order, results \<open>'e + 'a\<close> and
    \<open>and_then\<close>, association lists for Go maps. \<open>LittleEndian\<close>: slices and \<open>encoding/binary\<close>. \<open>Systems\<close>: the
    interfaces of state machines, \<open>invariant_system\<close> and \<open>growing_system\<close>.
  \<^item> \<open>Types\<close>: one record per struct of \<open>types/*.go\<close>. \<open>Bitlist\<close>: \<open>statetransition/bitlist.go\<close>, refined by
    lists of booleans. \<open>Justifiable\<close>: \<open>types/slot.go\<close>, with the \<open>float64\<close> square root, equivalent to the rule of
    squares and pronic numbers.
  \<^item> \<open>HashWalk\<close>: the \<open>HashTreeRootWith\<close> methods as the sequence of their calls of the hasher; the walk determines
    the value. \<open>Encoding\<close>, \<open>StateEncoding\<close>: the SSZ codecs. The locale \<open>ssz_library\<close> is the interface of fastssz,
    \<open>codec\<close>, \<open>fixed_codec\<close> and \<open>item\<close> are what every type promises (appending, size, decoding exactly the
    encodings, no slice out of range); each type is shown to be one by a sublocale, and \<open>le_lib\<close> interprets the library.
  \<^item> \<open>ProcessAttestations\<close>, \<open>Transition\<close>: \<open>statetransition\<close>. The invariant \<open>chain_state\<close>, supermajorities,
    finality, the outcome of the transition on every branch; the interpretation \<open>chain\<close> of \<open>growing_system\<close> carries
    them along every chain.
  \<^item> \<open>Storage\<close>: \<open>storage/memory\<close>, the locale \<open>table\<close> with three interpretations. \<open>Ghost\<close>:
    \<open>forkchoice/ghost.go\<close>, equal to the abstract \<open>ghost\<close> search on forests, with the locale \<open>strict_choice\<close> for
    the choice of a child whatever the order of a Go map. \<open>Leansig\<close>, \<open>Keystore\<close>: \<open>xmss/leansig\<close>.
  \<^item> \<open>ForkChoice\<close>, \<open>Produce\<close>, \<open>Aggregation\<close>: the store and its operations (\<open>store.go\<close>, \<open>time.go\<close>,
    \<open>attestation.go\<close>, \<open>block.go\<close>, \<open>produce.go\<close>, \<open>aggregation.go\<close>). The record \<open>Store\<close> has the fields of the
    Go struct; each method is one function on it. The invariant \<open>fc_inv\<close> says that every stored block lies under its own
    root with its post state and a stored parent of a smaller slot. \<open>Machine\<close>: the methods as steps of one machine, the
    interpretation \<open>fork_choice\<close>, and what holds along every run. \<open>Agreement\<close>: several such machines from one anchor; the
    invariant \<open>replica_inv\<close> (states are replays of the stored blocks, votes and the bodies of blocks are signed by their
    validators) and its interpretation \<open>replica\<close>.
  \<^item> \<open>Finality\<close>: what the votes of a chain and its justified slots have to do with each other, in both directions.
    \<open>backed\<close> is an invariant of replays: every recorded tally and every justified slot is accounted for by attestations in
    the bodies of the chain; \<open>tallies_open\<close> says that no recorded tally has reached the threshold, so that one more vote of
    a supermajority is always noticed. \<open>Accountability\<close> joins this with the replicas. \<open>Metrics\<close>: the table of collectors,
    its registration, and the updates of each operation as a list of events beside the operation.
  \<^item> \<open>ReqResp\<close>, \<open>Gossip\<close>: frames, messages, client, server, subscriptions. \<open>Sync\<close>: the node's callbacks and
    \<open>syncWithPeer\<close>. \<open>ConfigFiles\<close>: package \<open>config\<close>. \<open>Node\<close>: clock, duties, the body of the main loop, the start
    from genesis.
  \<^item> \<open>Paths\<close>: decimal numbers and \<open>filepath.Join\<close>. \<open>Keystore\<close>: key files and \<open>cmd/keygen\<close>, joined with the genesis
    file. \<open>NodeKeys\<close>: the two loaders of the node key, \<open>scripts/gen_node_keys\<close>, boot nodes. \<open>Startup\<close>: \<open>main\<close>,
    \<open>New\<close> with its error paths over a record \<open>world\<close> of files and open resources, \<open>Run\<close> as a sequence of ticks and
    gossip messages, \<open>Close\<close>. \<open>Logging\<close>: \<open>observability/logging\<close>. \<open>Fixtures\<close>: the converters of \<open>spectests\<close>.
  \<^item> This theory: properties that join the state transition with the encoding and with the genesis file, and production,
    gossip and fork choice of two nodes.

  \<^bold>\<open>Conventions.\<close> \<open>uint64\<close> is \<open>64 word\<close> and wraps as in Go; a comparison of a \<open>uint64\<close> with a length is one
  of natural numbers. Structs are passed by value: the code copies states before it changes them (\<open>State.Copy\<close>) and does not
  change blocks or votes it has stored. Every exported method of the store holds its mutex from beginning to end, so
  concurrent calls are a sequence of steps. Panics of index and slice expressions are values where bytes from outside
  decide about them.

  \<^bold>\<open>Parameters.\<close> Code outside the repository is an argument: the fastssz hasher (\<open>hash\<close>, a function from walks to
  roots) and codec functions (\<open>ssz_lib\<close>), the C functions of the XMSS library (\<open>leansig_ffi\<close>, \<open>env_cverify\<close>),
  snappy (\<open>snappy_lib\<close>, \<open>snappy_ok\<close>), SHA-256, files and YAML, the key and address libraries (\<open>key_lib\<close>,
  \<open>addr_lib\<close>), and what libp2p, discovery and the operating system answer during the start (\<open>platform\<close>). Where a property needs that blocks do not collide, it says
  so for the blocks at hand: no function to 32 bytes is injective on all blocks.

  \<^bold>\<open>Bounds and loops.\<close> Loops whose end depends on data are \<open>partial_function (option)\<close>, \<open>None\<close> meaning that they do not
  end: the descent of GHOST, the advance of time, the walk to a justifiable target, the collection of votes, the client's
  loop over responses. Each is shown to end on every store that satisfies the invariant, respectively for every stream. The
  synchronisation walk recurses on its 64 iterations. The invariant of states bounds the history by \<open>2^50\<close> slots and the
  registry by the 4096 validators of the SSZ limit, far below every overflow of the slot arithmetic; the square root is exact
  below \<open>(2^32 - 2)^2\<close> and shown to fail at the top of the range.

  \<^bold>\<open>What the properties show.\<close> Chains: invariant, finality and histories only grow, supermajority for justification,
  the rule of finalization, and conversely that votes of two thirds justify their target and finalize its source. Fork choice: the head is the GHOST head, only checked blocks and votes enter, refused blocks leave
  no trace, safe targets have two thirds support, produced blocks and votes are valid. Several nodes: they agree on the state of
  every block, count only votes signed by their validators, and an honest block travels from its producer into the store of every
  node that has the parent; if two nodes ever justify different blocks at one slot, a third of the validators can be convicted with
  what the nodes have stored. The metrics of a block count exactly what was processed. Network: codecs round-trip and are
  canonical, malformed bytes cannot crash a decoder, client and server agree, requests end, synchronisation is safe against every
  peer and closes gaps of up to 64 blocks. Node: a node started from any accepted command line survives every sequence of ticks
  and messages, a failed start gives back what it opened, host and discovery share one identity, the generated keys fit the genesis
  file, a validator signs at most one block and one vote per slot and call, assignments of validators to nodes are disjoint. Several
  lemmas record defects: a gap of more than 64 blocks is never closed, a producer does not process its own block, aggregates mix
  data, a pending vote can replace a newer one, the latest justified slot of a state can move back, a node without a node key does
  not start, \<open>Close\<close> panics, votes for different empty slots are counted together and justify a slot without a block, the flag for the log level has no effect, a node record lacks the port its readers require, a block
  with the votes of a full registry cannot be published, the time of signature verifications is a metric that is never observed.

  \<^bold>\<open>Not modelled.\<close> The banner, the signal handler and the HTTP server of the metrics have no logic of their own, and the durations
  that histograms observe are readings of the clock; \<open>GetTree\<close> of the encodings is called by nothing. Of \<open>network/p2p\<close> the
  accessors of fields are left out. Signatures, hashing, compression, YAML and JSON are libraries. Failures in the middle of a write
  to a stream are only modelled as a failure of the exchange. Of \<open>spectests\<close> the expected results are data of the test files.
\<close>

subsection \<open>Consensus states on the wire\<close>

lemma chain_state_fits:
  assumes "chain_state s" and "length (st_historical_block_hashes s) \<le> 262144"
  shows "state_bitlists s" and "state_fits s"
proof -
  have wf: "state_wf s" using assms(1) by (simp add: chain_state_def)
  have "length (st_justifications_roots s) \<le> length (st_historical_block_hashes s)"
    using wf card_mono [of "set (st_historical_block_hashes s)" "set (st_justifications_roots s)"]
      card_length [of "st_historical_block_hashes s"] by (simp add: state_wf_def distinct_card)
  then have roots: "length (st_justifications_roots s) \<le> 262144" using assms(2) by simp
  then have "length (st_justifications_roots s) * length (st_validators s) \<le> 262144 * 4096"
    using wf by (intro mult_le_mono) (simp_all add: state_wf_def)
  then show bl: "state_bitlists s"
    using wf assms(2) by (simp add: state_bitlists_def state_wf_def)
  have "length (st_justified_slots s) \<le> 32769" "length (st_justifications_validators s) \<le> 134217729"
    using bl bitlist_len_div by (auto simp: state_bitlists_def)
  then show "state_fits s" using wf roots assms(2) by (simp add: state_fits_def state_wf_def)
qed

text \<open>
  C17: every state of the chain can be written and read back. A state reached from genesis by accepted blocks, at a slot
  within the limit of the block history, is encoded without error, in as many bytes as \<open>SizeSSZ\<close> says, and decoding
  these bytes into a new state gives the state back: the limits of the encoding are never the reason why a state of a
  valid chain is lost.
\<close>

theorem chain_state_roundtrip:
  assumes "ssz_library lib" and "length validators \<le> 4096"
    and "extends hash (GenerateGenesis hash genesisTime validators) s"
    and "length (st_historical_block_hashes s) \<le> HistoricalRootsLimit"
  shows "\<exists>bs. State_MarshalSSZ lib s = Inr bs \<and> length bs = State_SizeSSZ s \<and> State_UnmarshalSSZ lib new_State bs = Inr s"
proof -
  have "chain_state s"
    using assms(2,3) chain.inv_reachable [of hash] by (auto simp: extends_def genesis_state_def)
  moreover have "length (st_historical_block_hashes s) \<le> 262144" using assms(4) by (simp add: HistoricalRootsLimit_def)
  ultimately show ?thesis
    using ssz_library.state_roundtrip [OF assms(1)] chain_state_fits by blast
qed

theorem chain_state_roundtrip_witness:
  "\<exists>bs. State_MarshalSSZ le_lib (ex_child ex_genesis 2) = Inr bs \<and>
     State_UnmarshalSSZ le_lib new_State bs = Inr (ex_child ex_genesis 2)"
proof -
  have "length (st_historical_block_hashes (ex_child ex_genesis 2)) \<le> HistoricalRootsLimit" by code_simp
  from chain_state_roundtrip [OF le.ssz_library_axioms _ ex_extends [unfolded ex_genesis_def] this [unfolded ex_genesis_def]]
  show ?thesis by (auto simp: ex_genesis_def)
qed

text \<open>
  C9: an honest proposer's block reaches the other nodes. A node produces a block with a key whose signatures verify
  under the anchor state's key for the proposer. Then the envelope can be published, and every node that started from the
  same anchor and knows the parent ends up, when its gossip subscription delivers the message, with the block and the
  producer's post state for it, whatever its clock says and whatever else it has received. Signature verification is on,
  the validators leave room for the proposer's signature in the envelope, and no hash collides between the two stores.
\<close>

theorem honest_block_delivered:
  assumes "ssz_library lib" and "snappy_ok sn"
    and "replica_init e s0 b0 c0" and "(fc_step e (b_parent_root b0))\<^sup>*\<^sup>* c0 a" and "(fc_step e (b_parent_root b0))\<^sup>*\<^sup>* c0 d"
    and "env_verify_signatures e" and "length (st_validators s0) < 4096"
    and made: "ProduceBlock (env_hash e) sign slot v a = Some (Inr envelope, a')"
    and honest: "\<And>message sig. sign (ucast slot) message = Inr sig \<Longrightarrow>
      Verify (env_cverify e) (list_of_bytes (val_pubkey (st_validators s0 ! unat v))) (ucast slot) message
        (list_of_bytes (bytes_of sig :: signature)) = None"
    and block: "block = bwa_block (sb_message envelope)" "r = block_root (env_hash e) block" "r \<noteq> b_parent_root b0"
    and clash: "no_clash (fc_storage a) (fc_storage a')" "no_clash (fc_storage a') (fc_storage d)"
    and parent: "Store_GetBlock d (b_parent_root block) \<noteq> None"
  shows "\<exists>msg d' s. PublishBlock lib sn envelope = Inr msg \<and>
    readBlockMessages lib sn (Some (OnBlock e now)) [msg] (Some d) = Some d' \<and> Store_GetBlock d' r = Some block \<and>
    GetState (fc_storage a') r = Some s \<and> GetState (fc_storage d') r = Some s"
proof -
  have "replica_inv e s0 b0 a" using assms(3,4) by (rule replica.inv_reachable)
  note size = ProduceBlock_size [OF this assms(6) made]
  obtain msg where msg: "PublishBlock lib sn envelope = Inr msg"
    "\<And>onBlock (st :: Store option). readBlockMessages lib sn (Some onBlock) [msg] st = onBlock (as_received envelope) st"
    using published_block_received [OF assms(1,2), of envelope] size assms(7) by auto
  have same: "as_received envelope = envelope"
    using size(3) by (auto simp: as_received_def proposer_filled_def)
  obtain d' s where "Store_ProcessBlock e now envelope d = Some (None, d')" "Store_GetBlock d' r = Some block"
    "GetState (fc_storage a') r = Some s" "GetState (fc_storage d') r = Some s"
    using honest_block_accepted [OF assms(3-5) made honest block clash parent] by blast
  moreover from this(1) have "readBlockMessages lib sn (Some (OnBlock e now)) [msg] (Some d) = Some d'"
    by (simp add: msg(2) same OnBlock_def)
  ultimately show ?thesis using msg(1) by blast
qed

theorem honest_block_delivered_witness:
  "\<exists>envelope a' msg d'. ProduceBlock ex_hash ex_sign 1 1 ex_store = Some (Inr envelope, a') \<and>
     PublishBlock le_lib stored envelope = Inr msg \<and>
     readBlockMessages le_lib stored (Some (OnBlock ex_env None)) [msg] (Some ex_store) = Some d' \<and>
     Store_GetBlock d' (bytes_of [1, 1, 1]) = Some (bwa_block (sb_message envelope))"
proof -
  have e: "env_hash ex_env = ex_hash" "env_verify_signatures ex_env" "length (st_validators ex_genesis) < 4096"
    by (simp_all add: ex_env_def ex_genesis_fields)
  have ap: "bytes_of [1, 1, 1] \<noteq> b_parent_root ex_anchor" unfolding ex_anchor_fields by code_simp
  obtain envelope a' where made: "ProduceBlock (env_hash ex_env) ex_sign 1 1 ex_store = Some (Inr envelope, a')"
    and root: "bytes_of [1, 1, 1] = block_root (env_hash ex_env) (bwa_block (sb_message envelope))"
    and rest: "no_clash (fc_storage ex_store) (fc_storage a')" "no_clash (fc_storage a') (fc_storage ex_store)"
      "Store_GetBlock ex_store (b_parent_root (bwa_block (sb_message envelope))) \<noteq> None"
    unfolding e(1) using ex_honest_block by metis
  show ?thesis
    using honest_block_delivered [OF le.ssz_library_axioms stored_ok ex_replica_init rtranclp.rtrancl_refl
        rtranclp.rtrancl_refl e(2,3) made ex_honest_key refl root ap rest, of None] made
    unfolding e(1) by blast
qed

text \<open>
  The room for the proposer's signature is needed: a block with the votes of 4096 validators, as many as the registry may
  have and as its body may carry, has one signature more than the envelope can encode, and cannot be published.
\<close>

lemma full_block_unpublishable:
  assumes "ssz_library lib" and "fc_inv hash ap a" and "ProduceBlock hash sign slot v a = Some (Inr envelope, a')"
    and "length (body_attestations (b_body (bwa_block (sb_message envelope)))) = 4096"
  shows "\<exists>err. PublishBlock lib sn envelope = Inl err"
proof -
  obtain fs c where "produced hash sign slot v c envelope fs"
    using assms(2) by (cases rule: ProduceBlock_cases [where sign = sign and slot = slot and v = v]) (use assms(3) in auto)
  then have "length (sb_signature envelope) = 4097" using produced_signature_count assms(4) by fastforce
  then show ?thesis
    by (auto simp: PublishBlock_def ssz_library.marshal_defs [OF assms(1)] SignedBlockWithAttestation_MarshalSSZTo_def
        and_then_def Let_def split: sum.split)
qed

text \<open>
  Nothing checks the number of genesis validators: a file with more than 4096 keys is accepted, and the root of the genesis
  state, whose error the start of the node ignores, does not exist.
\<close>

lemma oversized_genesis_unhashable:
  assumes "4096 < length validators"
  shows "\<exists>err. State_HashTreeRootWith (GenerateGenesis hash genesisTime validators) = Inl err"
proof -
  have "validators_walk validators = Inl ErrIncorrectListSize" using assms by (simp add: validators_walk_def Let_def)
  then show ?thesis
    by (simp add: State_HashTreeRootWith_def GenerateGenesis_def Let_def and_then_def split: sum.split)
qed

end
